(* ===== verification/Prelude.thy ===== *)
theory Prelude
  imports Main "HOL-Library.Word"
begin

text \<open>
  What every component of the development shares: the machine types of the Go source, the
  outcome of a call that may panic, the little-endian integer encodings of
  \<^verbatim>\<open>encoding/binary\<close>, the checksums of \<^verbatim>\<open>hash/crc32\<close> and \<^verbatim>\<open>hash/fnv\<close>, and the interface
  \<open>codec\<close> of an encoder and its decoder.
\<close>

unbundle bit_operations_syntax

named_theorems wire_simps \<open>rewrite rules that evaluate encoders and decoders\<close>
named_theorems disk_simps \<open>rewrite rules for the simulated file system\<close>
named_theorems node_simps \<open>rewrite rules for the state of one node\<close>

section \<open>Machine types\<close>

text \<open>
  Unsigned integers keep their width. A Go string is a sequence of bytes, so strings and byte
  slices have the same model; the empty string and the nil slice are both \<open>[]\<close>.
\<close>

type_synonym byte = "8 word"
type_synonym bytes = "8 word list"
type_synonym gostring = "8 word list"
type_synonym u32 = "32 word"
type_synonym u64 = "64 word"

text \<open>The values of type \<^verbatim>\<open>any\<close> that pass through the session table and the proposals.\<close>

datatype any = AnyNil | AnyBool bool | AnyStruct | AnyJson bytes

text \<open>
  A call on a state \<open>'r\<close> returns (\<open>Ret\<close>), panics with the state as the panic left it
  (\<open>Panic\<close>: deferred unlocks run, so the state is observable afterwards), or never returns
  (\<open>NoReturn\<close>: an endless loop, or a stack overflow, which ends a Go process).
\<close>

datatype ('r, 'a) outcome = Ret 'r 'a | Panic 'r | NoReturn

fun bindO :: "('r, 'a) outcome \<Rightarrow> ('r \<Rightarrow> 'a \<Rightarrow> ('r, 'b) outcome) \<Rightarrow> ('r, 'b) outcome" where
  "bindO (Ret r a) f = f r a"
| "bindO (Panic r) f = Panic r"
| "bindO NoReturn f = NoReturn"

fun mapO :: "('r \<Rightarrow> 'q) \<Rightarrow> ('r, 'a) outcome \<Rightarrow> ('q, 'a) outcome" where
  "mapO g (Ret r a) = Ret (g r) a"
| "mapO g (Panic r) = Panic (g r)"
| "mapO g NoReturn = NoReturn"

fun on_states :: "('r \<Rightarrow> bool) \<Rightarrow> ('r, 'a) outcome \<Rightarrow> bool" where
  "on_states P (Ret r a) = P r"
| "on_states P (Panic r) = P r"
| "on_states P NoReturn = True"

section \<open>Signed integers\<close>

text \<open>Signed values are integers in range; \<open>int16\<close> and \<open>int64\<close> wrap, \<open>rem_go\<close> truncates to zero.\<close>

definition int16 :: "int \<Rightarrow> int" where
  "int16 x = (x + 2 ^ 15) mod 2 ^ 16 - 2 ^ 15"

definition int64 :: "int \<Rightarrow> int" where
  "int64 x = (x + 2 ^ 63) mod 2 ^ 64 - 2 ^ 63"

definition rem_go :: "int \<Rightarrow> int \<Rightarrow> int" where
  "rem_go a b = sgn a * (\<bar>a\<bar> mod \<bar>b\<bar>)"

section \<open>Little-endian integers: encoding/binary\<close>

primrec le_encode :: "nat \<Rightarrow> 'a::len word \<Rightarrow> bytes" where
  "le_encode 0 v = []"
| "le_encode (Suc n) v = ucast v # le_encode n (drop_bit 8 v)"

primrec le_decode :: "bytes \<Rightarrow> 'a::len word" where
  "le_decode [] = 0"
| "le_decode (b # bs) = (ucast b OR push_bit 8 (le_decode bs))"

definition PutUint32 :: "u32 \<Rightarrow> bytes" where
  "PutUint32 v = le_encode 4 v"

definition PutUint64 :: "u64 \<Rightarrow> bytes" where
  "PutUint64 v = le_encode 8 v"

definition Uint32 :: "bytes \<Rightarrow> u32" where
  "Uint32 bs = le_decode (take 4 bs)"

definition Uint64 :: "bytes \<Rightarrow> u64" where
  "Uint64 bs = le_decode (take 8 bs)"

section \<open>Checksums: hash/crc32 and hash/fnv\<close>

text \<open>The reflected CRC-32 of polynomial \<open>0xEDB88320\<close>, one bit at a time.\<close>

definition crc32_shift :: "u32 \<Rightarrow> u32" where
  "crc32_shift c = (if odd c then drop_bit 1 c XOR 0xEDB88320 else drop_bit 1 c)"

primrec crc32_bits :: "nat \<Rightarrow> u32 \<Rightarrow> u32" where
  "crc32_bits 0 c = c"
| "crc32_bits (Suc n) c = crc32_bits n (crc32_shift c)"

definition ChecksumIEEE :: "bytes \<Rightarrow> u32" where
  "ChecksumIEEE bs = NOT (foldl (\<lambda>c b. crc32_bits 8 (c XOR ucast b)) (NOT 0) bs)"

text \<open>The 64-bit FNV-1a hash.\<close>

definition fnv64a :: "bytes \<Rightarrow> u64" where
  "fnv64a bs = foldl (\<lambda>h b. (h XOR ucast b) * 1099511628211) 14695981039346656037 bs"

section \<open>Lemmas\<close>

lemma bindO_eq_Ret [simp]:
  "bindO m f = Ret r b \<longleftrightarrow> (\<exists>r' a. m = Ret r' a \<and> f r' a = Ret r b)"
  by (cases m) auto

lemma bindO_assoc: "bindO (bindO m f) g = bindO m (\<lambda>r a. bindO (f r a) g)"
  by (cases m) auto

lemma on_states_bindO:
  assumes "on_states P m" and "\<And>r a. P r \<Longrightarrow> m = Ret r a \<Longrightarrow> on_states Q (f r a)"
    and "\<And>r. P r \<Longrightarrow> Q r"
  shows "on_states Q (bindO m f)"
  using assms by (cases m) auto

lemma on_states_dest: "on_states P m \<Longrightarrow> m = Ret r a \<Longrightarrow> P r" "on_states P m \<Longrightarrow> m = Panic r \<Longrightarrow> P r"
  by auto

lemma on_states_mono: "on_states P m \<Longrightarrow> (\<And>r. P r \<Longrightarrow> Q r) \<Longrightarrow> on_states Q m"
  by (cases m) auto

lemma int16_id: "- (2 ^ 15) \<le> x \<Longrightarrow> x < 2 ^ 15 \<Longrightarrow> int16 x = x"
  by (simp add: int16_def)

lemma int64_id: "- (2 ^ 63) \<le> x \<Longrightarrow> x < 2 ^ 63 \<Longrightarrow> int64 x = x"
  by (simp add: int64_def)

lemma rem_go_nonneg: "0 \<le> a \<Longrightarrow> 0 < b \<Longrightarrow> rem_go a b = a mod b"
  by (simp add: rem_go_def sgn_if)

lemma le_encode_length [simp]: "length (le_encode n v) = n"
  by (induction n arbitrary: v) auto

lemma le_decode_encode: "le_decode (le_encode n v) = take_bit (8 * n) v"
proof (induction n arbitrary: v)
  case 0
  show ?case by simp
next
  case (Suc n)
  show ?case
    unfolding le_encode.simps le_decode.simps Suc.IH
    by (rule bit_word_eqI) (auto simp: bit_simps)
qed

lemma bit_le_decode_bound: "bit (le_decode bs :: 'a::len word) n \<Longrightarrow> n < 8 * length bs"
proof (induction bs arbitrary: n)
  case (Cons b bs)
  then show ?case
    by (fastforce simp: bit_simps dest: bit_imp_le_length)
qed simp

lemma le_encode_decode:
  "8 * length bs \<le> LENGTH('a::len) \<Longrightarrow> le_encode (length bs) (le_decode bs :: 'a word) = bs"
proof (induction bs)
  case Nil
  show ?case by simp
next
  case (Cons b bs)
  have tail: "drop_bit 8 (ucast b OR push_bit 8 (le_decode bs :: 'a word)) = le_decode bs"
    by (rule bit_word_eqI)
      (use Cons.prems in \<open>auto simp: bit_simps dest: bit_imp_le_length bit_le_decode_bound\<close>)
  have head: "(ucast (ucast b OR push_bit 8 (le_decode bs :: 'a word)) :: byte) = b"
    by (rule bit_word_eqI)
      (use Cons.prems in \<open>auto simp: bit_simps dest: bit_imp_le_length\<close>)
  show ?case using Cons tail head by simp
qed

lemma xor_cancel_right: "(a :: 'a::len word) XOR c = b XOR c \<longleftrightarrow> a = b"
  by (metis xor.assoc xor.right_neutral xor_self_eq)

lemma xor_cancel_left: "(c :: 'a::len word) XOR a = c XOR b \<longleftrightarrow> a = b"
  by (metis xor.commute xor_cancel_right)

lemma ucast_byte_inject: "(ucast (a :: byte) :: u32) = ucast b \<longleftrightarrow> a = b"
proof
  assume eq: "(ucast a :: u32) = ucast b"
  show "a = b"
  proof (rule bit_word_eqI)
    fix n
    assume n: "n < LENGTH(8)"
    have "bit (ucast a :: u32) n = bit (ucast b :: u32) n" by (simp add: eq)
    with n show "bit a n = bit b n" by (simp add: bit_simps)
  qed
qed simp

lemma PutUint_length [simp]: "length (PutUint32 v) = 4" "length (PutUint64 w) = 8"
  by (simp_all add: PutUint32_def PutUint64_def)

lemma Uint32_PutUint32 [simp]: "Uint32 (PutUint32 v @ bs) = v"
  by (simp add: Uint32_def PutUint32_def le_decode_encode take_bit_word_eq_self)

lemma Uint64_PutUint64 [simp]: "Uint64 (PutUint64 v @ bs) = v"
  by (simp add: Uint64_def PutUint64_def le_decode_encode take_bit_word_eq_self)

lemma Uint_PutUint [simp]: "Uint32 (PutUint32 v) = v" "Uint64 (PutUint64 w) = w"
  using Uint32_PutUint32 [of v "[]"] Uint64_PutUint64 [of w "[]"] by simp_all

lemma PutUint32_Uint32 [simp]: "4 \<le> length bs \<Longrightarrow> PutUint32 (Uint32 bs) = take 4 bs"
  using le_encode_decode [where 'a = 32, of "take 4 bs"]
  by (simp add: Uint32_def PutUint32_def min_absorb2)

lemma PutUint64_Uint64 [simp]: "8 \<le> length bs \<Longrightarrow> PutUint64 (Uint64 bs) = take 8 bs"
  using le_encode_decode [where 'a = 64, of "take 8 bs"]
  by (simp add: Uint64_def PutUint64_def min_absorb2)

lemma PutUint_eval [wire_simps]:
  "PutUint32 v = [ucast v, ucast (drop_bit 8 v), ucast (drop_bit 16 v), ucast (drop_bit 24 v)]"
  "PutUint64 w = [ucast w, ucast (drop_bit 8 w), ucast (drop_bit 16 w), ucast (drop_bit 24 w),
     ucast (drop_bit 32 w), ucast (drop_bit 40 w), ucast (drop_bit 48 w), ucast (drop_bit 56 w)]"
  by (simp_all add: PutUint32_def PutUint64_def eval_nat_numeral drop_bit_drop_bit)

lemmas Uint_eval [wire_simps] = Uint32_def Uint64_def

section \<open>The checksum tells apart byte strings that differ in one byte\<close>

lemma crc32_shift_inject:
  assumes "crc32_shift c = crc32_shift d"
  shows "c = d"
proof -
  have top: "bit (crc32_shift x) 31 \<longleftrightarrow> odd x" for x
    by (auto simp: crc32_shift_def bit_simps bit_numeral_rec dest: bit_imp_le_length)
  have par: "odd c \<longleftrightarrow> odd d" using top [of c] top [of d] assms by simp
  then have tail: "drop_bit 1 c = drop_bit 1 d"
    using assms by (auto simp: crc32_shift_def xor_cancel_right split: if_splits)
  show ?thesis
  proof (rule bit_word_eqI)
    fix n
    have "bit (drop_bit 1 c) (n - 1) = bit (drop_bit 1 d) (n - 1)" unfolding tail ..
    with par show "bit c n = bit d n" by (cases n) (simp_all add: bit_0 bit_drop_bit_eq)
  qed
qed

lemma crc32_bits_inject: "crc32_bits n c = crc32_bits n d \<Longrightarrow> c = d"
  by (induction n arbitrary: c d) (auto dest: crc32_shift_inject)

abbreviation crc32_byte :: "u32 \<Rightarrow> byte \<Rightarrow> u32" where
  "crc32_byte \<equiv> \<lambda>c b. crc32_bits 8 (c XOR ucast b)"

lemma crc32_byte_inject_byte: "crc32_byte c a = crc32_byte c b \<Longrightarrow> a = b"
  by (drule crc32_bits_inject) (simp add: xor_cancel_left ucast_byte_inject)

lemma crc32_byte_inject_state: "crc32_byte c a = crc32_byte d a \<Longrightarrow> c = d"
  by (drule crc32_bits_inject) (simp add: xor_cancel_right)

lemma crc32_fold_inject_state: "foldl crc32_byte c bs = foldl crc32_byte d bs \<Longrightarrow> c = d"
  by (induction bs arbitrary: c d) (auto dest: crc32_byte_inject_state)

lemma ChecksumIEEE_single_byte:
  assumes "ChecksumIEEE (xs @ a # ys) = ChecksumIEEE (xs @ b # ys)"
  shows "a = b"
proof -
  have "foldl crc32_byte (NOT 0) (xs @ a # ys) = foldl crc32_byte (NOT 0) (xs @ b # ys)"
    using assms unfolding ChecksumIEEE_def by simp
  then show ?thesis by (auto dest!: crc32_fold_inject_state crc32_byte_inject_byte)
qed

section \<open>The interface of an encoder and its decoder\<close>

text \<open>
  \<open>ok\<close> is the set of values the decoder recovers. What a client needs from it is below:
  distinct values have distinct encodings, and an encoding determines its value.
\<close>

locale codec =
  fixes ok :: "'a \<Rightarrow> bool" and enc :: "'a \<Rightarrow> bytes" and dec :: "bytes \<Rightarrow> 'b + 'a"
  assumes dec_enc: "ok x \<Longrightarrow> dec (enc x) = Inr x"
begin

lemma enc_inject: "ok x \<Longrightarrow> ok y \<Longrightarrow> enc x = enc y \<longleftrightarrow> x = y"
  by (metis dec_enc sum.inject(2))

lemma enc_determines: "ok x \<Longrightarrow> dec (enc x) = Inr y \<Longrightarrow> y = x"
  by (simp add: dec_enc)

lemma map_enc_inject: "\<forall>x\<in>set xs \<union> set ys. ok x \<Longrightarrow> map enc xs = map enc ys \<longleftrightarrow> xs = ys"
proof (induction xs arbitrary: ys)
  case (Cons x xs)
  then show ?case by (cases ys) (auto simp: enc_inject)
qed auto

end

end
