(* ===== verification/Log_Entry.thy ===== *)
theory Log_Entry
  imports Prelude
begin

text \<open>
  \<^verbatim>\<open>internal/log_entry.go\<close>: the log entry and its binary formats. \<open>Serialize\<close> writes the legacy
  format (term, data) when the entry carries no session, and the session format (term, client id
  length, client id, sequence number, data) otherwise; \<open>DeserializeLogEntry\<close> tells them apart by
  a heuristic on the bytes. The lemmas say exactly which entries survive the round trip, that the
  term always does, and what the checksummed variant detects.
\<close>

section \<open>Data and operations\<close>

record LogEntry =
  Data :: bytes
  Term :: u64
  ClientId :: gostring
  SequenceNumber :: u64

datatype entry_error =
    EntryTooShort nat
  | EntryCRCTooShort nat
  | EntryCRCMismatch u32 u32

definition Serialize :: "LogEntry \<Rightarrow> bytes" where
  "Serialize e =
     (if ClientId e = [] \<and> SequenceNumber e = 0
      then PutUint64 (Term e) @ Data e
      else PutUint64 (Term e) @ PutUint32 (word_of_nat (length (ClientId e))) @ ClientId e
             @ PutUint64 (SequenceNumber e) @ Data e)"

definition DeserializeLogEntry :: "bytes \<Rightarrow> entry_error + LogEntry" where
  "DeserializeLogEntry data =
     (if length data < 8 then Inl (EntryTooShort (length data))
      else
        let term = Uint64 (take 8 data);
            clientIdLen = Uint32 (take 4 (drop 8 data));
            requiredLen = 8 + 4 + unat clientIdLen + 8
        in if 12 \<le> length data \<and> 0 < clientIdLen \<and> clientIdLen \<le> 1024
              \<and> requiredLen \<le> length data
           then Inr \<lparr>Data = drop requiredLen data, Term = term,
                     ClientId = take (unat clientIdLen) (drop 12 data),
                     SequenceNumber = Uint64 (take 8 (drop (12 + unat clientIdLen) data))\<rparr>
           else Inr \<lparr>Data = drop 8 data, Term = term, ClientId = [], SequenceNumber = 0\<rparr>)"

definition SerializeWithCRC :: "LogEntry \<Rightarrow> bytes" where
  "SerializeWithCRC e = (let payload = Serialize e in payload @ PutUint32 (ChecksumIEEE payload))"

definition DeserializeLogEntryWithCRC :: "bytes \<Rightarrow> entry_error + LogEntry" where
  "DeserializeLogEntryWithCRC data =
     (if length data < 12 then Inl (EntryCRCTooShort (length data))
      else
        let payload = take (length data - 4) data;
            expected = Uint32 (drop (length data - 4) data);
            actual = ChecksumIEEE payload
        in if expected \<noteq> actual then Inl (EntryCRCMismatch expected actual)
           else DeserializeLogEntry payload)"

section \<open>Specification\<close>

text \<open>
  \<open>looks_like_session d\<close>: the bytes after the term would be taken for a session header.
  \<open>recoverable e\<close>: the entries the format can carry.
\<close>

definition looks_like_session :: "bytes \<Rightarrow> bool" where
  "looks_like_session d \<longleftrightarrow>
     4 \<le> length d \<and> 0 < Uint32 d \<and> Uint32 d \<le> 1024 \<and> 12 + unat (Uint32 d) \<le> length d"

definition recoverable :: "LogEntry \<Rightarrow> bool" where
  "recoverable e \<longleftrightarrow>
     (if ClientId e = [] then SequenceNumber e = 0 \<and> \<not> looks_like_session (Data e)
      else length (ClientId e) \<le> 1024)"

section \<open>Parsing\<close>

lemma Uint32_take4 [simp]: "Uint32 (take 4 bs) = Uint32 bs"
  by (simp add: Uint32_def)

lemma Uint64_take8 [simp]: "Uint64 (take 8 bs) = Uint64 bs"
  by (simp add: Uint64_def)

lemma Deserialize_short: "length data < 8 \<Longrightarrow> DeserializeLogEntry data = Inl (EntryTooShort (length data))"
  by (simp add: DeserializeLogEntry_def)

lemma Deserialize_term_rest:
  "DeserializeLogEntry (PutUint64 t @ rest) =
     (if looks_like_session rest
      then Inr \<lparr>Data = drop (12 + unat (Uint32 rest)) rest, Term = t,
                ClientId = take (unat (Uint32 rest)) (drop 4 rest),
                SequenceNumber = Uint64 (drop (4 + unat (Uint32 rest)) rest)\<rparr>
      else Inr \<lparr>Data = rest, Term = t, ClientId = [], SequenceNumber = 0\<rparr>)"
proof -
  have off: "drop (20 + n) (PutUint64 t @ rest) = drop (12 + n) rest"
    "drop (12 + n) (PutUint64 t @ rest) = drop (4 + n) rest" for n
    by simp_all
  show ?thesis
    using off(2) [of 0]
    by (auto simp: DeserializeLogEntry_def looks_like_session_def Let_def off)
qed

lemma Deserialize_ok_iff: "(\<exists>e. DeserializeLogEntry data = Inr e) \<longleftrightarrow> 8 \<le> length data"
  by (auto simp: DeserializeLogEntry_def Let_def not_less)

lemma Deserialize_Term: "DeserializeLogEntry data = Inr e \<Longrightarrow> Term e = Uint64 data"
  by (auto simp: DeserializeLogEntry_def Let_def split: if_splits)

lemma Serialize_split: "\<exists>rest. Serialize e = PutUint64 (Term e) @ rest"
  by (simp add: Serialize_def)

lemma Serialize_length: "8 \<le> length (Serialize e)"
  using Serialize_split [of e] by auto

lemma Serialize_readable:
  obtains e' where "DeserializeLogEntry (Serialize e) = Inr e'" "Term e' = Term e"
  using Serialize_split [of e] Deserialize_term_rest by (metis LogEntry.select_convs(2))

lemma unat_word_of_length:
  assumes "n \<le> 1024"
  shows "unat (word_of_nat n :: u32) = n"
  using assms by (simp add: unat_of_nat take_bit_nat_eq_self)

lemma word_le_1024_iff: "(w :: u32) \<le> 1024 \<longleftrightarrow> unat w \<le> 1024"
  by (simp add: word_le_nat_alt)

lemma Deserialize_session:
  assumes "0 < length c" and "length c \<le> 1024"
  shows "DeserializeLogEntry (PutUint64 t @ PutUint32 (word_of_nat (length c)) @ c @ PutUint64 s @ d)
           = Inr \<lparr>Data = d, Term = t, ClientId = c, SequenceNumber = s\<rparr>"
proof -
  let ?rest = "PutUint32 (word_of_nat (length c)) @ c @ PutUint64 s @ d"
  have n: "unat (Uint32 ?rest) = length c"
    using assms by (simp add: unat_word_of_length)
  have pos: "0 < Uint32 ?rest"
    using n assms by (simp add: word_less_nat_alt del: Uint32_PutUint32)
  have "looks_like_session ?rest"
    using assms n pos by (simp add: looks_like_session_def word_le_1024_iff del: Uint32_PutUint32)
  then show ?thesis
    unfolding Deserialize_term_rest n by simp
qed

lemma Deserialize_client_bound:
  "DeserializeLogEntry data = Inr e \<Longrightarrow>
     length (ClientId e) \<le> 1024 \<and> (ClientId e = [] \<longrightarrow> SequenceNumber e = 0)"
  by (auto simp: DeserializeLogEntry_def Let_def word_le_1024_iff word_less_nat_alt split: if_splits)

lemma Deserialize_Serialize: "recoverable e \<Longrightarrow> DeserializeLogEntry (Serialize e) = Inr e"
  by (cases "ClientId e = []")
    (simp_all add: recoverable_def Serialize_def Deserialize_session Deserialize_term_rest [of _ "Data e"])

lemma Deserialize_Serialize_only:
  assumes "DeserializeLogEntry (Serialize e) = Inr e"
  shows "recoverable e"
proof (cases "ClientId e = []")
  case False
  then show ?thesis using Deserialize_client_bound [OF assms] by (simp add: recoverable_def)
next
  case True
  then have "SequenceNumber e = 0" using Deserialize_client_bound [OF assms] by simp
  moreover have "\<not> looks_like_session (Data e)"
  proof
    assume s: "looks_like_session (Data e)"
    with assms True \<open>SequenceNumber e = 0\<close>
    have "take (unat (Uint32 (Data e))) (drop 4 (Data e)) = []"
      by (cases e) (auto simp: Serialize_def Deserialize_term_rest)
    with s show False by (auto simp: looks_like_session_def word_less_nat_alt)
  qed
  ultimately show ?thesis using True by (simp add: recoverable_def)
qed

interpretation entry: codec recoverable Serialize DeserializeLogEntry
  by unfold_locales (rule Deserialize_Serialize)

section \<open>The checksummed format\<close>

lemma DeserializeWithCRC_payload:
  "8 \<le> length p \<Longrightarrow> DeserializeLogEntryWithCRC (p @ PutUint32 (ChecksumIEEE p)) = DeserializeLogEntry p"
  by (simp add: DeserializeLogEntryWithCRC_def Let_def)

lemma DeserializeWithCRC_split:
  "8 \<le> length p \<Longrightarrow> length c = 4 \<Longrightarrow>
     DeserializeLogEntryWithCRC (p @ c) =
       (if Uint32 c \<noteq> ChecksumIEEE p then Inl (EntryCRCMismatch (Uint32 c) (ChecksumIEEE p))
        else DeserializeLogEntry p)"
  by (simp add: DeserializeLogEntryWithCRC_def Let_def)

lemma Uint32_single_byte:
  assumes "Uint32 (xs @ a # ys) = Uint32 (xs @ b # ys)" and "length xs + length ys = 3"
  shows "a = b"
proof -
  have "xs @ a # ys = xs @ b # ys"
    using arg_cong [OF assms(1), of PutUint32] assms(2) by simp
  then show ?thesis by simp
qed

section \<open>Properties\<close>

text \<open>
  C26. Reading back a written entry gives the same entry exactly when the format can carry it:
  the entry has a client id of 1 to 1024 bytes, or it has neither client id nor sequence number
  and its data does not look like a session header.
\<close>

theorem entry_roundtrip_iff: "DeserializeLogEntry (Serialize e) = Inr e \<longleftrightarrow> recoverable e"
  by (blast intro: entry.dec_enc Deserialize_Serialize_only)

text \<open>
  Whatever an entry holds, its serialization can be read back and the term, on which every
  consistency check of the protocol relies, is the one that was written.
\<close>

lemma entry_term_survives:
  "\<exists>e'. DeserializeLogEntry (Serialize e) = Inr e' \<and> Term e' = Term e"
  by (rule Serialize_readable [of e]) blast

text \<open>
  The checksummed format detects the change of any one byte of a written record, in the
  payload or in the checksum itself: reading reports a checksum mismatch.
\<close>

lemma entry_crc_detects_byte_change:
  assumes "SerializeWithCRC e = xs @ a # ys" and "a \<noteq> b"
  shows "\<exists>expected actual.
           DeserializeLogEntryWithCRC (xs @ b # ys) = Inl (EntryCRCMismatch expected actual)"
proof -
  define p where "p = Serialize e"
  have eq: "p @ PutUint32 (ChecksumIEEE p) = xs @ a # ys"
    using assms(1) by (simp add: SerializeWithCRC_def Let_def p_def)
  have p8: "8 \<le> length p" by (simp add: p_def Serialize_length)
  consider (payload) us where "p = xs @ a # us" "ys = us @ PutUint32 (ChecksumIEEE p)"
    | (crc) us where "xs = p @ us" "PutUint32 (ChecksumIEEE p) = us @ a # ys"
    using eq by (auto simp: append_eq_append_conv2 Cons_eq_append_conv append_eq_Cons_conv)
  then show ?thesis
  proof cases
    case payload
    have "ChecksumIEEE p \<noteq> ChecksumIEEE (xs @ b # us)"
      using ChecksumIEEE_single_byte assms(2) payload(1) by blast
    then show ?thesis
      using DeserializeWithCRC_split [of "xs @ b # us" "PutUint32 (ChecksumIEEE p)"] p8
      by (simp add: payload)
  next
    case crc
    have len: "length us + length ys = 3"
      using arg_cong [OF crc(2), of length] by simp
    have "Uint32 (us @ b # ys) \<noteq> ChecksumIEEE p"
      using Uint32_single_byte [OF _ len, of a b] crc(2) assms(2) by (metis Uint_PutUint(1))
    then show ?thesis
      using DeserializeWithCRC_split [OF p8, of "us @ b # ys"] len by (simp add: crc)
  qed
qed

text \<open>
  A command submitted without a session is misread when its first four bytes, as a
  little-endian length, fit the rest: thirteen bytes of data come back as a client id and a
  sequence number, with no data left.
\<close>

lemma entry_data_taken_for_session:
  "DeserializeLogEntry
     (Serialize \<lparr>Data = [1, 0, 0, 0, 65, 9, 0, 0, 0, 0, 0, 0, 0], Term = 3, ClientId = [],
                 SequenceNumber = 0\<rparr>)
   = Inr \<lparr>Data = [], Term = 3, ClientId = [65], SequenceNumber = 9\<rparr>"
  by (simp add: Serialize_def Deserialize_term_rest looks_like_session_def Uint_eval)

end
