(* ===== verification/Go_Log.thy ===== *)
theory Go_Log
  imports Log_Entry
begin

text \<open>
  The write-ahead log of the module \<^verbatim>\<open>github.com/hirebarend/go-log\<close>, which is not part of the
  repository: its operations are the parameter \<open>golog\<close> of the definitions that use it, and what
  the code relies on is \<open>golog_laws\<close>. Then \<^verbatim>\<open>internal/log.go\<close>, the helpers over that log. The
  reference log \<open>mem_golog\<close> satisfies the laws.
\<close>

section \<open>The interface of the write-ahead log\<close>

text \<open>
  \<open>gl_GetLastIndex\<close> returns the index and whether there was no error. The operations whose result
  the code ignores return the new log only. \<open>gl_ReplaceSegments\<close> is the effect on the log's
  directory of removing every segment file and creating an empty one for a start index.
\<close>

record 'l golog =
  gl_GetLastIndex :: "'l \<Rightarrow> u64 \<times> bool"
  gl_Read :: "'l \<Rightarrow> u64 \<Rightarrow> bytes option"
  gl_Write :: "'l \<Rightarrow> bytes \<Rightarrow> u64 option \<times> 'l"
  gl_WriteCommit :: "'l \<Rightarrow> bytes \<Rightarrow> u64 option \<times> 'l"
  gl_Commit :: "'l \<Rightarrow> 'l"
  gl_TruncateFrom :: "'l \<Rightarrow> u64 \<Rightarrow> bool \<times> 'l"
  gl_TruncateTo :: "'l \<Rightarrow> u64 \<Rightarrow> 'l"
  gl_ReplaceSegments :: "'l \<Rightarrow> u64 \<Rightarrow> 'l"
  gl_Load :: "'l \<Rightarrow> 'l"

text \<open>
  What the code relies on, through a view of a log as the number of entries dropped at its start
  and the entries after them. A truncation at the start removes whole segments, so it may keep
  entries it was allowed to remove. The laws hold while indices fit in 63 bits.
\<close>

type_synonym logview = "nat \<times> bytes list"

definition last_of :: "logview \<Rightarrow> nat" where
  "last_of v = fst v + length (snd v)"

definition entry_of :: "logview \<Rightarrow> nat \<Rightarrow> bytes option" where
  "entry_of v i = (if fst v < i \<and> i \<le> last_of v then Some (snd v ! (i - fst v - 1)) else None)"

definition golog_laws :: "('l, 'z) golog_scheme \<Rightarrow> ('l \<Rightarrow> logview) \<Rightarrow> bool" where
  "golog_laws L view \<longleftrightarrow>
     (\<forall>l. last_of (view l) < 2 ^ 63 \<longrightarrow>
        gl_GetLastIndex L l = (word_of_nat (last_of (view l)), True)
        \<and> (\<forall>i. gl_Read L l i = entry_of (view l) (unat i))
        \<and> (\<forall>bs. case gl_Write L l bs of
                  (Some i, l') \<Rightarrow> i = word_of_nat (Suc (last_of (view l)))
                                 \<and> view l' = (fst (view l), snd (view l) @ [bs])
                | (None, l') \<Rightarrow> view l' = view l)
        \<and> (\<forall>bs. case gl_WriteCommit L l bs of
                  (Some i, l') \<Rightarrow> i = word_of_nat (Suc (last_of (view l)))
                                 \<and> view l' = (fst (view l), snd (view l) @ [bs])
                | (None, l') \<Rightarrow> view l' = view l)
        \<and> view (gl_Commit L l) = view l
        \<and> (\<forall>i. fst (view l) < unat i \<longrightarrow>
               (case gl_TruncateFrom L l i of
                  (True, l') \<Rightarrow> view l' = (fst (view l), take (unat i - fst (view l) - 1) (snd (view l)))
                | (False, l') \<Rightarrow> view l' = view l))
        \<and> (\<forall>i. \<exists>k. k \<le> length (snd (view l)) \<and> fst (view l) + k \<le> max (fst (view l)) (unat i)
               \<and> view (gl_TruncateTo L l i) = (fst (view l) + k, drop k (snd (view l))))
        \<and> (\<forall>i. 0 < i \<longrightarrow>
               view (gl_Load L (gl_ReplaceSegments L (snd (gl_TruncateFrom L l 1)) i)) = (unat i - 1, [])))"

section \<open>Helpers over the log\<close>

definition GetLastLogEntryIndexAndTerm :: "('l, 'z) golog_scheme \<Rightarrow> 'l \<Rightarrow> u64 \<times> u64" where
  "GetLastLogEntryIndexAndTerm L l =
     (case gl_GetLastIndex L l of (lastLogEntryIndex, ok) \<Rightarrow>
        if \<not> ok then (0, 0)
        else if lastLogEntryIndex = 0 then (0, 0)
        else case gl_Read L l lastLogEntryIndex of
               None \<Rightarrow> (0, 0)
             | Some bs \<Rightarrow> (case DeserializeLogEntry bs of
                            Inl e \<Rightarrow> (0, 0)
                          | Inr lastLogEntry \<Rightarrow> (lastLogEntryIndex, Term lastLogEntry)))"

text \<open>The downward loop of \<open>GetLastLogEntryIndexOfTerm\<close>, from index \<open>n\<close>.\<close>

primrec last_of_term_loop :: "('l, 'z) golog_scheme \<Rightarrow> 'l \<Rightarrow> u64 \<Rightarrow> nat \<Rightarrow> u64" where
  "last_of_term_loop L l term 0 = 0"
| "last_of_term_loop L l term (Suc n) =
     (let i = word_of_nat (Suc n) in
      case gl_Read L l i of
        None \<Rightarrow> 0
      | Some bs \<Rightarrow> (case DeserializeLogEntry bs of
                     Inl e \<Rightarrow> 0
                   | Inr logEntry \<Rightarrow>
                       if Term logEntry = term then i
                       else if Term logEntry < term then 0
                       else last_of_term_loop L l term n))"

definition GetLastLogEntryIndexOfTerm :: "('l, 'z) golog_scheme \<Rightarrow> 'l \<Rightarrow> u64 \<Rightarrow> u64" where
  "GetLastLogEntryIndexOfTerm L l term =
     (if term = 0 then 0
      else case gl_GetLastIndex L l of (lastLogEntryIndex, ok) \<Rightarrow>
             if \<not> ok \<or> lastLogEntryIndex = 0 then 0
             else last_of_term_loop L l term (unat lastLogEntryIndex))"

definition IsEqualOrMoreRecent :: "('l, 'z) golog_scheme \<Rightarrow> 'l \<Rightarrow> u64 \<Rightarrow> u64 \<Rightarrow> bool" where
  "IsEqualOrMoreRecent L l index term =
     (case GetLastLogEntryIndexAndTerm L l of (myIndex, myTerm) \<Rightarrow>
        term > myTerm \<or> (term = myTerm \<and> index \<ge> myIndex))"

definition LogEntryMatchesTermAtIndex :: "('l, 'z) golog_scheme \<Rightarrow> 'l \<Rightarrow> u64 \<Rightarrow> u64 \<Rightarrow> bool" where
  "LogEntryMatchesTermAtIndex L l index term =
     (if index = 0 then True
      else case gl_Read L l index of
             None \<Rightarrow> False
           | Some bs \<Rightarrow> (case DeserializeLogEntry bs of
                          Inl e \<Rightarrow> False
                        | Inr prevLogEntry \<Rightarrow> Term prevLogEntry = term))"

section \<open>A reference log\<close>

definition mem_golog :: "logview golog" where
  "mem_golog =
     \<lparr>gl_GetLastIndex = (\<lambda>l. (word_of_nat (last_of l), True)),
      gl_Read = (\<lambda>l i. entry_of l (unat i)),
      gl_Write = (\<lambda>l bs. (Some (word_of_nat (Suc (last_of l))), (fst l, snd l @ [bs]))),
      gl_WriteCommit = (\<lambda>l bs. (Some (word_of_nat (Suc (last_of l))), (fst l, snd l @ [bs]))),
      gl_Commit = (\<lambda>l. l),
      gl_TruncateFrom = (\<lambda>l i. (True, (fst l, take (unat i - fst l - 1) (snd l)))),
      gl_TruncateTo = (\<lambda>l i. (let k = min (length (snd l)) (unat i - fst l) in (fst l + k, drop k (snd l)))),
      gl_ReplaceSegments = (\<lambda>l i. (unat i - 1, [])),
      gl_Load = (\<lambda>l. l)\<rparr>"

lemma mem_golog_laws: "golog_laws mem_golog (\<lambda>l. l)"
proof -
  have "\<exists>k. k \<le> length (snd l) \<and> fst l + k \<le> max (fst l) (unat i)
          \<and> (let k = min (length (snd l)) (unat i - fst l) in (fst l + k, drop k (snd l)))
              = (fst l + k, drop k (snd l))" for l :: logview and i :: u64
    by (rule exI [of _ "min (length (snd l)) (unat i - fst l)"]) (auto simp: Let_def)
  then show ?thesis
    unfolding golog_laws_def mem_golog_def by simp
qed

section \<open>Reading the log through its view\<close>

text \<open>\<open>term_at v i\<close>: the term of the entry at an index of a view.\<close>

definition term_at :: "logview \<Rightarrow> nat \<Rightarrow> u64 option" where
  "term_at v i =
     (case entry_of v i of
        None \<Rightarrow> None
      | Some bs \<Rightarrow> (case DeserializeLogEntry bs of Inl e \<Rightarrow> None | Inr e \<Rightarrow> Some (Term e)))"

text \<open>The entries of a well-formed view can all be read, and terms do not decrease.\<close>

definition view_ok :: "logview \<Rightarrow> bool" where
  "view_ok v \<longleftrightarrow> last_of v < 2 ^ 63 \<and> (\<forall>bs\<in>set (snd v). 8 \<le> length bs)"

definition terms_sorted :: "logview \<Rightarrow> bool" where
  "terms_sorted v \<longleftrightarrow>
     (\<forall>i j s t. i \<le> j \<longrightarrow> term_at v i = Some s \<longrightarrow> term_at v j = Some t \<longrightarrow> s \<le> t)"

lemma unat_index [simp]: "n < 2 ^ 63 \<Longrightarrow> unat (word_of_nat n :: u64) = n"
  by (simp add: unat_of_nat take_bit_nat_eq_self)

lemma term_at_Some:
  assumes "view_ok v" and "fst v < i" "i \<le> last_of v"
  obtains bs e where "entry_of v i = Some bs" "DeserializeLogEntry bs = Inr e" "term_at v i = Some (Term e)"
proof -
  have "i - fst v - 1 < length (snd v)" using assms by (auto simp: last_of_def)
  then have "8 \<le> length (snd v ! (i - fst v - 1))" using assms(1) by (auto simp: view_ok_def)
  then obtain e where "DeserializeLogEntry (snd v ! (i - fst v - 1)) = Inr e"
    using Deserialize_ok_iff by blast
  then show ?thesis using assms that by (simp add: entry_of_def term_at_def)
qed

lemma term_at_None: "\<not> (fst v < i \<and> i \<le> last_of v) \<Longrightarrow> term_at v i = None"
  by (auto simp: term_at_def entry_of_def)

lemma term_at_domain: "term_at v i = Some t \<Longrightarrow> fst v < i \<and> i \<le> last_of v"
  by (auto simp: term_at_def entry_of_def split: if_splits)

lemma golog_reads:
  assumes "golog_laws L view" and "view_ok (view l)"
  shows "gl_GetLastIndex L l = (word_of_nat (last_of (view l)), True)"
    and "gl_Read L l i = entry_of (view l) (unat i)"
  using assms unfolding golog_laws_def view_ok_def by blast+

lemma last_of_term_loop_correct:
  assumes "golog_laws L view" and "view_ok (view l)" and "terms_sorted (view l)"
    and "n \<le> last_of (view l)"
  shows "(last_of_term_loop L l t n = 0 \<and> (\<forall>i\<le>n. term_at (view l) i \<noteq> Some t))
       \<or> (\<exists>i. 0 < i \<and> i \<le> n \<and> last_of_term_loop L l t n = word_of_nat i
              \<and> term_at (view l) i = Some t \<and> (\<forall>j. i < j \<longrightarrow> j \<le> n \<longrightarrow> term_at (view l) j \<noteq> Some t))"
  using assms(4)
proof (induction n)
  case 0
  then show ?case using term_at_None [of "view l" 0] by simp
next
  case (Suc n)
  have small: "Suc n < 2 ^ 63" using Suc.prems assms(2) by (simp add: view_ok_def)
  note rd = golog_reads(2) [OF assms(1,2), of "word_of_nat (Suc n)", unfolded unat_index [OF small]]
  show ?case
  proof (cases "fst (view l) < Suc n")
    case False
    then have "entry_of (view l) (Suc n) = None" by (simp add: entry_of_def)
    moreover have "term_at (view l) i \<noteq> Some t" if "i \<le> Suc n" for i
      using that False term_at_domain [of "view l" i t] by auto
    ultimately show ?thesis by (simp add: rd del: of_nat_Suc)
  next
    case True
    obtain bs e where e: "entry_of (view l) (Suc n) = Some bs" "DeserializeLogEntry bs = Inr e"
      "term_at (view l) (Suc n) = Some (Term e)"
      by (rule term_at_Some [OF assms(2) True Suc.prems])
    consider "Term e = t" | "Term e < t" | "t < Term e" by (rule linorder_cases)
    then show ?thesis
    proof cases
      case 1
      with e rd show ?thesis by (auto simp del: of_nat_Suc)
    next
      case 2
      then have "term_at (view l) i \<noteq> Some t" if "i \<le> Suc n" for i
        using assms(3) that e(3) unfolding terms_sorted_def by (metis leD)
      with 2 e rd show ?thesis by (auto simp del: of_nat_Suc)
    next
      case 3
      then have ne: "Term e \<noteq> t" "\<not> Term e < t" by auto
      have "last_of_term_loop L l t (Suc n) = last_of_term_loop L l t n"
        using e rd ne by (simp del: of_nat_Suc)
      moreover have "term_at (view l) (Suc n) \<noteq> Some t" using e ne by simp
      ultimately show ?thesis
        using Suc.IH Suc.prems by (metis Suc_leD le_SucE le_SucI)
    qed
  qed
qed

section \<open>Properties\<close>

text \<open>
  C28. The search for the last entry of a term, which stops early at a smaller term, finds the
  greatest index that holds the term in a log whose terms do not decrease, and returns 0 exactly
  when no readable entry holds it, also after the start of the log was compacted.
\<close>

theorem last_index_of_term_correct:
  assumes "golog_laws L view" and "view_ok (view l)" and "terms_sorted (view l)" and "t \<noteq> 0"
  shows "(GetLastLogEntryIndexOfTerm L l t = 0 \<and> (\<forall>i. term_at (view l) i \<noteq> Some t))
       \<or> (\<exists>i. 0 < i \<and> GetLastLogEntryIndexOfTerm L l t = word_of_nat i
              \<and> term_at (view l) i = Some t \<and> (\<forall>j>i. term_at (view l) j \<noteq> Some t))"
proof -
  have small: "last_of (view l) < 2 ^ 63" using assms(2) by (simp add: view_ok_def)
  have none: "term_at (view l) j \<noteq> Some t" if "last_of (view l) < j" for j
    using that by (simp add: term_at_None)
  show ?thesis
  proof (cases "last_of (view l) = 0")
    case True
    then have "term_at (view l) i = None" for i by (auto intro: term_at_None)
    then show ?thesis
      using True golog_reads(1) [OF assms(1,2)] by (simp add: GetLastLogEntryIndexOfTerm_def)
  next
    case False
    then have "(word_of_nat (last_of (view l)) :: u64) \<noteq> 0"
      using unat_index [OF small] by (metis unat_0)
    then have "GetLastLogEntryIndexOfTerm L l t = last_of_term_loop L l t (last_of (view l))"
      using assms(4) small golog_reads(1) [OF assms(1,2)]
      by (simp add: GetLastLogEntryIndexOfTerm_def)
    then show ?thesis
      using last_of_term_loop_correct [OF assms(1-3) order_refl, of t] none
      by (metis not_le_imp_less)
  qed
qed

text \<open>A log of three entries of terms 1, 2 and 2, for the witnesses.\<close>

definition sample_entry :: "u64 \<Rightarrow> bytes \<Rightarrow> LogEntry" where
  "sample_entry t d = \<lparr>Data = d, Term = t, ClientId = [], SequenceNumber = 0\<rparr>"

definition sample_log :: logview where
  "sample_log = (0, map Serialize [sample_entry 1 [7], sample_entry 2 [8], sample_entry 2 [9]])"

lemma sample_log_terms:
  "term_at sample_log i = (if i = 1 then Some 1 else if i = 2 \<or> i = 3 then Some 2 else None)"
proof -
  have d: "DeserializeLogEntry (Serialize (sample_entry t [b])) = Inr (sample_entry t [b])" for t b
    by (simp add: entry.dec_enc recoverable_def sample_entry_def looks_like_session_def)
  have "i = 0 \<or> i = 1 \<or> i = 2 \<or> i = 3 \<or> 3 < i" by auto
  then show ?thesis
    by (elim disjE) (simp_all add: term_at_def entry_of_def last_of_def sample_log_def d,
        simp_all add: sample_entry_def)
qed

lemma sample_log_ok: "view_ok sample_log" "terms_sorted sample_log"
proof -
  show "view_ok sample_log" by (simp add: view_ok_def last_of_def sample_log_def Serialize_length)
  show "terms_sorted sample_log"
    by (auto simp: terms_sorted_def sample_log_terms split: if_splits)
qed

theorem last_index_of_term_correct_witness:
  "(GetLastLogEntryIndexOfTerm mem_golog sample_log 2 = 0 \<and> (\<forall>i. term_at sample_log i \<noteq> Some 2))
   \<or> (\<exists>i. 0 < i \<and> GetLastLogEntryIndexOfTerm mem_golog sample_log 2 = word_of_nat i
          \<and> term_at sample_log i = Some 2 \<and> (\<forall>j>i. term_at sample_log j \<noteq> Some 2))"
  by (rule last_index_of_term_correct [OF mem_golog_laws]) (simp_all add: sample_log_ok)

end
