(* ===== verification/Session.thy ===== *)
theory Session
  imports Prelude
begin

text \<open>
  \<^verbatim>\<open>internal/session.go\<close>: the table that remembers, per client, the last applied sequence number
  and its result, with the byte reader its decoder uses. Every method holds the table's lock, so
  each is one step. The lemmas give the deduplication contract (interface \<open>dedup_table\<close>) and the
  round trip of the binary format.
\<close>

section \<open>Data and operations\<close>

record SessionEntry =
  SeqNumber :: u64
  Result :: any

type_synonym SessionTable = "gostring \<rightharpoonup> SessionEntry"

definition NewSessionTable :: SessionTable where
  "NewSessionTable = Map.empty"

definition IsDuplicate :: "SessionTable \<Rightarrow> gostring \<Rightarrow> u64 \<Rightarrow> bool \<times> any" where
  "IsDuplicate st clientId sequenceNumber =
     (if clientId = [] then (False, AnyNil)
      else case st clientId of
             None \<Rightarrow> (False, AnyNil)
           | Some entry \<Rightarrow>
               if sequenceNumber \<le> SeqNumber entry then (True, Result entry) else (False, AnyNil))"

definition Record :: "SessionTable \<Rightarrow> gostring \<Rightarrow> u64 \<Rightarrow> any \<Rightarrow> SessionTable" where
  "Record st clientId sequenceNumber result =
     (if clientId = [] then st
      else if (case st clientId of None \<Rightarrow> True | Some entry \<Rightarrow> sequenceNumber > SeqNumber entry)
           then st(clientId \<mapsto> \<lparr>SeqNumber = sequenceNumber, Result = result\<rparr>)
           else st)"

text \<open>
  Go visits a map in an unspecified order. \<open>order\<close> is the order of one run: the clients of the
  table, each once.
\<close>

definition Serialize_entry :: "SessionTable \<Rightarrow> gostring \<Rightarrow> bytes" where
  "Serialize_entry st clientId =
     PutUint32 (word_of_nat (length clientId)) @ clientId
       @ PutUint64 (case st clientId of Some entry \<Rightarrow> SeqNumber entry | None \<Rightarrow> 0)"

definition Serialize_sessions :: "gostring list \<Rightarrow> SessionTable \<Rightarrow> bytes" where
  "Serialize_sessions order st =
     PutUint32 (word_of_nat (length order)) @ concat (map (Serialize_entry st) order)"

record byteReader =
  rd_data :: bytes
  rd_offset :: nat

datatype session_error =
    SessionsTooShort nat
  | UnexpectedEOF
  | ReadClientIdLen nat
  | ReadClientId nat
  | ReadSeqNum nat

definition newByteReader :: "bytes \<Rightarrow> byteReader" where
  "newByteReader d = \<lparr>rd_data = d, rd_offset = 0\<rparr>"

definition readUint32 :: "byteReader \<Rightarrow> byteReader \<times> u32 option" where
  "readUint32 r =
     (if rd_offset r + 4 > length (rd_data r) then (r, None)
      else (r\<lparr>rd_offset := rd_offset r + 4\<rparr>, Some (Uint32 (drop (rd_offset r) (rd_data r)))))"

definition readUint64 :: "byteReader \<Rightarrow> byteReader \<times> u64 option" where
  "readUint64 r =
     (if rd_offset r + 8 > length (rd_data r) then (r, None)
      else (r\<lparr>rd_offset := rd_offset r + 8\<rparr>, Some (Uint64 (drop (rd_offset r) (rd_data r)))))"

definition readBytes :: "byteReader \<Rightarrow> nat \<Rightarrow> byteReader \<times> bytes option" where
  "readBytes r n =
     (if rd_offset r + n > length (rd_data r) then (r, None)
      else (r\<lparr>rd_offset := rd_offset r + n\<rparr>, Some (take n (drop (rd_offset r) (rd_data r)))))"

text \<open>
  The loop of \<open>Deserialize\<close>: \<open>todo\<close> entries are left and \<open>i\<close> have been read. The table is filled
  in place, so an error leaves the entries read so far.
\<close>

primrec Deserialize_entries ::
  "nat \<Rightarrow> nat \<Rightarrow> byteReader \<Rightarrow> SessionTable \<Rightarrow> SessionTable \<times> session_error option" where
  "Deserialize_entries 0 i r st = (st, None)"
| "Deserialize_entries (Suc todo) i r st =
     (case readUint32 r of
        (r1, None) \<Rightarrow> (st, Some (ReadClientIdLen i))
      | (r1, Some cidLen) \<Rightarrow>
          (case readBytes r1 (unat cidLen) of
             (r2, None) \<Rightarrow> (st, Some (ReadClientId i))
           | (r2, Some cid) \<Rightarrow>
               (case readUint64 r2 of
                  (r3, None) \<Rightarrow> (st, Some (ReadSeqNum i))
                | (r3, Some seqNum) \<Rightarrow>
                    Deserialize_entries todo (Suc i) r3
                      (st(cid \<mapsto> \<lparr>SeqNumber = seqNum, Result = AnyNil\<rparr>)))))"

definition Deserialize_sessions ::
  "SessionTable \<Rightarrow> bytes \<Rightarrow> SessionTable \<times> session_error option" where
  "Deserialize_sessions st d =
     (if length d < 4 then (st, Some (SessionsTooShort (length d)))
      else case readUint32 (newByteReader d) of
             (r, None) \<Rightarrow> (st, Some UnexpectedEOF)
           | (r, Some count) \<Rightarrow> Deserialize_entries (unat count) 0 r Map.empty)"

section \<open>Specification\<close>

text \<open>
  The contract of a deduplication table: what a query returns after a record, that a record is
  final for smaller sequence numbers, and that other clients are not affected.
\<close>

locale dedup_table =
  fixes dup :: "'t \<Rightarrow> gostring \<Rightarrow> u64 \<Rightarrow> bool \<times> any"
    and rec :: "'t \<Rightarrow> gostring \<Rightarrow> u64 \<Rightarrow> any \<Rightarrow> 't"
  assumes dup_anonymous: "fst (dup t [] s) = False"
    and dup_rec_same: "c \<noteq> [] \<Longrightarrow> s' \<le> s \<Longrightarrow> fst (dup (rec t c s x) c s')"
    and dup_rec_result: "c \<noteq> [] \<Longrightarrow> \<not> fst (dup t c s) \<Longrightarrow> s' \<le> s \<Longrightarrow> snd (dup (rec t c s x) c s') = x"
    and dup_rec_later: "c \<noteq> [] \<Longrightarrow> \<not> fst (dup t c s) \<Longrightarrow> s < s' \<Longrightarrow> \<not> fst (dup (rec t c s x) c s')"
    and dup_rec_other: "c \<noteq> c' \<Longrightarrow> dup (rec t c s x) c' s' = dup t c' s'"
    and dup_rec_keeps: "fst (dup t c s) \<Longrightarrow> fst (dup (rec t c' s' x) c s)"
begin

lemma dup_after_records:
  "fst (dup t c s) \<Longrightarrow> fst (dup (foldl (\<lambda>t (c, s, x). rec t c s x) t ops) c s)"
  by (induction ops arbitrary: t) (auto simp: dup_rec_keeps)

end

section \<open>Deduplication\<close>

lemma dup_Record_other: "c \<noteq> c' \<Longrightarrow> IsDuplicate (Record st c s x) c' s' = IsDuplicate st c' s'"
  by (simp add: Record_def IsDuplicate_def split: option.splits)

lemma dup_Record_keeps: "fst (IsDuplicate st c s) \<Longrightarrow> fst (IsDuplicate (Record st c' s' x) c s)"
  by (cases "c = c'") (auto simp: Record_def IsDuplicate_def split: option.splits if_splits)

interpretation sessions: dedup_table IsDuplicate Record
proof unfold_locales
  show "fst (IsDuplicate t [] s) = False" for t s
    by (simp add: IsDuplicate_def)
  show "fst (IsDuplicate (Record t c s x) c s')" if "c \<noteq> []" "s' \<le> s" for t c s s' x
    using that by (auto simp: Record_def IsDuplicate_def split: option.splits)
  show "snd (IsDuplicate (Record t c s x) c s') = x"
    if "c \<noteq> []" "\<not> fst (IsDuplicate t c s)" "s' \<le> s" for t c s s' x
    using that by (auto simp: Record_def IsDuplicate_def split: option.splits if_splits)
  show "\<not> fst (IsDuplicate (Record t c s x) c s')"
    if "c \<noteq> []" "\<not> fst (IsDuplicate t c s)" "s < s'" for t c s s' x
    using that by (auto simp: Record_def IsDuplicate_def split: option.splits if_splits)
qed (simp_all add: dup_Record_other dup_Record_keeps)

section \<open>The byte reader\<close>

text \<open>\<open>delivers r bs\<close>: what the reader has still to deliver.\<close>

definition delivers :: "byteReader \<Rightarrow> bytes \<Rightarrow> bool" where
  "delivers r bs \<longleftrightarrow> rd_offset r \<le> length (rd_data r) \<and> drop (rd_offset r) (rd_data r) = bs"

lemma delivers_new: "delivers (newByteReader d) d"
  by (simp add: delivers_def newByteReader_def)

lemma delivers_advance:
  assumes "delivers r (xs @ bs)"
  shows "rd_offset r + length xs \<le> length (rd_data r)"
    and "delivers (r\<lparr>rd_offset := rd_offset r + length xs\<rparr>) bs"
proof -
  have "length (rd_data r) - rd_offset r = length xs + length bs"
    using assms by (metis delivers_def length_append length_drop)
  moreover have "rd_offset r \<le> length (rd_data r)"
    using assms by (simp add: delivers_def)
  ultimately show "rd_offset r + length xs \<le> length (rd_data r)"
    by linarith
  then show "delivers (r\<lparr>rd_offset := rd_offset r + length xs\<rparr>) bs"
    using assms by (simp add: delivers_def add.commute [of "rd_offset r"] flip: drop_drop)
qed

lemma readUint32_delivers:
  assumes "delivers r (PutUint32 v @ bs)"
  obtains r' where "readUint32 r = (r', Some v)" "delivers r' bs"
  using delivers_advance [OF assms] assms by (auto simp: readUint32_def delivers_def not_less)

lemma readUint64_delivers:
  assumes "delivers r (PutUint64 v @ bs)"
  obtains r' where "readUint64 r = (r', Some v)" "delivers r' bs"
  using delivers_advance [OF assms] assms by (auto simp: readUint64_def delivers_def not_less)

lemma readBytes_delivers:
  assumes "delivers r (c @ bs)"
  obtains r' where "readBytes r (length c) = (r', Some c)" "delivers r' bs"
  using delivers_advance [OF assms] assms by (auto simp: readBytes_def delivers_def not_less)

section \<open>Round trip of the table\<close>

text \<open>\<open>seq_only e\<close>: what the format keeps of an entry, which is all but the result.\<close>

definition seq_only :: "SessionEntry \<Rightarrow> SessionEntry" where
  "seq_only e = \<lparr>SeqNumber = SeqNumber e, Result = AnyNil\<rparr>"

lemma Deserialize_entries_order:
  assumes "\<forall>c\<in>set order. length c < 2 ^ 32 \<and> c \<in> dom st"
    and "delivers r (concat (map (Serialize_entry st) order))"
  shows "Deserialize_entries (length order) i r acc =
           (acc ++ (\<lambda>c. if c \<in> set order then map_option seq_only (st c) else None), None)"
  using assms
proof (induction order arbitrary: i r acc)
  case Nil
  then show ?case by (simp add: map_add_def)
next
  case (Cons c order)
  obtain e where e: "st c = Some e" using Cons.prems(1) by auto
  define bs where "bs = concat (map (Serialize_entry st) order)"
  have "delivers r (PutUint32 (word_of_nat (length c)) @ c @ PutUint64 (SeqNumber e) @ bs)"
    using Cons.prems(2) by (simp add: Serialize_entry_def [of st c] e bs_def)
  then obtain r1 where r1: "readUint32 r = (r1, Some (word_of_nat (length c)))"
    and d1: "delivers r1 (c @ PutUint64 (SeqNumber e) @ bs)"
    by (rule readUint32_delivers)
  obtain r2 where r2: "readBytes r1 (length c) = (r2, Some c)"
    and d2: "delivers r2 (PutUint64 (SeqNumber e) @ bs)"
    by (rule readBytes_delivers [OF d1])
  obtain r3 where r3: "readUint64 r2 = (r3, Some (SeqNumber e))" and d3: "delivers r3 bs"
    by (rule readUint64_delivers [OF d2])
  have len: "unat (word_of_nat (length c) :: u32) = length c"
    using Cons.prems(1) by (simp add: unat_of_nat take_bit_nat_eq_self)
  have "Deserialize_entries (length (c # order)) i r acc
          = Deserialize_entries (length order) (Suc i) r3 (acc(c \<mapsto> seq_only e))"
    by (simp add: r1 r2 r3 len seq_only_def)
  also have "\<dots> = (acc(c \<mapsto> seq_only e) ++
      (\<lambda>d. if d \<in> set order then map_option seq_only (st d) else None), None)"
    using Cons.prems(1) d3 by (intro Cons.IH) (auto simp: bs_def)
  also have "acc(c \<mapsto> seq_only e) ++
      (\<lambda>d. if d \<in> set order then map_option seq_only (st d) else None)
    = acc ++ (\<lambda>d. if d \<in> set (c # order) then map_option seq_only (st d) else None)"
    by (auto simp: map_add_def e fun_eq_iff split: option.splits)
  finally show ?case .
qed

section \<open>Properties\<close>

text \<open>
  C27. A restored session table recognises as duplicates exactly the requests the saved table
  recognised, in whatever order the map was written: every client comes back with its sequence
  number. Only the cached results are gone. The table must have fewer than 2^32 clients with ids
  shorter than 2^32 bytes, since both counts are written as 32-bit integers.
\<close>

theorem sessions_roundtrip:
  assumes "set order = dom st" and "length order < 2 ^ 32"
    and "\<forall>c\<in>dom st. length c < 2 ^ 32"
  shows "Deserialize_sessions old (Serialize_sessions order st) = (\<lambda>c. map_option seq_only (st c), None)"
proof -
  have cnt: "unat (word_of_nat (length order) :: u32) = length order"
    using assms(2) by (simp add: unat_of_nat take_bit_nat_eq_self)
  have "delivers (newByteReader (Serialize_sessions order st))
          (PutUint32 (word_of_nat (length order)) @ concat (map (Serialize_entry st) order))"
    using delivers_new by (metis Serialize_sessions_def)
  then obtain r where r: "readUint32 (newByteReader (Serialize_sessions order st))
                       = (r, Some (word_of_nat (length order)))"
    and d: "delivers r (concat (map (Serialize_entry st) order))"
    by (rule readUint32_delivers)
  have "Deserialize_entries (length order) 0 r Map.empty
      = (Map.empty ++ (\<lambda>c. if c \<in> set order then map_option seq_only (st c) else None), None)"
    using assms d by (intro Deserialize_entries_order) auto
  also have "Map.empty ++ (\<lambda>c. if c \<in> set order then map_option seq_only (st c) else None)
      = (\<lambda>c. map_option seq_only (st c))"
    using assms(1) by (auto simp: fun_eq_iff domIff)
  finally show ?thesis
    using r by (simp add: Deserialize_sessions_def cnt) (simp add: Serialize_sessions_def)
qed

theorem sessions_roundtrip_witness:
  "Deserialize_sessions Map.empty
     (Serialize_sessions [[1], [2]]
        [[1] \<mapsto> \<lparr>SeqNumber = 5, Result = AnyBool True\<rparr>, [2] \<mapsto> \<lparr>SeqNumber = 7, Result = AnyNil\<rparr>])
   = (\<lambda>c. map_option seq_only
        ([[1] \<mapsto> \<lparr>SeqNumber = 5, Result = AnyBool True\<rparr>, [2] \<mapsto> \<lparr>SeqNumber = 7, Result = AnyNil\<rparr>] c), None)"
  by (rule sessions_roundtrip) auto

end
