(* ===== verification/Disk.thy ===== *)
theory Disk
  imports Prelude
begin

text \<open>
  The file operations of package \<^verbatim>\<open>os\<close> that \<^verbatim>\<open>internal/store.go\<close> and \<^verbatim>\<open>internal/snapshot.go\<close>
  use. Every operation may fail: \<open>faults\<close> fixes the outcome of each operation in turn, a failed
  write leaving a prefix of its bytes. A power loss keeps the content of a file only if it was
  synced, and may bring back the directory as it was before a change that was not followed by a
  successful sync of the directory. The interface \<open>replace_file\<close> is the write-sync-rename
  pattern that both files follow; its lemmas say what a reader finds after a success, after an
  error and after a power loss at any point.
\<close>

section \<open>State and operations\<close>

record inode =
  content :: bytes
  synced :: bool

abbreviation synced_file :: "bytes \<Rightarrow> inode" where
  "synced_file bs \<equiv> \<lparr>content = bs, synced = True\<rparr>"

type_synonym dir = "gostring \<rightharpoonup> inode"

record disk =
  files :: dir
  stale :: "dir list"
  faults :: "nat \<Rightarrow> nat option"
  ios :: nat

definition io :: "disk \<Rightarrow> nat option \<times> disk" where
  "io d = (faults d (ios d), d\<lparr>ios := Suc (ios d)\<rparr>)"

definition set_files :: "dir \<Rightarrow> disk \<Rightarrow> disk" where
  "set_files fs d = d\<lparr>files := fs\<rparr>"

definition change_dir :: "dir \<Rightarrow> disk \<Rightarrow> disk" where
  "change_dir fs d = d\<lparr>files := fs, stale := files d # stale d\<rparr>"

definition content_of :: "dir \<Rightarrow> gostring \<Rightarrow> bytes" where
  "content_of fs nm = (case fs nm of Some f \<Rightarrow> content f | None \<Rightarrow> [])"

definition os_plain :: "disk \<Rightarrow> bool \<times> disk" where
  "os_plain d = (case io d of (e, d') \<Rightarrow> (e = None, d'))"

definition os_OpenTrunc :: "gostring \<Rightarrow> disk \<Rightarrow> bool \<times> disk" where
  "os_OpenTrunc nm d =
     (case io d of
        (None, d') \<Rightarrow> (True, change_dir ((files d')(nm \<mapsto> \<lparr>content = [], synced = False\<rparr>)) d')
      | (Some _, d') \<Rightarrow> (False, d'))"

definition os_Write :: "gostring \<Rightarrow> bytes \<Rightarrow> disk \<Rightarrow> bool \<times> disk" where
  "os_Write nm bs d =
     (case io d of
        (e, d') \<Rightarrow>
          let bs' = (case e of None \<Rightarrow> bs | Some k \<Rightarrow> take k bs)
          in (e = None, set_files ((files d')(nm \<mapsto>
                \<lparr>content = content_of (files d') nm @ bs', synced = False\<rparr>)) d'))"

definition os_Sync :: "gostring \<Rightarrow> disk \<Rightarrow> bool \<times> disk" where
  "os_Sync nm d =
     (case io d of
        (None, d') \<Rightarrow> (True, set_files ((files d')(nm \<mapsto>
                        \<lparr>content = content_of (files d') nm, synced = True\<rparr>)) d')
      | (Some _, d') \<Rightarrow> (False, d'))"

definition os_Rename :: "gostring \<Rightarrow> gostring \<Rightarrow> disk \<Rightarrow> bool \<times> disk" where
  "os_Rename old new d =
     (case io d of
        (None, d') \<Rightarrow> (True, change_dir ((files d')(new := files d' old, old := None)) d')
      | (Some _, d') \<Rightarrow> (False, d'))"

text \<open>\<open>os.Open\<close> of the directory, its \<open>Sync\<close> and its \<open>Close\<close>, all errors ignored.\<close>

definition os_SyncDir :: "disk \<Rightarrow> disk" where
  "os_SyncDir d =
     (case io d of
        (Some _, d1) \<Rightarrow> d1
      | (None, d1) \<Rightarrow>
          (case io d1 of (e, d2) \<Rightarrow>
             snd (io (if e = None then d2\<lparr>stale := []\<rparr> else d2))))"

text \<open>A sequence of operations, each with the error its failure is reported as.\<close>

primrec run_steps :: "((disk \<Rightarrow> bool \<times> disk) \<times> 'e) list \<Rightarrow> disk \<Rightarrow> 'e option \<times> disk" where
  "run_steps [] d = (None, d)"
| "run_steps (st # sts) d =
     (case fst st d of (True, d') \<Rightarrow> run_steps sts d' | (False, d') \<Rightarrow> (Some (snd st), d'))"

text \<open>
  The write-sync-rename pattern: create the directory, truncate the temporary file, write each
  part, sync, close and rename.
\<close>

definition replace_steps ::
  "gostring \<Rightarrow> gostring \<Rightarrow> 'e \<Rightarrow> 'e \<Rightarrow> (bytes \<times> 'e) list \<Rightarrow> 'e \<Rightarrow> 'e \<Rightarrow> 'e
     \<Rightarrow> ((disk \<Rightarrow> bool \<times> disk) \<times> 'e) list" where
  "replace_steps nm tmp e_mkdir e_open parts e_sync e_close e_rename =
     [(os_plain, e_mkdir), (os_OpenTrunc tmp, e_open)]
       @ map (\<lambda>(bs, e). (os_Write tmp bs, e)) parts
       @ [(os_Sync tmp, e_sync), (os_plain, e_close), (os_Rename tmp nm, e_rename)]"

text \<open>Reading: an open file is the bytes not yet delivered.\<close>

datatype read_error = NotExist | IOError | EOF

definition os_Open :: "gostring \<Rightarrow> disk \<Rightarrow> (read_error + bytes) \<times> disk" where
  "os_Open nm d =
     (case files d nm of
        None \<Rightarrow> (Inl NotExist, snd (io d))
      | Some f \<Rightarrow> (case io d of (None, d') \<Rightarrow> (Inr (content f), d') | (Some _, d') \<Rightarrow> (Inl IOError, d')))"

definition io_ReadFull :: "nat \<Rightarrow> bytes \<Rightarrow> disk \<Rightarrow> (read_error + bytes \<times> bytes) \<times> disk" where
  "io_ReadFull n f d =
     (case io d of
        (Some _, d') \<Rightarrow> (Inl IOError, d')
      | (None, d') \<Rightarrow> (if length f < n then Inl EOF else Inr (take n f, drop n f), d'))"

section \<open>Power loss\<close>

definition dirs :: "disk \<Rightarrow> dir set" where
  "dirs d = insert (files d) (set (stale d))"

definition survives :: "dir \<Rightarrow> (gostring \<rightharpoonup> bytes) \<Rightarrow> bool" where
  "survives fs F \<longleftrightarrow>
     (\<forall>nm. case fs nm of
             None \<Rightarrow> F nm = None
           | Some f \<Rightarrow> F nm \<noteq> None \<and> (synced f \<longrightarrow> F nm = Some (content f)))"

definition power_loss :: "disk \<Rightarrow> (gostring \<rightharpoonup> bytes) \<Rightarrow> bool" where
  "power_loss d F \<longleftrightarrow> (\<exists>fs\<in>dirs d. survives fs F)"

text \<open>The disk a restart finds: what survived, all of it durable.\<close>

definition restarted :: "(gostring \<rightharpoonup> bytes) \<Rightarrow> (nat \<Rightarrow> nat option) \<Rightarrow> disk" where
  "restarted F fts =
     \<lparr>files = (\<lambda>nm. map_option (\<lambda>bs. \<lparr>content = bs, synced = True\<rparr>) (F nm)), stale = [],
      faults = fts, ios = 0\<rparr>"

definition durable :: "disk \<Rightarrow> gostring \<Rightarrow> inode option set \<Rightarrow> bool" where
  "durable d nm vs \<longleftrightarrow> (\<forall>fs\<in>dirs d. fs nm \<in> vs)"

text \<open>No operation from here on fails.\<close>

definition fault_free :: "disk \<Rightarrow> bool" where
  "fault_free d \<longleftrightarrow> (\<forall>n\<ge>ios d. faults d n = None)"

text \<open>A disk without faults that holds one file.\<close>

definition disk_with :: "gostring \<Rightarrow> bytes \<Rightarrow> disk" where
  "disk_with nm bs = \<lparr>files = [nm \<mapsto> synced_file bs], stale = [], faults = (\<lambda>_. None), ios = 0\<rparr>"

section \<open>Lemmas on single operations\<close>

lemma io_simps [simp]:
  "files (snd (io d)) = files d" "stale (snd (io d)) = stale d" "faults (snd (io d)) = faults d"
  "ios (snd (io d)) = Suc (ios d)" "fst (io d) = faults d (ios d)"
  by (simp_all add: io_def)

lemma files_set_change [simp]:
  "files (set_files fs d) = fs" "stale (set_files fs d) = stale d"
  "faults (set_files fs d) = faults d" "ios (set_files fs d) = ios d"
  "files (change_dir fs d) = fs" "stale (change_dir fs d) = files d # stale d"
  "faults (change_dir fs d) = faults d" "ios (change_dir fs d) = ios d"
  by (simp_all add: set_files_def change_dir_def)

lemma durable_set: "durable (set_files fs d) nm vs \<longleftrightarrow> fs nm \<in> vs \<and> (\<forall>fs\<in>set (stale d). fs nm \<in> vs)"
  by (simp add: durable_def dirs_def)

lemma durable_change: "durable (change_dir fs d) nm vs \<longleftrightarrow> fs nm \<in> vs \<and> durable d nm vs"
  by (simp add: durable_def dirs_def)

lemma durable_ios: "durable (d\<lparr>ios := n\<rparr>) nm vs \<longleftrightarrow> durable d nm vs"
  by (simp add: durable_def dirs_def)

lemmas durable_simps [disk_simps] = durable_set durable_change durable_ios

lemma durable_mono: "durable d nm vs \<Longrightarrow> vs \<subseteq> ws \<Longrightarrow> durable d nm ws"
  by (auto simp: durable_def)

lemma durable_files: "durable d nm vs \<Longrightarrow> files d nm \<in> vs"
  by (simp add: durable_def dirs_def)

text \<open>\<open>keeps nm f\<close>: operation \<open>f\<close> leaves what every directory says of \<open>nm\<close>.\<close>

definition keeps :: "gostring \<Rightarrow> (disk \<Rightarrow> bool \<times> disk) \<Rightarrow> bool" where
  "keeps nm f \<longleftrightarrow>
     (\<forall>d. files (snd (f d)) nm = files d nm
        \<and> (\<forall>vs. durable d nm vs \<longrightarrow> durable (snd (f d)) nm vs))"

lemma keepsI:
  assumes "\<And>d. files (snd (f d)) nm = files d nm"
    and "\<And>d fs. fs \<in> dirs (snd (f d)) \<Longrightarrow> \<exists>gs\<in>dirs d. fs nm = gs nm"
  shows "keeps nm f"
  unfolding keeps_def durable_def using assms by metis

lemma keeps_plain: "keeps nm os_plain"
  by (rule keepsI) (auto simp: os_plain_def io_def dirs_def)

lemma keeps_other:
  assumes "nm \<noteq> tmp"
  shows "keeps nm (os_OpenTrunc tmp)" "keeps nm (os_Write tmp bs)" "keeps nm (os_Sync tmp)"
  by (rule keepsI; use assms in \<open>auto simp: os_OpenTrunc_def os_Write_def os_Sync_def io_def
        dirs_def Let_def split: option.splits\<close>)+

lemma keeps_Rename: "nm \<noteq> old \<Longrightarrow> nm \<noteq> new \<Longrightarrow> keeps nm (os_Rename old new)"
  by (rule keepsI) (auto simp: os_Rename_def io_def dirs_def split: option.splits)

lemma run_steps_append:
  "run_steps (xs @ ys) d =
     (case run_steps xs d of (None, d') \<Rightarrow> run_steps ys d' | (Some e, d') \<Rightarrow> (Some e, d'))"
  by (induction xs arbitrary: d) (auto split: prod.splits bool.splits)

lemma run_steps_keeps:
  "\<forall>st\<in>set sts. keeps nm (fst st) \<Longrightarrow>
     files (snd (run_steps sts d)) nm = files d nm
     \<and> (durable d nm vs \<longrightarrow> durable (snd (run_steps sts d)) nm vs)"
proof (induction sts arbitrary: d)
  case (Cons st sts)
  obtain ok d' where d': "fst st d = (ok, d')" by fastforce
  have "files d' nm = files d nm \<and> (durable d nm vs \<longrightarrow> durable d' nm vs)"
    using Cons.prems d' by (metis keeps_def list.set_intros(1) snd_conv)
  with Cons.IH [of d'] Cons.prems d' show ?case
    by (cases ok) auto
qed simp

lemma run_writes:
  assumes "run_steps (map (\<lambda>(bs, e). (os_Write tmp bs, e)) parts) d = (None, d')"
    and "files d tmp \<noteq> None"
  shows "files d' tmp \<noteq> None \<and> content_of (files d') tmp = content_of (files d) tmp @ concat (map fst parts)"
  using assms
proof (induction parts arbitrary: d)
  case (Cons part parts)
  obtain bs e where part: "part = (bs, e)" by fastforce
  obtain d1 where d1: "os_Write tmp bs d = (True, d1)"
    and run: "run_steps (map (\<lambda>(bs, e). (os_Write tmp bs, e)) parts) d1 = (None, d')"
    using Cons.prems(1) by (auto simp: part split: prod.splits bool.splits)
  have "files d1 tmp \<noteq> None \<and> content_of (files d1) tmp = content_of (files d) tmp @ bs"
    using d1 by (auto simp: os_Write_def io_def content_of_def Let_def split: option.splits)
  with Cons.IH [OF run] show ?case by (simp add: part)
qed simp

section \<open>Replacing a file\<close>

definition tmp_suffix :: gostring where
  "tmp_suffix = [46, 116, 109, 112]"

lemma replace_prefix_keeps:
  assumes "nm \<noteq> tmp" and "k < length (replace_steps nm tmp e1 e2 parts e3 e4 e5)"
  shows "\<forall>st\<in>set (take k (replace_steps nm tmp e1 e2 parts e3 e4 e5)). keeps nm (fst st)"
proof -
  define init where "init = [(os_plain, e1), (os_OpenTrunc tmp, e2)]
       @ map (\<lambda>(bs, e). (os_Write tmp bs, e)) parts @ [(os_Sync tmp, e3), (os_plain, e4)]"
  have split: "replace_steps nm tmp e1 e2 parts e3 e4 e5 = init @ [(os_Rename tmp nm, e5)]"
    by (simp add: replace_steps_def init_def)
  have "\<forall>st\<in>set init. keeps nm (fst st)"
    using assms(1) by (auto simp: init_def keeps_plain keeps_other)
  moreover have "take k (init @ [(os_Rename tmp nm, e5)]) = take k init"
    using assms(2) by (simp add: split)
  ultimately show ?thesis by (metis split in_set_takeD)
qed

lemma replace_before_rename:
  assumes "run_steps ([(os_plain, e1), (os_OpenTrunc tmp, e2)]
       @ map (\<lambda>(bs, e). (os_Write tmp bs, e)) parts @ [(os_Sync tmp, e3), (os_plain, e4)]) d
     = (None, d')"
  shows "files d' tmp = Some (synced_file (concat (map fst parts)))"
proof -
  obtain d1 d2 d3 where
    d1: "os_OpenTrunc tmp (snd (os_plain d)) = (True, d1)"
    and d2: "run_steps (map (\<lambda>(bs, e). (os_Write tmp bs, e)) parts) d1 = (None, d2)"
    and d3: "os_Sync tmp d2 = (True, d3)" and d': "os_plain d3 = (True, d')"
    using assms by (auto simp: run_steps_append split: prod.splits bool.splits option.splits)
  have "files d1 tmp \<noteq> None \<and> content_of (files d1) tmp = []"
    using d1 by (auto simp: os_OpenTrunc_def io_def content_of_def split: option.splits)
  with run_writes [OF d2] have "content_of (files d2) tmp = concat (map fst parts)" by simp
  with d3 have "files d3 tmp = Some (synced_file (concat (map fst parts)))"
    by (auto simp: os_Sync_def io_def split: option.splits)
  with d' show ?thesis by (auto simp: os_plain_def io_def)
qed

lemma Rename_effect:
  assumes "os_Rename tmp nm d = (True, d')" and "nm \<noteq> tmp"
  shows "files d' nm = files d tmp" and "durable d nm vs \<Longrightarrow> durable d' nm (insert (files d tmp) vs)"
  using assms by (auto simp: os_Rename_def io_def durable_def dirs_def split: option.splits)

lemma Rename_fails: "os_Rename tmp nm d = (False, d') \<Longrightarrow> d' = d\<lparr>ios := Suc (ios d)\<rparr>"
  by (auto simp: os_Rename_def io_def split: option.splits)

text \<open>
  The interface: \<open>steps nm v\<close> replaces file \<open>nm\<close> by the encoding of \<open>v\<close> through a temporary file.
\<close>

locale replace_file =
  fixes steps :: "gostring \<Rightarrow> 'v \<Rightarrow> ((disk \<Rightarrow> bool \<times> disk) \<times> 'e) list"
    and image :: "'v \<Rightarrow> bytes"
  assumes pattern: "\<exists>e1 e2 parts e3 e4 e5.
      steps nm v = replace_steps nm (nm @ tmp_suffix) e1 e2 parts e3 e4 e5
      \<and> concat (map fst parts) = image v"
begin

lemma nm_not_tmp: "nm \<noteq> nm @ tmp_suffix"
  by (simp add: tmp_suffix_def)

lemma replace_ok:
  assumes "run_steps (steps nm v) d = (None, d')"
  shows "files d' nm = Some (synced_file (image v))"
    and "durable d nm vs \<Longrightarrow> durable d' nm (insert (Some (synced_file (image v))) vs)"
proof -
  obtain e1 e2 parts e3 e4 e5 where
    st: "steps nm v = replace_steps nm (nm @ tmp_suffix) e1 e2 parts e3 e4 e5"
    and img: "concat (map fst parts) = image v"
    using pattern by blast
  define init where "init = [(os_plain, e1), (os_OpenTrunc (nm @ tmp_suffix), e2)]
       @ map (\<lambda>(bs, e). (os_Write (nm @ tmp_suffix) bs, e)) parts
       @ [(os_Sync (nm @ tmp_suffix), e3), (os_plain, e4)]"
  have steps: "steps nm v = init @ [(os_Rename (nm @ tmp_suffix) nm, e5)]"
    by (simp add: st replace_steps_def init_def)
  have keep: "\<forall>st\<in>set init. keeps nm (fst st)"
    using nm_not_tmp by (auto simp: init_def keeps_plain keeps_other)
  obtain d1 where d1: "run_steps init d = (None, d1)"
    and rn: "os_Rename (nm @ tmp_suffix) nm d1 = (True, d')"
    using assms by (auto simp: steps run_steps_append split: prod.splits option.splits bool.splits)
  have tmp: "files d1 (nm @ tmp_suffix) = Some (synced_file (image v))"
    using replace_before_rename [OF d1 [unfolded init_def]] img by simp
  show "files d' nm = Some (synced_file (image v))"
    using Rename_effect(1) [OF rn nm_not_tmp] tmp by simp
  show "durable d' nm (insert (Some (synced_file (image v))) vs)" if "durable d nm vs"
    using Rename_effect(2) [OF rn nm_not_tmp, of vs] run_steps_keeps [OF keep, of d vs] that d1 tmp
    by simp
qed

lemma replace_prefix:
  assumes "k < length (steps nm v)"
  shows "files (snd (run_steps (take k (steps nm v)) d)) nm = files d nm"
    and "durable d nm vs \<Longrightarrow> durable (snd (run_steps (take k (steps nm v)) d)) nm vs"
proof -
  obtain e1 e2 parts e3 e4 e5 where
    st: "steps nm v = replace_steps nm (nm @ tmp_suffix) e1 e2 parts e3 e4 e5"
    using pattern by blast
  note keep = replace_prefix_keeps [OF nm_not_tmp assms [unfolded st], folded st]
  show "files (snd (run_steps (take k (steps nm v)) d)) nm = files d nm"
    and "durable d nm vs \<Longrightarrow> durable (snd (run_steps (take k (steps nm v)) d)) nm vs"
    using run_steps_keeps [OF keep] by blast+
qed

lemma replace_error:
  assumes "run_steps (steps nm v) d = (Some e, d')"
  shows "files d' nm = files d nm" and "durable d nm vs \<Longrightarrow> durable d' nm vs"
proof -
  obtain init e5 where steps: "steps nm v = init @ [(os_Rename (nm @ tmp_suffix) nm, e5)]"
    using pattern [of nm v] by (auto simp: replace_steps_def)
  have init: "init = take (length init) (steps nm v)" by (simp add: steps)
  have pre: "files (snd (run_steps init d)) nm = files d nm"
    "durable d nm vs \<Longrightarrow> durable (snd (run_steps init d)) nm vs"
    using replace_prefix [of "length init" nm v d] by (simp_all add: steps)
  have "files d' nm = files (snd (run_steps init d)) nm
      \<and> (durable (snd (run_steps init d)) nm vs \<longrightarrow> durable d' nm vs)"
    using assms by (auto simp: steps run_steps_append durable_ios dest!: Rename_fails
        split: prod.splits option.splits bool.splits)
  with pre show "files d' nm = files d nm" and "durable d nm vs \<Longrightarrow> durable d' nm vs" by auto
qed

lemma replace_other:
  assumes "q \<noteq> nm" and "q \<noteq> nm @ tmp_suffix"
  shows "files (snd (run_steps (steps nm v) d)) q = files d q"
proof -
  obtain e1 e2 parts e3 e4 e5 where
    "steps nm v = replace_steps nm (nm @ tmp_suffix) e1 e2 parts e3 e4 e5"
    using pattern by blast
  then have "\<forall>st\<in>set (steps nm v). keeps q (fst st)"
    using assms by (auto simp: replace_steps_def keeps_plain keeps_other keeps_Rename)
  then show ?thesis using run_steps_keeps by blast
qed

lemma replace_crash:
  assumes "durable d nm vs"
  shows "durable (snd (run_steps (take k (steps nm v)) d)) nm (insert (Some (synced_file (image v))) vs)"
proof (cases "k < length (steps nm v)")
  case True
  show ?thesis
    using replace_prefix(2) [OF True assms] by (rule durable_mono) blast
next
  case False
  obtain e d' where run: "run_steps (steps nm v) d = (e, d')" by fastforce
  have "durable d' nm (insert (Some (synced_file (image v))) vs)"
  proof (cases e)
    case None
    with run assms show ?thesis by (simp add: replace_ok(2))
  next
    case (Some x)
    with run assms have "durable d' nm vs" by (simp add: replace_error(2))
    then show ?thesis by (rule durable_mono) blast
  qed
  with False run show ?thesis by simp
qed

lemma replace_power_loss:
  assumes "durable d nm {Some (synced_file old)}"
    and "power_loss (snd (run_steps (take k (steps nm v)) d)) F"
  shows "F nm = Some old \<or> F nm = Some (image v)"
proof -
  obtain fs where fs: "fs \<in> dirs (snd (run_steps (take k (steps nm v)) d))" "survives fs F"
    using assms(2) by (auto simp: power_loss_def)
  have "fs nm \<in> {Some (synced_file (image v)), Some (synced_file old)}"
    using replace_crash [OF assms(1), of k v] fs(1) by (simp add: durable_def)
  with fs(2) show ?thesis by (auto simp: survives_def split: option.splits dest!: spec [of _ nm])
qed

end

lemma SyncDir_effect:
  "files (os_SyncDir d) = files d"
  "durable d nm vs \<Longrightarrow> durable (os_SyncDir d) nm vs"
  "faults d (ios d) = None \<Longrightarrow> faults d (Suc (ios d)) = None \<Longrightarrow>
     durable (os_SyncDir d) nm {files d nm}"
  by (auto simp: os_SyncDir_def io_def durable_def dirs_def split: option.splits)

section \<open>Reading and power loss\<close>

lemma fault_free_io: "fault_free d \<Longrightarrow> faults d (ios d) = None" "fault_free d \<Longrightarrow> fault_free (snd (io d))"
  by (simp_all add: fault_free_def)

lemma ReadFull_ok:
  "fault_free d \<Longrightarrow> length xs = n \<Longrightarrow>
     io_ReadFull n (xs @ ys) d = (Inr (xs, ys), snd (io d)) \<and> fault_free (snd (io d))"
  by (simp add: io_ReadFull_def fault_free_io split: prod.splits) (simp add: io_def fault_free_io)

lemma Open_ok:
  "fault_free d \<Longrightarrow> files d nm = Some f \<Longrightarrow>
     os_Open nm d = (Inr (content f), snd (io d)) \<and> fault_free (snd (io d))"
  by (simp add: os_Open_def fault_free_io split: prod.splits) (simp add: io_def fault_free_io)

lemma read_keeps_files:
  "files (snd (os_Open nm d)) = files d" "files (snd (io_ReadFull n f d)) = files d"
  "files (snd (os_plain d)) = files d"
  by (auto simp: os_Open_def io_ReadFull_def os_plain_def io_def split: option.splits)

lemma disk_with_durable: "durable (disk_with nm bs) nm {Some (synced_file bs)}"
  by (simp add: durable_def dirs_def disk_with_def)

lemma survives_contents: "survives fs (\<lambda>nm. map_option content (fs nm))"
  by (auto simp: survives_def split: option.splits)

lemma power_loss_current: "power_loss d (\<lambda>nm. map_option content (files d nm))"
  using survives_contents by (auto simp: power_loss_def dirs_def)

end
