(* ===== verification/Store.thy ===== *)
theory Store
  imports Disk
begin

text \<open>
  \<^verbatim>\<open>internal/store.go\<close>: the persistent term and vote with the volatile indices. Every method holds
  the store's lock, so each is one step on the store and the disk. A setter that cannot persist
  puts the old value back and reports the error. The lemmas say when memory and disk agree, that
  a reader after a restart finds the last persisted pair, and that a power loss at any point of a
  write leaves the old or the new pair.
\<close>

section \<open>Data and operations\<close>

record store =
  commitIndex :: u64
  currentTerm :: u64
  lastApplied :: u64
  leaderId :: gostring
  storeName :: gostring
  votedFor :: gostring

datatype store_error =
    StoreMkdir | StoreOpenTmp | StoreWriteTerm | StoreWriteVotedForLen | StoreWriteVotedFor
  | StoreFsync | StoreClose | StoreRename
  | StoreOpen read_error | StoreReadTerm read_error | StoreReadVotedForLen read_error
  | StoreVotedForTooLarge u32 | StoreReadVotedFor read_error

definition store_write_steps ::
  "gostring \<Rightarrow> u64 \<times> gostring \<Rightarrow> ((disk \<Rightarrow> bool \<times> disk) \<times> store_error) list" where
  "store_write_steps nm tv =
     (let tempName = nm @ tmp_suffix; (term, voted) = tv in
      [(os_plain, StoreMkdir),
       (os_OpenTrunc tempName, StoreOpenTmp),
       (os_Write tempName (PutUint64 term), StoreWriteTerm),
       (os_Write tempName (PutUint32 (word_of_nat (length voted))), StoreWriteVotedForLen),
       (os_Write tempName voted, StoreWriteVotedFor),
       (os_Sync tempName, StoreFsync),
       (os_plain, StoreClose),
       (os_Rename tempName nm, StoreRename)])"

definition store_write :: "store \<Rightarrow> disk \<Rightarrow> store_error option \<times> disk" where
  "store_write s d =
     (case run_steps (store_write_steps (storeName s) (currentTerm s, votedFor s)) d of
        (Some e, d') \<Rightarrow> (Some e, d')
      | (None, d') \<Rightarrow> (None, os_SyncDir d'))"

definition store_read :: "store \<Rightarrow> disk \<Rightarrow> store_error option \<times> store \<times> disk" where
  "store_read s d =
     (case os_Open (storeName s) d of
        (Inl e, d1) \<Rightarrow> (Some (StoreOpen e), s, d1)
      | (Inr f, d1) \<Rightarrow>
      (case io_ReadFull 8 f d1 of
        (Inl e, d2) \<Rightarrow> (Some (StoreReadTerm e), s, d2)
      | (Inr (tbs, f2), d2) \<Rightarrow>
      (case io_ReadFull 4 f2 d2 of
        (Inl e, d3) \<Rightarrow> (Some (StoreReadVotedForLen e), s, d3)
      | (Inr (nbs, f3), d3) \<Rightarrow>
          let n = Uint32 nbs in
          if n > 10 * 2 ^ 20 then (Some (StoreVotedForTooLarge n), s, d3)
          else
      (case io_ReadFull (unat n) f3 d3 of
        (Inl e, d4) \<Rightarrow> (Some (StoreReadVotedFor e), s, d4)
      | (Inr (vbs, f4), d4) \<Rightarrow>
          (None, s\<lparr>currentTerm := Uint64 tbs, votedFor := vbs\<rparr>, d4)))))"

definition NewStore :: "gostring \<Rightarrow> disk \<Rightarrow> (store_error + store) \<times> disk" where
  "NewStore nm d =
     (let s = \<lparr>commitIndex = 0, currentTerm = 0, lastApplied = 0, leaderId = [],
               storeName = nm, votedFor = []\<rparr> in
      case store_read s d of
        (None, s', d') \<Rightarrow> (Inr s', d')
      | (Some (StoreOpen NotExist), s', d') \<Rightarrow> (Inr s', d')
      | (Some e, s', d') \<Rightarrow> (Inl e, d'))"

definition IncrementCurrentTerm :: "store \<Rightarrow> disk \<Rightarrow> (u64 \<times> store_error option) \<times> store \<times> disk" where
  "IncrementCurrentTerm s d =
     (let s1 = s\<lparr>currentTerm := currentTerm s + 1\<rparr> in
      case store_write s1 d of
        (Some e, d') \<Rightarrow> (let s2 = s1\<lparr>currentTerm := currentTerm s1 - 1\<rparr>
                         in ((currentTerm s2, Some e), s2, d'))
      | (None, d') \<Rightarrow> ((currentTerm s1, None), s1, d'))"

definition SetCurrentTerm :: "u64 \<Rightarrow> store \<Rightarrow> disk \<Rightarrow> (u64 \<times> store_error option) \<times> store \<times> disk" where
  "SetCurrentTerm v s d =
     (let prev = currentTerm s; s1 = s\<lparr>currentTerm := v\<rparr> in
      case store_write s1 d of
        (Some e, d') \<Rightarrow> (let s2 = s1\<lparr>currentTerm := prev\<rparr> in ((currentTerm s2, Some e), s2, d'))
      | (None, d') \<Rightarrow> ((currentTerm s1, None), s1, d'))"

definition SetLeaderId :: "gostring \<Rightarrow> store \<Rightarrow> store" where
  "SetLeaderId l s = s\<lparr>leaderId := l\<rparr>"

definition SetVotedFor :: "gostring \<Rightarrow> store \<Rightarrow> disk \<Rightarrow> store_error option \<times> store \<times> disk" where
  "SetVotedFor v s d =
     (let prev = votedFor s; s1 = s\<lparr>votedFor := v\<rparr> in
      case store_write s1 d of
        (Some e, d') \<Rightarrow> (Some e, s1\<lparr>votedFor := prev\<rparr>, d')
      | (None, d') \<Rightarrow> (None, s1, d'))"

definition SetCurrentTermAndVotedFor ::
  "u64 \<Rightarrow> gostring \<Rightarrow> store \<Rightarrow> disk \<Rightarrow> store_error option \<times> store \<times> disk" where
  "SetCurrentTermAndVotedFor term v s d =
     (let prevTerm = currentTerm s; prevVotedFor = votedFor s;
          s1 = s\<lparr>currentTerm := term, votedFor := v\<rparr> in
      case store_write s1 d of
        (Some e, d') \<Rightarrow> (Some e, s1\<lparr>currentTerm := prevTerm, votedFor := prevVotedFor\<rparr>, d')
      | (None, d') \<Rightarrow> (None, s1, d'))"

section \<open>Specification\<close>

text \<open>The bytes of the file for a term and a vote, and when memory and disk agree.\<close>

definition store_image :: "u64 \<times> gostring \<Rightarrow> bytes" where
  "store_image tv = PutUint64 (fst tv) @ PutUint32 (word_of_nat (length (snd tv))) @ snd tv"

definition persisted :: "store \<Rightarrow> disk \<Rightarrow> bool" where
  "persisted s d \<longleftrightarrow>
     files d (storeName s) = Some (synced_file (store_image (currentTerm s, votedFor s)))"

text \<open>The votes a store can hold and read back: at most ten mebibytes.\<close>

definition vote_ok :: "gostring \<Rightarrow> bool" where
  "vote_ok v \<longleftrightarrow> length v \<le> 10 * 2 ^ 20"

section \<open>Writing\<close>

interpretation store_file: replace_file store_write_steps store_image
proof unfold_locales
  fix nm and tv :: "u64 \<times> gostring"
  let ?parts = "[(PutUint64 (fst tv), StoreWriteTerm),
      (PutUint32 (word_of_nat (length (snd tv))), StoreWriteVotedForLen), (snd tv, StoreWriteVotedFor)]"
  have "store_write_steps nm tv = replace_steps nm (nm @ tmp_suffix) StoreMkdir StoreOpenTmp
      ?parts StoreFsync StoreClose StoreRename"
    by (simp add: store_write_steps_def replace_steps_def Let_def split: prod.splits)
  moreover have "concat (map fst ?parts) = store_image tv" by (simp add: store_image_def)
  ultimately show "\<exists>e1 e2 parts e3 e4 e5.
      store_write_steps nm tv = replace_steps nm (nm @ tmp_suffix) e1 e2 parts e3 e4 e5
      \<and> concat (map fst parts) = store_image tv"
    by blast
qed

lemma store_write_ok:
  assumes "store_write s d = (None, d')"
  shows "persisted s d'"
  using assms by (auto simp: store_write_def persisted_def SyncDir_effect(1)
      dest: store_file.replace_ok(1) split: prod.splits option.splits)

lemma store_write_error:
  assumes "store_write s d = (Some e, d')"
  shows "files d' (storeName s) = files d (storeName s)"
  using assms by (auto simp: store_write_def dest: store_file.replace_error(1)
      split: prod.splits option.splits)

lemma persisted_irrelevant [simp]:
  "persisted (s\<lparr>commitIndex := i\<rparr>) d = persisted s d"
  "persisted (s\<lparr>lastApplied := i\<rparr>) d = persisted s d"
  "persisted (s\<lparr>leaderId := l\<rparr>) d = persisted s d"
  by (simp_all add: persisted_def)

lemma SetCurrentTermAndVotedFor_cases:
  assumes "SetCurrentTermAndVotedFor t v s d = (err, s', d')"
  obtains (ok) "err = None" "s' = s\<lparr>currentTerm := t, votedFor := v\<rparr>" "persisted s' d'"
    | (error) e where "err = Some e" "s' = s" "files d' (storeName s) = files d (storeName s)"
  using assms
  by (auto simp: SetCurrentTermAndVotedFor_def Let_def dest: store_write_ok store_write_error
      split: prod.splits option.splits)

lemma SetVotedFor_cases:
  assumes "SetVotedFor v s d = (err, s', d')"
  obtains (ok) "err = None" "s' = s\<lparr>votedFor := v\<rparr>" "persisted s' d'"
    | (error) e where "err = Some e" "s' = s" "files d' (storeName s) = files d (storeName s)"
  using assms
  by (auto simp: SetVotedFor_def Let_def dest: store_write_ok store_write_error
      split: prod.splits option.splits)

lemma SetCurrentTerm_cases:
  assumes "SetCurrentTerm t s d = ((r, err), s', d')"
  obtains (ok) "err = None" "r = t" "s' = s\<lparr>currentTerm := t\<rparr>" "persisted s' d'"
    | (error) e where "err = Some e" "r = currentTerm s" "s' = s"
        "files d' (storeName s) = files d (storeName s)"
proof (cases "store_write (s\<lparr>currentTerm := t\<rparr>) d")
  case (Pair e d1)
  show ?thesis
  proof (cases e)
    case None
    with Pair assms have "err = None" "r = t" "s' = s\<lparr>currentTerm := t\<rparr>" "d' = d1"
      by (auto simp: SetCurrentTerm_def Let_def)
    with Pair None show ?thesis by (intro ok) (simp_all add: store_write_ok)
  next
    case (Some x)
    with Pair assms have "err = Some x" "r = currentTerm s" "s' = s" "d' = d1"
      by (auto simp: SetCurrentTerm_def Let_def)
    with Pair Some show ?thesis using store_write_error [of "s\<lparr>currentTerm := t\<rparr>"] by (intro error) simp_all
  qed
qed

lemma IncrementCurrentTerm_cases:
  assumes "IncrementCurrentTerm s d = ((r, err), s', d')"
  obtains (ok) "err = None" "r = currentTerm s + 1" "s' = s\<lparr>currentTerm := currentTerm s + 1\<rparr>"
      "persisted s' d'"
    | (error) e where "err = Some e" "r = currentTerm s" "s' = s"
        "files d' (storeName s) = files d (storeName s)"
proof (cases "store_write (s\<lparr>currentTerm := currentTerm s + 1\<rparr>) d")
  case (Pair e d1)
  show ?thesis
  proof (cases e)
    case None
    with Pair assms have "err = None" "r = currentTerm s + 1"
      "s' = s\<lparr>currentTerm := currentTerm s + 1\<rparr>" "d' = d1"
      by (auto simp: IncrementCurrentTerm_def Let_def)
    with Pair None show ?thesis by (intro ok) (simp_all add: store_write_ok)
  next
    case (Some x)
    with Pair assms have "err = Some x" "r = currentTerm s" "s' = s" "d' = d1"
      by (auto simp: IncrementCurrentTerm_def Let_def)
    with Pair Some show ?thesis
      using store_write_error [of "s\<lparr>currentTerm := currentTerm s + 1\<rparr>"] by (intro error) simp_all
  qed
qed

section \<open>Reading\<close>

lemma vote_ok_unat: "vote_ok v \<Longrightarrow> unat (word_of_nat (length v) :: u32) = length v"
  by (simp add: vote_ok_def unat_of_nat take_bit_nat_eq_self)

lemma vote_ok_le: "vote_ok v \<Longrightarrow> \<not> (10 * 2 ^ 20 :: u32) < word_of_nat (length v)"
  by (simp add: word_less_nat_alt vote_ok_unat vote_ok_def not_less)

lemma store_read_image:
  assumes "fault_free d" and "files d (storeName s) = Some f"
    and "content f = store_image (t, v)" and "vote_ok v"
  shows "\<exists>d'. store_read s d = (None, s\<lparr>currentTerm := t, votedFor := v\<rparr>, d')"
proof -
  define d1 where "d1 = snd (io d)"
  define d2 where "d2 = snd (io d1)"
  define d3 where "d3 = snd (io d2)"
  have o: "os_Open (storeName s) d
      = (Inr (PutUint64 t @ PutUint32 (word_of_nat (length v)) @ v), d1)" "fault_free d1"
    using Open_ok [OF assms(1,2)] assms(3) by (simp_all add: d1_def store_image_def)
  have r1: "io_ReadFull 8 (PutUint64 t @ PutUint32 (word_of_nat (length v)) @ v) d1
      = (Inr (PutUint64 t, PutUint32 (word_of_nat (length v)) @ v), d2)" "fault_free d2"
    using ReadFull_ok [OF o(2), of "PutUint64 t" 8] by (simp_all add: d2_def)
  have r2: "io_ReadFull 4 (PutUint32 (word_of_nat (length v)) @ v) d2
      = (Inr (PutUint32 (word_of_nat (length v)), v), d3)" "fault_free d3"
    using ReadFull_ok [OF r1(2), of "PutUint32 (word_of_nat (length v))" 4] by (simp_all add: d3_def)
  have r3: "io_ReadFull (length v) v d3 = (Inr (v, []), snd (io d3))"
    using ReadFull_ok [OF r2(2), of v "length v" "[]"] by simp
  show ?thesis
    using vote_ok_le [OF assms(4)] vote_ok_unat [OF assms(4)]
    by (simp add: store_read_def o r1 r2 r3 Let_def)
qed

text \<open>What a successful start reads, whatever operations fail.\<close>

lemma ReadFull_Inr:
  "io_ReadFull n f d = (Inr y, d') \<Longrightarrow> y = (take n f, drop n f) \<and> files d' = files d"
  by (auto simp: io_ReadFull_def io_def split: option.splits if_splits)

lemma Open_cases:
  "os_Open nm d = (Inr c, d') \<Longrightarrow> (\<exists>f. files d nm = Some f \<and> c = content f) \<and> files d' = files d"
  "os_Open nm d = (Inl NotExist, d') \<Longrightarrow> files d nm = None \<and> files d' = files d"
  by (auto simp: os_Open_def io_def split: option.splits)

lemma store_read_ok:
  assumes "store_read s d = (None, s', d')"
  obtains f where "files d (storeName s) = Some f" "files d' = files d"
    "s' = s\<lparr>currentTerm := Uint64 (take 8 (content f)),
            votedFor := take (unat (Uint32 (take 4 (drop 8 (content f))))) (drop 12 (content f))\<rparr>"
  using assms
  by (auto simp: store_read_def Let_def dest!: ReadFull_Inr Open_cases(1)
      split: prod.splits sum.splits if_splits)

lemma NewStore_reads:
  assumes "NewStore nm d = (Inr s, d')"
  shows "files d' = files d" "storeName s = nm"
    and "files d nm = None \<Longrightarrow> currentTerm s = 0 \<and> votedFor s = []"
    and "files d nm = Some f \<Longrightarrow> content f = store_image (t, v) \<Longrightarrow> vote_ok v \<Longrightarrow>
           currentTerm s = t \<and> votedFor s = v"
proof -
  let ?s0 = "\<lparr>commitIndex = 0, currentTerm = 0, lastApplied = 0, leaderId = [], storeName = nm, votedFor = []\<rparr>"
  have "store_read ?s0 d = (None, s, d') \<or> (store_read ?s0 d = (Some (StoreOpen NotExist), s, d'))"
    using assms by (auto simp: NewStore_def split: prod.splits option.splits store_error.splits read_error.splits)
  moreover have "files d nm = None \<and> files d' = files d \<and> s = ?s0"
    if "store_read ?s0 d = (Some (StoreOpen NotExist), s, d')"
    using that by (auto simp: store_read_def Let_def dest: Open_cases(2) split: prod.splits sum.splits if_splits)
  ultimately consider (none) "files d nm = None" "files d' = files d" "s = ?s0"
    | (some) g where "files d nm = Some g" "files d' = files d"
        "s = ?s0\<lparr>currentTerm := Uint64 (take 8 (content g)),
            votedFor := take (unat (Uint32 (take 4 (drop 8 (content g))))) (drop 12 (content g))\<rparr>"
    by (metis store_read_ok store.select_convs(5))
  then show "files d' = files d" "storeName s = nm"
    and "files d nm = None \<Longrightarrow> currentTerm s = 0 \<and> votedFor s = []"
    and "files d nm = Some f \<Longrightarrow> content f = store_image (t, v) \<Longrightarrow> vote_ok v \<Longrightarrow>
           currentTerm s = t \<and> votedFor s = v"
    by (cases; auto simp: store_image_def vote_ok_unat)+
qed

lemma NewStore_image:
  assumes "fault_free d" and "files d nm = Some f"
    and "content f = store_image (t, v)" and "vote_ok v"
  shows "fst (NewStore nm d) = Inr \<lparr>commitIndex = 0, currentTerm = t, lastApplied = 0, leaderId = [],
           storeName = nm, votedFor = v\<rparr>"
proof -
  obtain d' where "store_read \<lparr>commitIndex = 0, currentTerm = 0, lastApplied = 0, leaderId = [],
         storeName = nm, votedFor = []\<rparr> d
     = (None, \<lparr>commitIndex = 0, currentTerm = t, lastApplied = 0, leaderId = [],
         storeName = nm, votedFor = v\<rparr>, d')"
    using store_read_image [of d "\<lparr>commitIndex = 0, currentTerm = 0, lastApplied = 0, leaderId = [],
         storeName = nm, votedFor = []\<rparr>" f t v] assms by auto
  then show ?thesis by (simp add: NewStore_def Let_def)
qed

lemma NewStore_restarted:
  assumes "F nm = Some (store_image (t, v))" and "vote_ok v"
  shows "fst (NewStore nm (restarted F (\<lambda>_. None))) = Inr \<lparr>commitIndex = 0, currentTerm = t,
           lastApplied = 0, leaderId = [], storeName = nm, votedFor = v\<rparr>"
  using assms by (intro NewStore_image [where f = "synced_file (store_image (t, v))"])
    (simp_all add: restarted_def fault_free_def)

section \<open>Properties\<close>

text \<open>
  C20. The four operations that persist are all or nothing, in memory and in the file: without an
  error the new values are in memory and in the synced file, with an error memory is as before and
  the file holds what it held. So a store whose file agrees with memory stays so.
\<close>

theorem store_setters_all_or_nothing:
  "(case IncrementCurrentTerm s d of ((r, err), s', d') \<Rightarrow>
      if err = None then r = currentTerm s + 1 \<and> s' = s\<lparr>currentTerm := r\<rparr> \<and> persisted s' d'
      else r = currentTerm s \<and> s' = s \<and> files d' (storeName s) = files d (storeName s))
   \<and> (case SetCurrentTerm t s d of ((r, err), s', d') \<Rightarrow>
      if err = None then r = t \<and> s' = s\<lparr>currentTerm := t\<rparr> \<and> persisted s' d'
      else r = currentTerm s \<and> s' = s \<and> files d' (storeName s) = files d (storeName s))
   \<and> (case SetVotedFor v s d of (err, s', d') \<Rightarrow>
      if err = None then s' = s\<lparr>votedFor := v\<rparr> \<and> persisted s' d'
      else s' = s \<and> files d' (storeName s) = files d (storeName s))
   \<and> (case SetCurrentTermAndVotedFor t v s d of (err, s', d') \<Rightarrow>
      if err = None then s' = s\<lparr>currentTerm := t, votedFor := v\<rparr> \<and> persisted s' d'
      else s' = s \<and> files d' (storeName s) = files d (storeName s))"
proof (intro conjI)
  show "case IncrementCurrentTerm s d of ((r, err), s', d') \<Rightarrow>
      if err = None then r = currentTerm s + 1 \<and> s' = s\<lparr>currentTerm := r\<rparr> \<and> persisted s' d'
      else r = currentTerm s \<and> s' = s \<and> files d' (storeName s) = files d (storeName s)"
    by (clarsimp split: prod.splits, erule IncrementCurrentTerm_cases) auto
  show "case SetCurrentTerm t s d of ((r, err), s', d') \<Rightarrow>
      if err = None then r = t \<and> s' = s\<lparr>currentTerm := t\<rparr> \<and> persisted s' d'
      else r = currentTerm s \<and> s' = s \<and> files d' (storeName s) = files d (storeName s)"
    by (clarsimp split: prod.splits, erule SetCurrentTerm_cases) auto
  show "case SetVotedFor v s d of (err, s', d') \<Rightarrow>
      if err = None then s' = s\<lparr>votedFor := v\<rparr> \<and> persisted s' d'
      else s' = s \<and> files d' (storeName s) = files d (storeName s)"
    by (clarsimp split: prod.splits, erule SetVotedFor_cases) auto
  show "case SetCurrentTermAndVotedFor t v s d of (err, s', d') \<Rightarrow>
      if err = None then s' = s\<lparr>currentTerm := t, votedFor := v\<rparr> \<and> persisted s' d'
      else s' = s \<and> files d' (storeName s) = files d (storeName s)"
    by (clarsimp split: prod.splits, erule SetCurrentTermAndVotedFor_cases) auto
qed

text \<open>
  C21. A power loss after any number of the steps of a write, failed or not, leaves a file that a
  restarted node opens, and it reads the old term and vote or the new ones, never a mixture.
\<close>

theorem store_power_loss_old_or_new:
  assumes "durable d nm {Some (synced_file (store_image (t, v)))}" and "vote_ok v" and "vote_ok v'"
    and "power_loss (snd (run_steps (take k (store_write_steps nm (t', v'))) d)) F"
  shows "\<exists>s. fst (NewStore nm (restarted F (\<lambda>_. None))) = Inr s
           \<and> (currentTerm s, votedFor s) \<in> {(t, v), (t', v')}"
proof -
  have "F nm = Some (store_image (t, v)) \<or> F nm = Some (store_image (t', v'))"
    using store_file.replace_power_loss [OF assms(1,4)] .
  then show ?thesis
    using NewStore_restarted [of F nm t v] NewStore_restarted [of F nm t' v'] assms(2,3) by auto
qed

theorem store_power_loss_old_or_new_witness:
  "\<exists>s F. power_loss (snd (run_steps (take 5 (store_write_steps [115] (4, [66])))
            (disk_with [115] (store_image (3, [65]))))) F
      \<and> fst (NewStore [115] (restarted F (\<lambda>_. None))) = Inr s
      \<and> (currentTerm s, votedFor s) \<in> {(3, [65]), (4, [66])}"
proof -
  have v: "vote_ok [65]" "vote_ok [66]" by (simp_all add: vote_ok_def)
  show ?thesis
    using store_power_loss_old_or_new [OF disk_with_durable v power_loss_current] power_loss_current
    by blast
qed

text \<open>
  \<open>SetVotedFor\<close> ignores a failed sync of the directory: it reports that the vote is persisted,
  and after a power loss the restarted node has no vote in the same term, so it may vote again.
\<close>

lemma store_vote_lost_without_directory_sync:
  "\<exists>s' d' F s''. SetVotedFor [66]
       \<lparr>commitIndex = 0, currentTerm = 3, lastApplied = 0, leaderId = [], storeName = [115], votedFor = []\<rparr>
       ((disk_with [115] (store_image (3, [])))\<lparr>faults := (\<lambda>n. if n = 8 then Some 0 else None)\<rparr>)
         = (None, s', d')
     \<and> votedFor s' = [66] \<and> currentTerm s' = 3
     \<and> power_loss d' F \<and> fst (NewStore [115] (restarted F (\<lambda>_. None))) = Inr s''
     \<and> currentTerm s'' = 3 \<and> votedFor s'' = []"
proof -
  define d where "d = (disk_with [115] (store_image (3, [])))\<lparr>faults := (\<lambda>n. if n = 8 then Some 0 else None)\<rparr>"
  define s where "s = \<lparr>commitIndex = 0, currentTerm = 3, lastApplied = 0, leaderId = [],
      storeName = [115], votedFor = []\<rparr>"
  obtain err s' d' where run: "SetVotedFor [66] s d = (err, s', d')" by (rule prod_cases3)
  have ok: "err = None" "s' = s\<lparr>votedFor := [66]\<rparr>"
    and stale: "\<exists>fs\<in>dirs d'. fs [115] = Some (synced_file (store_image (3, [])))"
    using run
    by (auto simp: SetVotedFor_def store_write_def store_write_steps_def d_def s_def disk_with_def
        os_plain_def os_OpenTrunc_def os_Write_def os_Sync_def os_Rename_def os_SyncDir_def io_def
        tmp_suffix_def dirs_def Let_def set_files_def change_dir_def)
  obtain fs where fs: "fs \<in> dirs d'" "fs [115] = Some (synced_file (store_image (3, [])))"
    using stale by blast
  define F where "F = (\<lambda>nm. map_option content (fs nm))"
  have "power_loss d' F" using fs(1) survives_contents by (auto simp: power_loss_def F_def)
  moreover have "fst (NewStore [115] (restarted F (\<lambda>_. None))) = Inr s"
    using NewStore_restarted [of F "[115]" 3 "[]"] fs(2) by (simp add: F_def s_def vote_ok_def)
  ultimately show ?thesis
    using run ok unfolding d_def s_def by auto
qed

end
