(* ===== verification/Snapshot.thy ===== *)
theory Snapshot
  imports Disk
begin

text \<open>
  \<^verbatim>\<open>internal/snapshot.go\<close>: saving a snapshot through a temporary file and loading it, with the
  current format (version byte, 64-bit length, CRC-32 of the data) and the legacy one. The lemmas
  give the round trip, the atomicity of a save, the detection of corrupted data, and the files
  the version byte misleads.
\<close>

section \<open>Data and operations\<close>

record Snapshot =
  LastIncludedIndex :: u64
  LastIncludedTerm :: u64
  SnapData :: bytes

definition maxSnapshotSize :: nat where
  "maxSnapshotSize = 256 * 2 ^ 20"

definition snapshotFormatV2 :: byte where
  "snapshotFormatV2 = 0x02"

datatype snapshot_error =
    SnapMkdir | SnapOpenTmp | SnapWriteVersion | SnapWriteIndex | SnapWriteTerm | SnapWriteLen
  | SnapWriteData | SnapWriteCRC | SnapFsync | SnapClose | SnapRename
  | SnapOpen read_error | SnapReadFirst read_error | SnapSeek | SnapReadIndex read_error
  | SnapReadTerm read_error | SnapReadLen read_error | SnapTooLarge nat | SnapReadData read_error
  | SnapReadCRC read_error | SnapCRCMismatch u32 u32

definition snapshot_write_steps ::
  "gostring \<Rightarrow> Snapshot \<Rightarrow> ((disk \<Rightarrow> bool \<times> disk) \<times> snapshot_error) list" where
  "snapshot_write_steps nm snap =
     (let tempName = nm @ tmp_suffix in
      [(os_plain, SnapMkdir),
       (os_OpenTrunc tempName, SnapOpenTmp),
       (os_Write tempName [snapshotFormatV2], SnapWriteVersion),
       (os_Write tempName (PutUint64 (LastIncludedIndex snap)), SnapWriteIndex),
       (os_Write tempName (PutUint64 (LastIncludedTerm snap)), SnapWriteTerm),
       (os_Write tempName (PutUint64 (word_of_nat (length (SnapData snap)))), SnapWriteLen),
       (os_Write tempName (SnapData snap), SnapWriteData),
       (os_Write tempName (PutUint32 (ChecksumIEEE (SnapData snap))), SnapWriteCRC),
       (os_Sync tempName, SnapFsync),
       (os_plain, SnapClose),
       (os_Rename tempName nm, SnapRename)])"

definition SaveSnapshot :: "gostring \<Rightarrow> Snapshot \<Rightarrow> disk \<Rightarrow> snapshot_error option \<times> disk" where
  "SaveSnapshot nm snap d =
     (case run_steps (snapshot_write_steps nm snap) d of
        (Some e, d') \<Rightarrow> (Some e, d')
      | (None, d') \<Rightarrow> (None, os_SyncDir d'))"

definition loadSnapshotV1 :: "bytes \<Rightarrow> disk \<Rightarrow> (snapshot_error + Snapshot) \<times> disk" where
  "loadSnapshotV1 f d =
     (case io_ReadFull 8 f d of
        (Inl e, d1) \<Rightarrow> (Inl (SnapReadIndex e), d1)
      | (Inr (ibs, f1), d1) \<Rightarrow>
      (case io_ReadFull 8 f1 d1 of
        (Inl e, d2) \<Rightarrow> (Inl (SnapReadTerm e), d2)
      | (Inr (tbs, f2), d2) \<Rightarrow>
      (case io_ReadFull 4 f2 d2 of
        (Inl e, d3) \<Rightarrow> (Inl (SnapReadLen e), d3)
      | (Inr (nbs, f3), d3) \<Rightarrow>
          let n = unat (Uint32 nbs) in
          if n > maxSnapshotSize then (Inl (SnapTooLarge n), d3)
          else
      (case io_ReadFull n f3 d3 of
        (Inl e, d4) \<Rightarrow> (Inl (SnapReadData e), d4)
      | (Inr (bs, f4), d4) \<Rightarrow>
          (Inr \<lparr>LastIncludedIndex = Uint64 ibs, LastIncludedTerm = Uint64 tbs, SnapData = bs\<rparr>, d4)))))"

definition loadSnapshotV2 :: "bytes \<Rightarrow> disk \<Rightarrow> (snapshot_error + Snapshot) \<times> disk" where
  "loadSnapshotV2 f d =
     (case io_ReadFull 8 f d of
        (Inl e, d1) \<Rightarrow> (Inl (SnapReadIndex e), d1)
      | (Inr (ibs, f1), d1) \<Rightarrow>
      (case io_ReadFull 8 f1 d1 of
        (Inl e, d2) \<Rightarrow> (Inl (SnapReadTerm e), d2)
      | (Inr (tbs, f2), d2) \<Rightarrow>
      (case io_ReadFull 8 f2 d2 of
        (Inl e, d3) \<Rightarrow> (Inl (SnapReadLen e), d3)
      | (Inr (nbs, f3), d3) \<Rightarrow>
          let n = unat (Uint64 nbs) in
          if n > maxSnapshotSize then (Inl (SnapTooLarge n), d3)
          else
      (case io_ReadFull n f3 d3 of
        (Inl e, d4) \<Rightarrow> (Inl (SnapReadData e), d4)
      | (Inr (bs, f4), d4) \<Rightarrow>
      (case io_ReadFull 4 f4 d4 of
        (Inl e, d5) \<Rightarrow> (Inl (SnapReadCRC e), d5)
      | (Inr (cbs, f5), d5) \<Rightarrow>
          let expectedCRC = Uint32 cbs; actualCRC = ChecksumIEEE bs in
          if expectedCRC \<noteq> actualCRC then (Inl (SnapCRCMismatch expectedCRC actualCRC), d5)
          else (Inr \<lparr>LastIncludedIndex = Uint64 ibs, LastIncludedTerm = Uint64 tbs, SnapData = bs\<rparr>,
                d5))))))"

definition LoadSnapshot :: "gostring \<Rightarrow> disk \<Rightarrow> (snapshot_error + Snapshot) \<times> disk" where
  "LoadSnapshot nm d =
     (case os_Open nm d of
        (Inl e, d1) \<Rightarrow> (Inl (SnapOpen e), d1)
      | (Inr f, d1) \<Rightarrow>
      (case io_ReadFull 1 f d1 of
        (Inl e, d2) \<Rightarrow> (Inl (SnapReadFirst e), d2)
      | (Inr (firstByte, f1), d2) \<Rightarrow>
          if firstByte = [snapshotFormatV2] then loadSnapshotV2 f1 d2
          else (case os_plain d2 of
                  (False, d3) \<Rightarrow> (Inl SnapSeek, d3)
                | (True, d3) \<Rightarrow> loadSnapshotV1 f d3)))"

section \<open>Specification\<close>

definition snapshot_image :: "Snapshot \<Rightarrow> bytes" where
  "snapshot_image snap =
     snapshotFormatV2 # PutUint64 (LastIncludedIndex snap) @ PutUint64 (LastIncludedTerm snap)
       @ PutUint64 (word_of_nat (length (SnapData snap))) @ SnapData snap
       @ PutUint32 (ChecksumIEEE (SnapData snap))"

definition snapshot_image_v1 :: "Snapshot \<Rightarrow> bytes" where
  "snapshot_image_v1 snap =
     PutUint64 (LastIncludedIndex snap) @ PutUint64 (LastIncludedTerm snap)
       @ PutUint32 (word_of_nat (length (SnapData snap))) @ SnapData snap"

section \<open>Saving\<close>

interpretation snapshot_file: replace_file snapshot_write_steps snapshot_image
proof unfold_locales
  fix nm and snap :: Snapshot
  let ?parts = "[([snapshotFormatV2], SnapWriteVersion),
      (PutUint64 (LastIncludedIndex snap), SnapWriteIndex),
      (PutUint64 (LastIncludedTerm snap), SnapWriteTerm),
      (PutUint64 (word_of_nat (length (SnapData snap))), SnapWriteLen),
      (SnapData snap, SnapWriteData),
      (PutUint32 (ChecksumIEEE (SnapData snap)), SnapWriteCRC)]"
  have "snapshot_write_steps nm snap = replace_steps nm (nm @ tmp_suffix) SnapMkdir SnapOpenTmp
      ?parts SnapFsync SnapClose SnapRename"
    by (simp add: snapshot_write_steps_def replace_steps_def Let_def)
  moreover have "concat (map fst ?parts) = snapshot_image snap" by (simp add: snapshot_image_def)
  ultimately show "\<exists>e1 e2 parts e3 e4 e5.
      snapshot_write_steps nm snap = replace_steps nm (nm @ tmp_suffix) e1 e2 parts e3 e4 e5
      \<and> concat (map fst parts) = snapshot_image snap"
    by blast
qed

lemma SaveSnapshot_ok:
  "SaveSnapshot nm snap d = (None, d') \<Longrightarrow> files d' nm = Some (synced_file (snapshot_image snap))"
  by (auto simp: SaveSnapshot_def SyncDir_effect(1) dest: snapshot_file.replace_ok(1)
      split: prod.splits option.splits)

lemma SaveSnapshot_error:
  "SaveSnapshot nm snap d = (Some e, d') \<Longrightarrow> files d' nm = files d nm"
  by (auto simp: SaveSnapshot_def dest: snapshot_file.replace_error(1)
      split: prod.splits option.splits)

lemma SaveSnapshot_other:
  "q \<noteq> nm \<Longrightarrow> q \<noteq> nm @ tmp_suffix \<Longrightarrow> files (snd (SaveSnapshot nm snap d)) q = files d q"
  using snapshot_file.replace_other [of q nm snap d]
  by (auto simp: SaveSnapshot_def SyncDir_effect(1) split: prod.splits option.splits)

section \<open>Loading\<close>

lemma ReadFull_files: "io_ReadFull n f d = (x, d') \<Longrightarrow> files d' = files d"
  using read_keeps_files(2) [of n f d] by simp

lemma LoadSnapshot_files: "files (snd (LoadSnapshot nm d)) = files d"
proof -
  have "files (snd (loadSnapshotV1 f d)) = files d" "files (snd (loadSnapshotV2 f d)) = files d" for f d
    by (auto simp: loadSnapshotV1_def loadSnapshotV2_def Let_def dest!: ReadFull_files
        split: prod.splits sum.splits)
  moreover have "os_Open nm d = (x, d') \<Longrightarrow> files d' = files d" "os_plain d = (b, d') \<Longrightarrow> files d' = files d"
    for nm d d' x b using read_keeps_files(1) [of nm d] read_keeps_files(3) [of d] by simp_all
  ultimately show ?thesis
    by (auto simp: LoadSnapshot_def dest!: ReadFull_files split: prod.splits sum.splits bool.splits)
qed

lemma loadSnapshotV2_parts:
  assumes ff: "fault_free d" and len: "length bs < 2 ^ 64" and crc: "length c = 4"
  shows "fst (loadSnapshotV2 (PutUint64 i @ PutUint64 t @ PutUint64 (word_of_nat (length bs)) @ bs @ c) d) =
     (if length bs > maxSnapshotSize then Inl (SnapTooLarge (length bs))
      else if Uint32 c \<noteq> ChecksumIEEE bs then Inl (SnapCRCMismatch (Uint32 c) (ChecksumIEEE bs))
      else Inr \<lparr>LastIncludedIndex = i, LastIncludedTerm = t, SnapData = bs\<rparr>)"
proof -
  let ?n = "PutUint64 (word_of_nat (length bs))"
  note r1 = ReadFull_ok [OF ff, of "PutUint64 i" 8 "PutUint64 t @ ?n @ bs @ c"]
  note r2 = ReadFull_ok [OF r1 [THEN conjunct2], of "PutUint64 t" 8 "?n @ bs @ c"]
  note r3 = ReadFull_ok [OF r2 [THEN conjunct2], of "?n" 8 "bs @ c"]
  note r4 = ReadFull_ok [OF r3 [THEN conjunct2], of bs "length bs" c]
  note r5 = ReadFull_ok [OF r4 [THEN conjunct2], of c 4 "[]"]
  have n: "unat (word_of_nat (length bs) :: u64) = length bs"
    using len by (simp add: unat_of_nat take_bit_nat_eq_self)
  show ?thesis
    using r1 r2 r3 r4 r5 by (simp add: loadSnapshotV2_def Let_def n crc)
qed

lemma LoadSnapshot_V2:
  assumes "fault_free d" and "files d nm = Some f" and "content f = snapshotFormatV2 # bs"
  shows "\<exists>d'. fault_free d' \<and> LoadSnapshot nm d = loadSnapshotV2 bs d'"
proof -
  note o = Open_ok [OF assms(1,2)]
  note r = ReadFull_ok [OF o [THEN conjunct2], of "[snapshotFormatV2]" 1 bs]
  show ?thesis using o r by (auto simp: LoadSnapshot_def assms(3))
qed

lemma LoadSnapshot_image:
  assumes "fault_free d" and "files d nm = Some f" and "content f = snapshot_image snap"
    and "length (SnapData snap) < 2 ^ 64"
  shows "fst (LoadSnapshot nm d) =
     (if length (SnapData snap) > maxSnapshotSize then Inl (SnapTooLarge (length (SnapData snap)))
      else Inr snap)"
proof -
  obtain d' where d': "fault_free d'" and load: "LoadSnapshot nm d =
      loadSnapshotV2 (PutUint64 (LastIncludedIndex snap) @ PutUint64 (LastIncludedTerm snap)
       @ PutUint64 (word_of_nat (length (SnapData snap))) @ SnapData snap
       @ PutUint32 (ChecksumIEEE (SnapData snap))) d'"
    using LoadSnapshot_V2 [OF assms(1,2) assms(3) [unfolded snapshot_image_def]] by blast
  show ?thesis
    unfolding load using loadSnapshotV2_parts [OF d' assms(4), of "PutUint32 (ChecksumIEEE (SnapData snap))"]
    by simp
qed

lemma LoadSnapshot_missing:
  "files d nm = None \<Longrightarrow> fst (LoadSnapshot nm d) = Inl (SnapOpen NotExist)"
  by (simp add: LoadSnapshot_def os_Open_def)

definition snapshot_ok :: "Snapshot \<Rightarrow> bool" where
  "snapshot_ok snap \<longleftrightarrow> length (SnapData snap) \<le> maxSnapshotSize"

lemma snapshot_ok_64: "snapshot_ok snap \<Longrightarrow> length (SnapData snap) < 2 ^ 64"
  by (simp add: snapshot_ok_def maxSnapshotSize_def)

definition decode_snapshot :: "bytes \<Rightarrow> snapshot_error + Snapshot" where
  "decode_snapshot bs = fst (LoadSnapshot [] (disk_with [] bs))"

lemma disk_with_fault_free: "fault_free (disk_with nm bs)"
  by (simp add: fault_free_def disk_with_def)

interpretation snapshot: codec snapshot_ok snapshot_image decode_snapshot
proof unfold_locales
  fix snap :: Snapshot
  assume ok: "snapshot_ok snap"
  show "decode_snapshot (snapshot_image snap) = Inr snap"
    unfolding decode_snapshot_def
    using LoadSnapshot_image [OF disk_with_fault_free, where nm = "[]" and snap = snap] snapshot_ok_64 [OF ok] ok
    by (simp add: disk_with_def snapshot_ok_def)
qed

section \<open>Properties\<close>

text \<open>
  C24. A snapshot that was saved without error is loaded back as it is exactly when its data is at
  most 256 MiB; a larger one is saved without error, and loading it reports that it is too large.
\<close>

theorem snapshot_save_load:
  assumes "SaveSnapshot nm snap d = (None, d')" and "fault_free d'" and "length (SnapData snap) < 2 ^ 64"
  shows "fst (LoadSnapshot nm d') =
     (if length (SnapData snap) \<le> maxSnapshotSize then Inr snap
      else Inl (SnapTooLarge (length (SnapData snap))))"
  using LoadSnapshot_image [OF assms(2) SaveSnapshot_ok [OF assms(1)] _ assms(3)] by simp

lemma fault_free_run:
  assumes "\<forall>st\<in>set sts. \<forall>d. fault_free d \<longrightarrow> fst (fst st d) \<and> fault_free (snd (fst st d))"
    and "fault_free d"
  shows "fst (run_steps sts d) = None \<and> fault_free (snd (run_steps sts d))"
  using assms
proof (induction sts arbitrary: d)
  case (Cons st sts)
  then show ?case by (cases "fst st d") (auto split: bool.splits)
qed simp

lemma fault_free_ops:
  assumes "fault_free d"
  shows "fst (os_plain d) \<and> fault_free (snd (os_plain d))"
    and "fst (os_OpenTrunc nm d) \<and> fault_free (snd (os_OpenTrunc nm d))"
    and "fst (os_Write nm bs d) \<and> fault_free (snd (os_Write nm bs d))"
    and "fst (os_Sync nm d) \<and> fault_free (snd (os_Sync nm d))"
    and "fst (os_Rename nm nm' d) \<and> fault_free (snd (os_Rename nm nm' d))"
    and "fault_free (os_SyncDir d)"
  using assms
  by (auto simp: os_plain_def os_OpenTrunc_def os_Write_def os_Sync_def os_Rename_def os_SyncDir_def
      fault_free_def io_def Let_def)

lemma SaveSnapshot_fault_free:
  assumes "fault_free d"
  shows "\<exists>d'. SaveSnapshot nm snap d = (None, d') \<and> fault_free d'"
proof -
  have "fst (run_steps (snapshot_write_steps nm snap) d) = None
      \<and> fault_free (snd (run_steps (snapshot_write_steps nm snap) d))"
    by (rule fault_free_run [OF _ assms]) (auto simp: snapshot_write_steps_def Let_def fault_free_ops)
  then show ?thesis
    by (cases "run_steps (snapshot_write_steps nm snap) d") (auto simp: SaveSnapshot_def fault_free_ops(6))
qed

theorem snapshot_save_load_witness:
  "\<exists>d'. SaveSnapshot [115] \<lparr>LastIncludedIndex = 42, LastIncludedTerm = 5, SnapData = [1, 2, 3]\<rparr>
          (disk_with [116] []) = (None, d')
      \<and> fst (LoadSnapshot [115] d') =
          Inr \<lparr>LastIncludedIndex = 42, LastIncludedTerm = 5, SnapData = [1, 2, 3]\<rparr>"
proof -
  let ?s = "\<lparr>LastIncludedIndex = 42, LastIncludedTerm = 5, SnapData = [1, 2, 3]\<rparr> :: Snapshot"
  obtain d' where d': "SaveSnapshot [115] ?s (disk_with [116] []) = (None, d')" "fault_free d'"
    using SaveSnapshot_fault_free [OF disk_with_fault_free] by blast
  have "length (SnapData ?s) < 2 ^ 64" by simp
  from snapshot_save_load [OF d' this] d'(1) show ?thesis
    by (auto simp: maxSnapshotSize_def)
qed

text \<open>
  C22. A power loss after any number of the steps of a save, failed or not, leaves the snapshot that
  was there before or the new one: a restarted node loads one of the two.
\<close>

theorem snapshot_power_loss_old_or_new:
  assumes "durable d nm {Some (synced_file (snapshot_image old))}"
    and "snapshot_ok old" and "snapshot_ok snap"
    and "power_loss (snd (run_steps (take k (snapshot_write_steps nm snap)) d)) F"
  shows "fst (LoadSnapshot nm (restarted F (\<lambda>_. None))) \<in> {Inr old, Inr snap}"
proof -
  have load: "fst (LoadSnapshot nm (restarted F (\<lambda>_. None))) = Inr x"
    if "F nm = Some (snapshot_image x)" "snapshot_ok x" for x
    using LoadSnapshot_image [of "restarted F (\<lambda>_. None)" nm "synced_file (snapshot_image x)" x]
      snapshot_ok_64 [OF that(2)] that by (simp add: restarted_def fault_free_def snapshot_ok_def)
  have "F nm = Some (snapshot_image old) \<or> F nm = Some (snapshot_image snap)"
    using snapshot_file.replace_power_loss [OF assms(1,4)] .
  with load assms(2,3) show ?thesis by blast
qed

theorem snapshot_power_loss_old_or_new_witness:
  "\<exists>F. power_loss (snd (run_steps
          (take 7 (snapshot_write_steps [115] \<lparr>LastIncludedIndex = 9, LastIncludedTerm = 2, SnapData = [7]\<rparr>))
          (disk_with [115]
             (snapshot_image \<lparr>LastIncludedIndex = 4, LastIncludedTerm = 1, SnapData = []\<rparr>)))) F
      \<and> fst (LoadSnapshot [115] (restarted F (\<lambda>_. None)))
          \<in> {Inr \<lparr>LastIncludedIndex = 4, LastIncludedTerm = 1, SnapData = []\<rparr>,
             Inr \<lparr>LastIncludedIndex = 9, LastIncludedTerm = 2, SnapData = [7]\<rparr>}"
proof -
  have "snapshot_ok \<lparr>LastIncludedIndex = 4, LastIncludedTerm = 1, SnapData = []\<rparr>"
    "snapshot_ok \<lparr>LastIncludedIndex = 9, LastIncludedTerm = 2, SnapData = [7]\<rparr>"
    by (simp_all add: snapshot_ok_def maxSnapshotSize_def)
  from snapshot_power_loss_old_or_new [OF disk_with_durable this power_loss_current] power_loss_current
  show ?thesis by blast
qed

text \<open>
  C25. Changing any one byte of the data of a saved snapshot is detected: loading reports a checksum
  mismatch instead of handing corrupt state to the state machine.
\<close>

theorem snapshot_corruption_detected:
  assumes "fault_free d" and "files d nm = Some f" and "a \<noteq> b"
    and "snapshot_ok \<lparr>LastIncludedIndex = i, LastIncludedTerm = t, SnapData = xs @ a # ys\<rparr>"
    and "content f = snapshotFormatV2 # PutUint64 i @ PutUint64 t
           @ PutUint64 (word_of_nat (length (xs @ a # ys))) @ (xs @ b # ys)
           @ PutUint32 (ChecksumIEEE (xs @ a # ys))"
  shows "\<exists>expected actual. fst (LoadSnapshot nm d) = Inl (SnapCRCMismatch expected actual)"
proof -
  have len: "length (xs @ b # ys) \<le> maxSnapshotSize" "length (xs @ b # ys) < 2 ^ 64"
    using assms(4) snapshot_ok_64 [OF assms(4)] by (simp_all add: snapshot_ok_def)
  have crc: "ChecksumIEEE (xs @ a # ys) \<noteq> ChecksumIEEE (xs @ b # ys)"
    using ChecksumIEEE_single_byte assms(3) by blast
  obtain d' where d': "fault_free d'" and load: "LoadSnapshot nm d = loadSnapshotV2 (PutUint64 i @ PutUint64 t
           @ PutUint64 (word_of_nat (length (xs @ a # ys))) @ (xs @ b # ys)
           @ PutUint32 (ChecksumIEEE (xs @ a # ys))) d'"
    using LoadSnapshot_V2 [OF assms(1,2,5)] by blast
  show ?thesis
    unfolding load
    using loadSnapshotV2_parts [OF d' len(2), of "PutUint32 (ChecksumIEEE (xs @ a # ys))" i t] len(1) crc
    by (simp del: append_assoc)
qed

theorem snapshot_corruption_detected_witness:
  "\<exists>expected actual.
     fst (LoadSnapshot [115] (disk_with [115]
       (snapshotFormatV2 # PutUint64 8 @ PutUint64 2 @ PutUint64 (word_of_nat (length ([5] @ 6 # [7])))
          @ ([5] @ 1 # [7]) @ PutUint32 (ChecksumIEEE ([5] @ 6 # [7])))))
     = Inl (SnapCRCMismatch expected actual)"
  by (rule snapshot_corruption_detected [OF disk_with_fault_free, where i = 8 and t = 2 and a = 6 and b = 1
        and xs = "[5]" and ys = "[7]"])
    (auto simp: disk_with_def snapshot_ok_def maxSnapshotSize_def)

text \<open>
  A snapshot in the legacy format is loaded as it is, unless the low byte of its index is 2, the
  version byte of the current format.
\<close>

lemma snapshot_v1_loads:
  assumes "fault_free d" and "files d nm = Some f" and "content f = snapshot_image_v1 snap"
    and "snapshot_ok snap" and "(ucast (LastIncludedIndex snap) :: byte) \<noteq> snapshotFormatV2"
  shows "fst (LoadSnapshot nm d) = Inr snap"
proof -
  let ?i = "PutUint64 (LastIncludedIndex snap)" and ?t = "PutUint64 (LastIncludedTerm snap)"
  let ?n = "PutUint32 (word_of_nat (length (SnapData snap)))" and ?bs = "SnapData snap"
  obtain b bs where b: "?i = b # bs" "b \<noteq> snapshotFormatV2"
    using assms(5) by (simp add: PutUint_eval)
  note o = Open_ok [OF assms(1,2)]
  note r0 = ReadFull_ok [OF o [THEN conjunct2], of "[b]" 1 "bs @ ?t @ ?n @ ?bs"]
  note s = fault_free_ops(1) [OF r0 [THEN conjunct2]]
  note r1 = ReadFull_ok [OF s [THEN conjunct2], of ?i 8 "?t @ ?n @ ?bs"]
  note r2 = ReadFull_ok [OF r1 [THEN conjunct2], of ?t 8 "?n @ ?bs"]
  note r3 = ReadFull_ok [OF r2 [THEN conjunct2], of ?n 4 ?bs]
  note r4 = ReadFull_ok [OF r3 [THEN conjunct2], of ?bs "length ?bs" "[]"]
  have n: "unat (word_of_nat (length ?bs) :: u32) = length ?bs"
    using assms(4) by (simp add: snapshot_ok_def maxSnapshotSize_def unat_of_nat take_bit_nat_eq_self)
  have v1: "fst (loadSnapshotV1 (?i @ ?t @ ?n @ ?bs) (snd (os_plain (snd (io (snd (io d))))))) = Inr snap"
    using r1 r2 r3 r4 assms(4) by (simp add: loadSnapshotV1_def Let_def n snapshot_ok_def)
  have "LoadSnapshot nm d = loadSnapshotV1 (?i @ ?t @ ?n @ ?bs) (snd (os_plain (snd (io (snd (io d))))))"
    using o r0 s b by (auto simp: LoadSnapshot_def assms(3) snapshot_image_v1_def split: prod.splits bool.splits)
  with v1 show ?thesis by simp
qed

text \<open>
  A legacy snapshot of index 2 is taken for the current format, and loading it fails although
  the file is intact.
\<close>

lemma snapshot_v1_index_2_unreadable:
  "fst (LoadSnapshot [115] (disk_with [115]
      (snapshot_image_v1 \<lparr>LastIncludedIndex = 2, LastIncludedTerm = 1, SnapData = [9, 9, 9]\<rparr>)))
   = Inl (SnapReadLen EOF)"
  by (simp add: LoadSnapshot_def loadSnapshotV2_def os_Open_def io_ReadFull_def io_def disk_with_def
      snapshot_image_v1_def snapshotFormatV2_def PutUint_eval)

end
