(* ===== verification/Config.thy ===== *)
theory Config
  imports Prelude
begin

text \<open>
  \<^verbatim>\<open>internal/config.go\<close>: the configuration, its defaults and its validation, with the random
  election deadline the roles derive from it. Durations are in nanoseconds. The pseudo-random
  generator is a sequence of raw values, of which \<open>IntN\<close> takes the next one.
\<close>

section \<open>Data and operations\<close>

record Config =
  TickInterval :: int
  HeartbeatTicks :: int
  ElectionTimeoutMinTicks :: int
  ElectionTimeoutMaxTicks :: int
  MaxBatchEntries :: int
  SnapshotThreshold :: u64
  MaxSnapshotSize :: u64

datatype config_error =
    TickIntervalNotPositive | HeartbeatTicksNotPositive | ElectionMinNotPositive
  | ElectionMaxBelowMin | HeartbeatTooSlow int int | MaxBatchNotPositive
  | SnapshotThresholdZero | MaxSnapshotSizeZero

definition DefaultConfig :: Config where
  "DefaultConfig =
     \<lparr>TickInterval = 350 * 10 ^ 6, HeartbeatTicks = 4, ElectionTimeoutMinTicks = 12,
      ElectionTimeoutMaxTicks = 20, MaxBatchEntries = 2048, SnapshotThreshold = 1000,
      MaxSnapshotSize = 256 * 2 ^ 20\<rparr>"

definition Validate :: "Config \<Rightarrow> config_error option" where
  "Validate c =
     (if TickInterval c \<le> 0 then Some TickIntervalNotPositive
      else if HeartbeatTicks c \<le> 0 then Some HeartbeatTicksNotPositive
      else if ElectionTimeoutMinTicks c \<le> 0 then Some ElectionMinNotPositive
      else if ElectionTimeoutMaxTicks c < ElectionTimeoutMinTicks c then Some ElectionMaxBelowMin
      else if HeartbeatTicks c \<ge> ElectionTimeoutMinTicks c div 2
        then Some (HeartbeatTooSlow (HeartbeatTicks c) (ElectionTimeoutMinTicks c div 2))
      else if MaxBatchEntries c \<le> 0 then Some MaxBatchNotPositive
      else if SnapshotThreshold c = 0 then Some SnapshotThresholdZero
      else if MaxSnapshotSize c = 0 then Some MaxSnapshotSizeZero
      else None)"

record rng =
  rngValues :: "nat \<Rightarrow> nat"
  rngDrawn :: nat

text \<open>\<open>rng.IntN\<close> panics unless its argument is positive: \<open>None\<close>.\<close>

definition IntN :: "int \<Rightarrow> rng \<Rightarrow> (int \<times> rng) option" where
  "IntN n g =
     (if n \<le> 0 then None
      else Some (int (rngValues g (rngDrawn g)) mod n, g\<lparr>rngDrawn := Suc (rngDrawn g)\<rparr>))"

definition electionDeadline_of :: "Config \<Rightarrow> rng \<Rightarrow> (int \<times> rng) option" where
  "electionDeadline_of c g =
     map_option (\<lambda>(k, g'). (ElectionTimeoutMinTicks c + k, g'))
       (IntN (ElectionTimeoutMaxTicks c - ElectionTimeoutMinTicks c + 1) g)"

section \<open>Lemmas\<close>

lemma Validate_None_iff:
  "Validate c = None \<longleftrightarrow>
     0 < TickInterval c \<and> 0 < HeartbeatTicks c \<and> 0 < ElectionTimeoutMinTicks c
     \<and> ElectionTimeoutMinTicks c \<le> ElectionTimeoutMaxTicks c
     \<and> HeartbeatTicks c < ElectionTimeoutMinTicks c div 2 \<and> 0 < MaxBatchEntries c
     \<and> SnapshotThreshold c \<noteq> 0 \<and> MaxSnapshotSize c \<noteq> 0"
  by (auto simp: Validate_def)

lemma DefaultConfig_valid: "Validate DefaultConfig = None"
  by (simp add: Validate_def DefaultConfig_def)

lemma electionDeadline_of_range:
  assumes "ElectionTimeoutMinTicks c \<le> ElectionTimeoutMaxTicks c"
  obtains k g' where "electionDeadline_of c g = Some (k, g')"
    "ElectionTimeoutMinTicks c \<le> k" "k \<le> ElectionTimeoutMaxTicks c"
proof -
  define n where "n = ElectionTimeoutMaxTicks c - ElectionTimeoutMinTicks c + 1"
  define k where "k = int (rngValues g (rngDrawn g)) mod n"
  have "0 < n" using assms by (simp add: n_def)
  then have "0 \<le> k" "k < n" by (simp_all add: k_def)
  then show ?thesis
    using \<open>0 < n\<close> that [of "ElectionTimeoutMinTicks c + k" "g\<lparr>rngDrawn := Suc (rngDrawn g)\<rparr>"]
    by (simp add: electionDeadline_of_def IntN_def k_def n_def)
qed

section \<open>Properties\<close>

text \<open>
  C32. With a configuration that passes validation, drawing an election deadline does not panic, the
  deadline lies between the two bounds, and at least two heartbeats fit before the earliest one.
\<close>

theorem valid_config_timing:
  assumes "Validate c = None"
  shows "\<exists>k g'. electionDeadline_of c g = Some (k, g')
           \<and> ElectionTimeoutMinTicks c \<le> k \<and> k \<le> ElectionTimeoutMaxTicks c
           \<and> 2 * HeartbeatTicks c < k"
proof -
  have "ElectionTimeoutMinTicks c \<le> ElectionTimeoutMaxTicks c"
    and hb: "2 * HeartbeatTicks c < ElectionTimeoutMinTicks c"
    using assms by (auto simp: Validate_None_iff)
  from this(1) obtain k g' where "electionDeadline_of c g = Some (k, g')"
    "ElectionTimeoutMinTicks c \<le> k" "k \<le> ElectionTimeoutMaxTicks c"
    by (rule electionDeadline_of_range)
  with hb show ?thesis by auto
qed

theorem valid_config_timing_witness:
  "\<exists>k g'. electionDeadline_of DefaultConfig \<lparr>rngValues = (\<lambda>n. n), rngDrawn = 5\<rparr> = Some (k, g')
      \<and> 12 \<le> k \<and> k \<le> 20 \<and> 8 < k"
  using valid_config_timing [OF DefaultConfig_valid, of "\<lparr>rngValues = (\<lambda>n. n), rngDrawn = 5\<rparr>"]
  by (simp add: DefaultConfig_def)

end
