(* ===== verification/Counter.thy ===== *)
theory Counter
  imports Prelude
begin

text \<open>
  \<^verbatim>\<open>counter/counter.go\<close> and \<^verbatim>\<open>internal/fsm.go\<close>: the deduplicating counter, which remembers the hashes
  seen in the last day in 1440 one-minute slots, and the state machine built on it. A map whose
  values are all \<^verbatim>\<open>true\<close> is the set of its keys. Indexing a slice out of range panics, and the loop
  over the expired slots may run forever, so it is a partial function. The encoding of a snapshot
  by \<^verbatim>\<open>encoding/gob\<close> is a parameter.
\<close>

section \<open>Data and operations\<close>

record counter =
  minute :: int
  present :: "u64 set"
  slots :: "u64 set list"
  cvalue :: int

definition numberOfSlots :: int where
  "numberOfSlots = 1440"

definition NewCounter :: counter where
  "NewCounter = \<lparr>minute = -1, present = {}, slots = replicate (nat numberOfSlots) {}, cvalue = 0\<rparr>"

definition Retrieve :: "counter \<Rightarrow> int" where
  "Retrieve c = cvalue c"

definition hashString :: "gostring \<Rightarrow> u64" where
  "hashString s = fnv64a s"

definition slot_at :: "int \<Rightarrow> counter \<Rightarrow> u64 set option" where
  "slot_at i c = (if 0 \<le> i \<and> i < int (length (slots c)) then Some (slots c ! nat i) else None)"

definition clearMinute :: "int \<Rightarrow> counter \<Rightarrow> (counter, unit) outcome" where
  "clearMinute m c =
     (let i = rem_go m numberOfSlots in
      case slot_at i c of
        None \<Rightarrow> Panic c
      | Some slot \<Rightarrow> Ret (c\<lparr>present := present c - slot, slots := (slots c)[nat i := {}]\<rparr>) ())"

partial_function (option) clear_loop ::
  "int \<Rightarrow> int \<Rightarrow> counter \<Rightarrow> (counter, unit) outcome option" where
  "clear_loop i to c =
     (case clearMinute i c of
        Ret c' u \<Rightarrow> if i = to then Some (Ret c' ())
                   else clear_loop (rem_go (int16 (i + 1)) numberOfSlots) to c'
      | Panic c' \<Rightarrow> Some (Panic c')
      | NoReturn \<Rightarrow> Some NoReturn)"

definition clearMinuteRange :: "int \<Rightarrow> int \<Rightarrow> counter \<Rightarrow> (counter, unit) outcome" where
  "clearMinuteRange from to c =
     (if from = -1 then Ret c ()
      else case clear_loop (rem_go (int16 (from + 1)) numberOfSlots) to c of
             Some r \<Rightarrow> r
           | None \<Rightarrow> NoReturn)"

definition Increment :: "gostring \<Rightarrow> int \<Rightarrow> int \<Rightarrow> counter \<Rightarrow> (counter, bool) outcome" where
  "Increment s n m c =
     (let v = int64 (cvalue c + n) in
      if v < 0 then Ret c False
      else
        let m = rem_go m numberOfSlots in
        bindO (if m \<noteq> minute c
               then bindO (clearMinuteRange (minute c) m c) (\<lambda>c1 u. Ret (c1\<lparr>minute := m\<rparr>) ())
               else Ret c ())
          (\<lambda>c1 u.
             let hash = hashString s in
             if hash \<in> present c1 then Ret c1 True
             else
               let c2 = c1\<lparr>present := insert hash (present c1)\<rparr> in
               case slot_at m c2 of
                 None \<Rightarrow> Panic c2
               | Some slot \<Rightarrow>
                   Ret (c2\<lparr>slots := (slots c2)[nat m := insert hash slot], cvalue := v\<rparr>) True))"

text \<open>\<open>gob_enc\<close> and \<open>gob_dec\<close> stand for \<^verbatim>\<open>gob.Encoder.Encode\<close> and \<^verbatim>\<open>gob.Decoder.Decode\<close>.\<close>

record gob =
  gob_enc :: "counter \<Rightarrow> bytes option"
  gob_dec :: "bytes \<Rightarrow> counter option"

definition Snapshot_counter :: "gob \<Rightarrow> counter \<Rightarrow> bytes option" where
  "Snapshot_counter G c = gob_enc G c"

definition Restore_counter :: "gob \<Rightarrow> bytes \<Rightarrow> counter \<Rightarrow> bool \<times> counter" where
  "Restore_counter G bs c =
     (case gob_dec G bs of
        None \<Rightarrow> (False, c)
      | Some st \<Rightarrow> (True, \<lparr>minute = minute st, present = present st, slots = slots st, cvalue = cvalue st\<rparr>))"

text \<open>
  The state machine. It reads the wall clock at every application: \<open>wall\<close> gives the hour and minute
  of each reading.
\<close>

record CounterFSM =
  fcounter :: counter
  wall :: "nat \<Rightarrow> int \<times> int"
  readings :: nat

definition NewFSM :: "(nat \<Rightarrow> int \<times> int) \<Rightarrow> CounterFSM" where
  "NewFSM w = \<lparr>fcounter = NewCounter, wall = w, readings = 0\<rparr>"

definition Apply :: "CounterFSM \<Rightarrow> bytes \<Rightarrow> (CounterFSM, any) outcome" where
  "Apply fm bs =
     (let (hour, mnt) = wall fm (readings fm);
          fm1 = fm\<lparr>readings := Suc (readings fm)\<rparr> in
      case Increment bs 1 (int16 (hour * 60 + mnt)) (fcounter fm1) of
        Ret c b \<Rightarrow> Ret (fm1\<lparr>fcounter := c\<rparr>) (AnyBool True)
      | Panic c \<Rightarrow> Panic (fm1\<lparr>fcounter := c\<rparr>)
      | NoReturn \<Rightarrow> NoReturn)"

definition Snapshot_fsm :: "gob \<Rightarrow> CounterFSM \<Rightarrow> bytes option" where
  "Snapshot_fsm G fm = Snapshot_counter G (fcounter fm)"

definition Restore_fsm :: "gob \<Rightarrow> CounterFSM \<Rightarrow> bytes \<Rightarrow> bool \<times> CounterFSM" where
  "Restore_fsm G fm bs =
     (case Restore_counter G bs (fcounter fm) of (ok, c) \<Rightarrow> (ok, fm\<lparr>fcounter := c\<rparr>))"

section \<open>Specification\<close>

text \<open>
  Well-formed counters: 1440 disjoint slots that partition the hashes present, a minute of the day
  or \<open>-1\<close> before the first increment, a 64-bit value.
\<close>

definition counter_ok :: "counter \<Rightarrow> bool" where
  "counter_ok c \<longleftrightarrow>
     length (slots c) = 1440
     \<and> present c = \<Union> (set (slots c))
     \<and> (\<forall>i<1440. \<forall>j<1440. i \<noteq> j \<longrightarrow> slots c ! i \<inter> slots c ! j = {})
     \<and> -1 \<le> minute c \<and> minute c < 1440
     \<and> 0 \<le> cvalue c \<and> cvalue c < 2 ^ 63"

text \<open>The slots a step from minute \<open>from\<close> to minute \<open>to\<close> expires: the cyclic interval after \<open>from\<close>.\<close>

definition expired :: "int \<Rightarrow> int \<Rightarrow> nat set" where
  "expired from to = {j. j < 1440 \<and> (int j - from - 1) mod 1440 \<le> (to - from - 1) mod 1440}"

definition expire :: "nat set \<Rightarrow> counter \<Rightarrow> counter" where
  "expire E c =
     c\<lparr>present := present c - (\<Union>j\<in>E. slots c ! j),
       slots := map (\<lambda>j. if j \<in> E then {} else slots c ! j) [0..<length (slots c)]\<rparr>"

text \<open>What an increment by \<open>n\<close> at minute \<open>m\<close> has to do.\<close>

definition increment_spec :: "gostring \<Rightarrow> int \<Rightarrow> int \<Rightarrow> counter \<Rightarrow> counter" where
  "increment_spec s n m c =
     (let c1 = (if m = minute c then c
                else (if minute c = -1 then c else expire (expired (minute c) m) c)\<lparr>minute := m\<rparr>);
          h = hashString s
      in if h \<in> present c1 then c1
         else c1\<lparr>present := insert h (present c1),
                 slots := (slots c1)[nat m := insert h (slots c1 ! nat m)], cvalue := cvalue c + n\<rparr>)"

section \<open>Clearing slots\<close>

lemma clearMinute_expire:
  assumes "length (slots c) = 1440" and "0 \<le> i" and "i < 1440"
  shows "clearMinute i c = Ret (expire {nat i} c) ()"
proof -
  have "(slots c)[nat i := {}] = map (\<lambda>j. if j \<in> {nat i} then {} else slots c ! j) [0..<1440]"
    using assms by (intro nth_equalityI) (auto simp: nth_list_update)
  then show ?thesis
    using assms by (simp add: clearMinute_def rem_go_nonneg numberOfSlots_def slot_at_def expire_def Let_def)
qed

lemma expire_expire:
  assumes "length (slots c) = 1440" and "A \<subseteq> {..<1440}" and "B \<subseteq> {..<1440}"
  shows "expire B (expire A c) = expire (A \<union> B) c"
proof -
  have "present c - (\<Union>j\<in>A. slots c ! j) - (\<Union>j\<in>B. if j \<in> A then {} else slots c ! j)
      = present c - (\<Union>j\<in>A \<union> B. slots c ! j)"
    by auto
  moreover have "(\<Union>j\<in>B. map (\<lambda>j. if j \<in> A then {} else slots c ! j) [0..<1440] ! j)
      = (\<Union>j\<in>B. if j \<in> A then {} else slots c ! j)"
    using assms(3) by (intro SUP_cong) auto
  ultimately show ?thesis
    using assms(1) by (simp add: expire_def)
qed

lemma cyclic_distance:
  assumes "0 \<le> a" "a < 1440" "0 \<le> b" "b < (1440::int)"
  shows "(b - a) mod 1440 = (if a \<le> b then b - a else b - a + 1440)"
proof (cases "a \<le> b")
  case True
  then show ?thesis using assms by simp
next
  case False
  have "(b - a) mod 1440 = (b - a + 1440) mod 1440" by simp
  also have "\<dots> = b - a + 1440" using False assms by (intro mod_pos_pos_trivial) auto
  finally show ?thesis using False by simp
qed

definition cyclic :: "int \<Rightarrow> int \<Rightarrow> nat set" where
  "cyclic i to = {j. j < 1440 \<and> (int j - i) mod 1440 \<le> (to - i) mod 1440}"

lemma mem_cyclic:
  assumes "0 \<le> i" "i < 1440" "0 \<le> to" "to < 1440"
  shows "j \<in> cyclic i to \<longleftrightarrow>
     j < 1440 \<and> (if i \<le> int j then int j - i else int j - i + 1440)
                \<le> (if i \<le> to then to - i else to - i + 1440)"
  using assms by (auto simp: cyclic_def cyclic_distance)

lemma cyclic_single: "0 \<le> i \<Longrightarrow> i < 1440 \<Longrightarrow> cyclic i i = {nat i}"
  by (rule set_eqI, subst mem_cyclic) (auto split: if_splits)

lemma cyclic_step:
  assumes "0 \<le> i" "i < 1440" "0 \<le> to" "to < 1440" "i \<noteq> to"
  shows "cyclic i to = {nat i} \<union> cyclic ((i + 1) mod 1440) to"
    and "(to - (i + 1) mod 1440) mod 1440 = (to - i) mod 1440 - 1"
proof -
  define k where "k = (i + 1) mod 1440"
  have k: "k = (if i = 1439 then 0 else i + 1)" "0 \<le> k" "k < 1440"
    using assms by (auto simp: k_def)
  show "(to - (i + 1) mod 1440) mod 1440 = (to - i) mod 1440 - 1"
    using assms k by (simp add: cyclic_distance flip: k_def)
  show "cyclic i to = {nat i} \<union> cyclic ((i + 1) mod 1440) to"
  proof (rule set_eqI)
    fix j
    show "j \<in> cyclic i to \<longleftrightarrow> j \<in> {nat i} \<union> cyclic ((i + 1) mod 1440) to"
      unfolding k_def [symmetric] Un_iff singleton_iff mem_cyclic [OF assms(1-4)]
        mem_cyclic [OF k(2,3) assms(3,4)]
      using assms k(1) by (auto split: if_splits)
  qed
qed

lemma cyclic_bound: "cyclic i to \<subseteq> {..<1440}"
  by (auto simp: cyclic_def)

lemma clear_loop_expires:
  assumes "length (slots c) = 1440" and "0 \<le> i" "i < 1440" and "0 \<le> to" "to < 1440"
  shows "clear_loop i to c = Some (Ret (expire (cyclic i to) c) ())"
  using assms
proof (induction "nat ((to - i) mod 1440)" arbitrary: i c rule: less_induct)
  case less
  note step = clearMinute_expire [OF less.prems(1-3)]
  show ?case
  proof (cases "i = to")
    case True
    then show ?thesis
      using less.prems by (subst clear_loop.simps) (simp add: step [simplified True] cyclic_single)
  next
    case False
    define i' where "i' = (i + 1) mod 1440"
    have i': "rem_go (int16 (i + 1)) numberOfSlots = i'" "0 \<le> i'" "i' < 1440"
      using less.prems by (simp_all add: int16_id rem_go_nonneg numberOfSlots_def i'_def)
    note cyc = cyclic_step [OF less.prems(2-5) False, folded i'_def]
    have "nat ((to - i') mod 1440) < nat ((to - i) mod 1440)"
      using cyc(2) pos_mod_sign [of 1440 "to - i'"] by linarith
    then have "clear_loop i' to (expire {nat i} c)
        = Some (Ret (expire (cyclic i' to) (expire {nat i} c)) ())"
      using less.prems i' by (intro less.hyps) (simp_all add: expire_def)
    then show ?thesis
      using False less.prems
      by (subst clear_loop.simps)
        (simp add: step i'(1) expire_expire [OF less.prems(1) _ cyclic_bound] cyc(1))
  qed
qed

lemma expired_cyclic: "expired from to = cyclic ((from + 1) mod 1440) to"
  by (simp add: expired_def cyclic_def mod_diff_right_eq diff_diff_eq)

lemma clearMinuteRange_expires:
  assumes "length (slots c) = 1440" and "0 \<le> from" "from < 1440" and "0 \<le> to" "to < 1440"
  shows "clearMinuteRange from to c = Ret (expire (expired from to) c) ()"
proof -
  have "rem_go (int16 (from + 1)) numberOfSlots = (from + 1) mod 1440"
    using assms by (simp add: int16_id rem_go_nonneg numberOfSlots_def)
  then show ?thesis
    using clear_loop_expires [of c "(from + 1) mod 1440" to] assms
    by (simp add: clearMinuteRange_def expired_cyclic)
qed

section \<open>Invariant\<close>

lemma nth_slots_expire:
  "length (slots c) = 1440 \<Longrightarrow> j < 1440 \<Longrightarrow> slots (expire E c) ! j = (if j \<in> E then {} else slots c ! j)"
  by (simp add: expire_def)

lemma expire_simps [simp]:
  "length (slots (expire E c)) = length (slots c)" "minute (expire E c) = minute c"
  "cvalue (expire E c) = cvalue c"
  by (simp_all add: expire_def)

lemma Union_slots: "length (slots c) = 1440 \<Longrightarrow> \<Union> (set (slots c)) = (\<Union>j<1440. slots c ! j)"
  by (auto simp: set_conv_nth)

lemma counter_ok_expire:
  assumes "counter_ok c" and "E \<subseteq> {..<1440}"
  shows "counter_ok (expire E c)"
proof -
  have len: "length (slots c) = 1440" using assms(1) by (simp add: counter_ok_def)
  have disj: "i = j" if "i < 1440" "j < 1440" "x \<in> slots c ! i" "x \<in> slots c ! j" for i j x
    using assms(1) that unfolding counter_ok_def by blast
  have bound: "j < 1440" if "j \<in> E" for j using assms(2) that by auto
  have "present c - (\<Union>j\<in>E. slots c ! j) = (\<Union>j<1440. slots (expire E c) ! j)"
  proof -
    have "present c = (\<Union>j<1440. slots c ! j)"
      using assms(1) Union_slots [OF len] by (simp add: counter_ok_def)
    moreover have "(\<Union>j<1440. slots (expire E c) ! j) = (\<Union>j\<in>{..<1440} - E. slots c ! j)"
      using len by (auto simp: nth_slots_expire split: if_splits)
    moreover have "(\<Union>j<1440. slots c ! j) - (\<Union>j\<in>E. slots c ! j) = (\<Union>j\<in>{..<1440} - E. slots c ! j)"
      using disj bound by blast
    ultimately show ?thesis by simp
  qed
  then have "present (expire E c) = \<Union> (set (slots (expire E c)))"
    using Union_slots [of "expire E c"] len by (simp add: expire_def)
  then show ?thesis
    using assms(1) len by (auto simp: counter_ok_def nth_slots_expire)
qed

lemma counter_ok_insert:
  assumes "counter_ok c" and "h \<notin> present c" and "0 \<le> m" "m < 1440" and "0 \<le> v" "v < 2 ^ 63"
  shows "counter_ok (c\<lparr>present := insert h (present c),
           slots := (slots c)[nat m := insert h (slots c ! nat m)], cvalue := v\<rparr>)"
proof -
  have len: "length (slots c) = 1440" and m: "nat m < 1440"
    using assms by (auto simp: counter_ok_def)
  have notin: "h \<notin> slots c ! j" if "j < 1440" for j
    using assms(1,2) that len by (auto simp: counter_ok_def)
  have "insert h (present c) = \<Union> (set ((slots c)[nat m := insert h (slots c ! nat m)]))"
  proof -
    have "\<Union> (set ((slots c)[nat m := insert h (slots c ! nat m)]))
        = insert h (\<Union> (set (slots c)))"
      using len m by (auto simp: set_conv_nth nth_list_update split: if_splits)
    then show ?thesis using assms(1) by (simp add: counter_ok_def)
  qed
  then show ?thesis
    using assms notin len by (auto simp: counter_ok_def nth_list_update)
qed

lemma counter_ok_minute: "counter_ok c \<Longrightarrow> -1 \<le> m \<Longrightarrow> m < 1440 \<Longrightarrow> counter_ok (c\<lparr>minute := m\<rparr>)"
  by (auto simp: counter_ok_def)

lemma expired_bound: "expired from to \<subseteq> {..<1440}"
  by (auto simp: expired_def)

lemma NewCounter_ok: "counter_ok NewCounter"
  by (auto simp: counter_ok_def NewCounter_def numberOfSlots_def)

lemma Increment_spec:
  assumes "counter_ok c" and "0 \<le> m" "m < 1440" and "0 \<le> cvalue c + n" "cvalue c + n < 2 ^ 63"
  shows "Increment s n m c = Ret (increment_spec s n m c) True"
proof -
  have len: "length (slots c) = 1440" and mn: "minute c = -1 \<or> 0 \<le> minute c \<and> minute c < 1440"
    using assms(1) by (auto simp: counter_ok_def)
  have v: "int64 (cvalue c + n) = cvalue c + n"
    using assms(4,5) by (simp add: int64_id)
  have m: "rem_go m numberOfSlots = m" using assms(2,3) by (simp add: rem_go_nonneg numberOfSlots_def)
  have clear: "clearMinuteRange (minute c) m c =
      Ret (if minute c = -1 then c else expire (expired (minute c) m) c) ()"
    using mn clearMinuteRange_expires [OF len _ _ assms(2,3), of "minute c"]
    by (auto simp: clearMinuteRange_def)
  have slot: "slot_at m (c'\<lparr>present := P\<rparr>) = Some (slots c' ! nat m)" if "length (slots c') = 1440" for c' P
    using that assms(2,3) by (simp add: slot_at_def)
  show ?thesis
  proof (cases "m = minute c")
    case True
    then show ?thesis
      using assms(4) len slot [OF len]
      by (simp add: Increment_def increment_spec_def v m [simplified True] Let_def)
  next
    case False
    then show ?thesis
      using assms(4) len by (simp add: Increment_def increment_spec_def v m clear slot Let_def)
  qed
qed

lemma Increment_negative: "int64 (cvalue c + n) < 0 \<Longrightarrow> Increment s n m c = Ret c False"
  by (simp add: Increment_def Let_def)

lemma increment_spec_ok:
  assumes "counter_ok c" and "0 \<le> m" "m < 1440" and "0 \<le> cvalue c + n" "cvalue c + n < 2 ^ 63"
  shows "counter_ok (increment_spec s n m c)"
proof -
  define c1 where "c1 = (if m = minute c then c
                else (if minute c = -1 then c else expire (expired (minute c) m) c)\<lparr>minute := m\<rparr>)"
  have c1: "counter_ok c1" "cvalue c1 = cvalue c"
    using assms by (auto simp: c1_def counter_ok_minute counter_ok_expire expired_bound)
  then show ?thesis
    using counter_ok_insert [OF c1(1) _ assms(2-5)]
    by (simp add: increment_spec_def Let_def flip: c1_def)
qed

section \<open>Counting over a day\<close>

primrec increments :: "(gostring \<times> int) list \<Rightarrow> counter \<Rightarrow> (counter, unit) outcome" where
  "increments [] c = Ret c ()"
| "increments (sm # sms) c =
     bindO (Increment (fst sm) 1 (snd sm) c) (\<lambda>c' b. increments sms c')"

text \<open>\<open>fresh_after c\<close>: no slot later than the current minute holds anything.\<close>

definition fresh_after :: "counter \<Rightarrow> bool" where
  "fresh_after c \<longleftrightarrow> (\<forall>j<1440. minute c < int j \<longrightarrow> slots c ! j = {})"

lemma mem_expired_forward:
  assumes "0 \<le> from" "from < to" "to < 1440" and "j \<in> expired from to"
  shows "from < int j" "j < 1440"
proof -
  have "(from + 1) mod 1440 = from + 1" using assms by simp
  then show "from < int j" "j < 1440"
    using assms mem_cyclic [of "from + 1" to j]
    by (auto simp: expired_cyclic split: if_splits)
qed

lemma increment_spec_forward:
  assumes "counter_ok c" and "fresh_after c" and "minute c \<le> m" and "0 \<le> m" "m < 1440"
  shows "present (increment_spec s n m c) = insert (hashString s) (present c)"
    and "cvalue (increment_spec s n m c) = cvalue c + (if hashString s \<in> present c then 0 else n)"
    and "minute (increment_spec s n m c) = m"
    and "fresh_after (increment_spec s n m c)"
proof -
  define c1 where "c1 = (if m = minute c then c
                else (if minute c = -1 then c else expire (expired (minute c) m) c)\<lparr>minute := m\<rparr>)"
  have len: "length (slots c) = 1440" and mn: "-1 \<le> minute c" using assms(1) by (auto simp: counter_ok_def)
  have empty: "slots c ! j = {}" if "j \<in> expired (minute c) m" "m \<noteq> minute c" "minute c \<noteq> -1" for j
    using mem_expired_forward [of "minute c" m j] that assms mn by (auto simp: fresh_after_def)
  have c1: "present c1 = present c" "cvalue c1 = cvalue c" "minute c1 = m" "length (slots c1) = 1440"
    using empty len by (auto simp: c1_def expire_def)
  have slots1: "slots c1 ! j = slots c ! j" if "j < 1440" for j
    using that len empty by (auto simp: c1_def nth_slots_expire)
  have spec: "increment_spec s n m c = (if hashString s \<in> present c1 then c1
         else c1\<lparr>present := insert (hashString s) (present c1),
                 slots := (slots c1)[nat m := insert (hashString s) (slots c1 ! nat m)],
                 cvalue := cvalue c + n\<rparr>)"
    by (simp add: increment_spec_def Let_def flip: c1_def)
  show "present (increment_spec s n m c) = insert (hashString s) (present c)"
    "cvalue (increment_spec s n m c) = cvalue c + (if hashString s \<in> present c then 0 else n)"
    "minute (increment_spec s n m c) = m"
    by (auto simp: spec c1)
  show "fresh_after (increment_spec s n m c)"
    using assms(2,3,4) slots1 c1 by (auto simp: spec fresh_after_def nth_list_update)
qed

lemma increments_forward:
  assumes "counter_ok c" and "fresh_after c" and "sorted (map snd sms)"
    and "\<forall>m\<in>snd ` set sms. minute c \<le> m \<and> 0 \<le> m \<and> m < 1440"
    and "finite (present c)" and "cvalue c = int (card (present c))"
    and "cvalue c + int (length sms) < 2 ^ 63"
  shows "\<exists>c'. increments sms c = Ret c' ()
           \<and> cvalue c' = int (card (present c \<union> hashString ` fst ` set sms))"
  using assms
proof (induction sms arbitrary: c)
  case Nil
  then show ?case by simp
next
  case (Cons sm sms)
  obtain s m where sm: "sm = (s, m)" by fastforce
  have m: "minute c \<le> m" "0 \<le> m" "m < 1440" using Cons.prems(4) by (auto simp: sm)
  have v: "0 \<le> cvalue c + 1" "cvalue c + 1 < 2 ^ 63"
    using Cons.prems(6,7) by simp_all
  define c1 where "c1 = increment_spec s 1 m c"
  have step: "Increment s 1 m c = Ret c1 True"
    using Increment_spec [OF Cons.prems(1) m(2,3) v] by (simp add: c1_def)
  note fwd = increment_spec_forward [OF Cons.prems(1,2) m, of s 1, folded c1_def]
  have card1: "cvalue c1 = int (card (present c1))"
    using Cons.prems(5,6) by (simp add: fwd(1,2) card_insert_if)
  have "\<exists>c'. increments sms c1 = Ret c' ()
      \<and> cvalue c' = int (card (present c1 \<union> hashString ` fst ` set sms))"
  proof (rule Cons.IH)
    show "counter_ok c1" unfolding c1_def by (rule increment_spec_ok [OF Cons.prems(1) m(2,3) v])
    show "cvalue c1 + int (length sms) < 2 ^ 63"
      using Cons.prems(7) by (simp add: fwd(2) split: if_splits)
    show "\<forall>k\<in>snd ` set sms. minute c1 \<le> k \<and> 0 \<le> k \<and> k < 1440"
      using Cons.prems(3,4) by (auto simp: fwd(3) sm)
  qed (use Cons.prems fwd card1 in auto)
  then show ?case using step fwd(1) by (auto simp: sm)
qed

section \<open>Properties\<close>

text \<open>
  C29. On a well-formed counter, an increment at a minute of the day returns, expires exactly the
  slots of the minutes that have passed (cyclically, up to and including the new minute), counts the
  identifier unless its hash is still remembered, and leaves a well-formed counter: 1440 disjoint
  slots that partition the remembered hashes.
\<close>

theorem counter_increment_correct:
  assumes "counter_ok c" and "0 \<le> m" "m < 1440" and "0 \<le> cvalue c + n" "cvalue c + n < 2 ^ 63"
  shows "Increment s n m c = Ret (increment_spec s n m c) True \<and> counter_ok (increment_spec s n m c)"
  using Increment_spec [OF assms] increment_spec_ok [OF assms] by simp

theorem counter_increment_correct_witness:
  "Increment [97] 1 500 NewCounter = Ret (increment_spec [97] 1 500 NewCounter) True
   \<and> counter_ok (increment_spec [97] 1 500 NewCounter)"
  by (rule counter_increment_correct [OF NewCounter_ok]) (simp_all add: NewCounter_def)

text \<open>
  C30. Over a day, with the minutes in order, the value of a new counter is the number of distinct
  hashes among the identifiers it was given: every identifier is counted once.
\<close>

theorem counter_counts_distinct:
  assumes "sorted (map snd sms)" and "\<forall>m\<in>snd ` set sms. 0 \<le> m \<and> m < 1440"
    and "length sms < 2 ^ 63"
  shows "\<exists>c. increments sms NewCounter = Ret c ()
           \<and> cvalue c = int (card (hashString ` fst ` set sms))"
proof -
  have "int (length sms) < 2 ^ 63" using assms(3) by (simp flip: of_nat_power of_nat_less_iff)
  then show ?thesis
    using increments_forward [OF NewCounter_ok, of sms] assms(1,2)
    by (fastforce simp: NewCounter_def fresh_after_def numberOfSlots_def)
qed

theorem counter_counts_distinct_witness:
  "\<exists>c. increments [([97], 500), ([97], 600), ([98], 600)] NewCounter = Ret c ()
     \<and> cvalue c = int (card (hashString ` {[97], [98]}))"
  using counter_counts_distinct [of "[([97], 500), ([97], 600), ([98], 600)]"] by simp

section \<open>The state machine\<close>

text \<open>
  The contract of a replicated state machine, as the appliers use it: in a well-formed state,
  applying a command returns and leaves a well-formed state.
\<close>

locale state_machine =
  fixes ok :: "'s \<Rightarrow> bool" and apply_cmd :: "'s \<Rightarrow> bytes \<Rightarrow> ('s, any) outcome"
  assumes apply_returns: "ok s \<Longrightarrow> \<exists>s' a. apply_cmd s bs = Ret s' a \<and> ok s'"
begin

lemma apply_cmdE:
  assumes "ok s"
  obtains s' a where "apply_cmd s bs = Ret s' a" "ok s'"
  using apply_returns [OF assms] by blast

lemma apply_all_returns:
  "ok s \<Longrightarrow> \<exists>s'. foldl (\<lambda>m bs. bindO m (\<lambda>s u. bindO (apply_cmd s bs) (\<lambda>s a. Ret s ()))) (Ret s ()) cmds
     = Ret s' () \<and> ok s'"
proof (induction cmds arbitrary: s)
  case (Cons bs cmds)
  then obtain s' a where "apply_cmd s bs = Ret s' a" "ok s'" by (blast elim: apply_cmdE)
  with Cons.IH show ?case by simp
qed simp

end

definition clock_ok :: "(nat \<Rightarrow> int \<times> int) \<Rightarrow> bool" where
  "clock_ok w \<longleftrightarrow> (\<forall>n. 0 \<le> fst (w n) \<and> fst (w n) < 24 \<and> 0 \<le> snd (w n) \<and> snd (w n) < 60)"

definition fsm_ok :: "CounterFSM \<Rightarrow> bool" where
  "fsm_ok fm \<longleftrightarrow> counter_ok (fcounter fm) \<and> clock_ok (wall fm)"

definition minute_of :: "int \<times> int \<Rightarrow> int" where
  "minute_of hm = fst hm * 60 + snd hm"

lemma minute_of_range:
  assumes "clock_ok w"
  shows "0 \<le> minute_of (w n)" "minute_of (w n) < 1440"
proof -
  have "0 \<le> fst (w n)" "fst (w n) < 24" "0 \<le> snd (w n)" "snd (w n) < 60"
    using assms by (simp_all add: clock_ok_def)
  then show "0 \<le> minute_of (w n)" "minute_of (w n) < 1440"
    by (simp_all add: minute_of_def)
qed

lemma Apply_minute:
  assumes "fsm_ok fm"
  shows "Apply fm bs =
     (case Increment bs 1 (minute_of (wall fm (readings fm))) (fcounter fm) of
        Ret c b \<Rightarrow> Ret (fm\<lparr>readings := Suc (readings fm), fcounter := c\<rparr>) (AnyBool True)
      | Panic c \<Rightarrow> Panic (fm\<lparr>readings := Suc (readings fm), fcounter := c\<rparr>)
      | NoReturn \<Rightarrow> NoReturn)"
proof -
  have "int16 (minute_of (wall fm (readings fm))) = minute_of (wall fm (readings fm))"
    using minute_of_range [of "wall fm" "readings fm"] assms by (simp add: fsm_ok_def int16_id)
  then show ?thesis by (cases "wall fm (readings fm)") (simp add: Apply_def minute_of_def Let_def)
qed

lemma Apply_spec:
  assumes "fsm_ok fm" and "cvalue (fcounter fm) < 2 ^ 63 - 1"
  shows "Apply fm bs = Ret (fm\<lparr>readings := Suc (readings fm),
     fcounter := increment_spec bs 1 (minute_of (wall fm (readings fm))) (fcounter fm)\<rparr>) (AnyBool True)"
proof -
  have ok: "counter_ok (fcounter fm)" "clock_ok (wall fm)" using assms(1) by (simp_all add: fsm_ok_def)
  have v: "0 \<le> cvalue (fcounter fm) + 1" "cvalue (fcounter fm) + 1 < 2 ^ 63"
    using ok(1) assms(2) by (simp_all add: counter_ok_def)
  show ?thesis
    using Increment_spec [OF ok(1) minute_of_range [OF ok(2)] v] by (simp add: Apply_minute [OF assms(1)])
qed

interpretation counter_fsm: state_machine fsm_ok Apply
proof unfold_locales
  fix fm bs
  assume ok: "fsm_ok fm"
  have c: "counter_ok (fcounter fm)" "clock_ok (wall fm)" using ok by (simp_all add: fsm_ok_def)
  show "\<exists>fm' a. Apply fm bs = Ret fm' a \<and> fsm_ok fm'"
  proof (cases "cvalue (fcounter fm) = 2 ^ 63 - 1")
    case True
    then have "int64 (cvalue (fcounter fm) + 1) < 0" by (simp add: int64_def)
    then show ?thesis
      using c by (simp add: Apply_minute [OF ok] Increment_negative fsm_ok_def)
  next
    case False
    then have v: "0 \<le> cvalue (fcounter fm) + 1" "cvalue (fcounter fm) + 1 < 2 ^ 63"
      using c(1) by (auto simp: counter_ok_def)
    show ?thesis
      using Increment_spec [OF c(1) minute_of_range [OF c(2)] v]
        increment_spec_ok [OF c(1) minute_of_range [OF c(2)] v] c
      by (simp add: Apply_minute [OF ok] fsm_ok_def)
  qed
qed

definition Apply_all :: "bytes list \<Rightarrow> CounterFSM \<Rightarrow> (CounterFSM, unit) outcome" where
  "Apply_all cmds fm =
     foldl (\<lambda>m bs. bindO m (\<lambda>fm u. bindO (Apply fm bs) (\<lambda>fm a. Ret fm ()))) (Ret fm ()) cmds"

text \<open>
  C31. Applying any list of commands to a well-formed state machine returns: no command makes it panic
  or loop, whatever the wall clock says, and the state stays well-formed.
\<close>

theorem fsm_apply_total:
  assumes "fsm_ok fm"
  shows "\<exists>fm'. Apply_all cmds fm = Ret fm' () \<and> fsm_ok fm'"
  unfolding Apply_all_def by (rule counter_fsm.apply_all_returns [OF assms])

lemma NewFSM_ok: "clock_ok w \<Longrightarrow> fsm_ok (NewFSM w)"
  by (simp add: fsm_ok_def NewFSM_def NewCounter_ok)

theorem fsm_apply_total_witness:
  "\<exists>fm'. Apply_all [[97], [98], [97]] (NewFSM (\<lambda>n. (8, 20))) = Ret fm' () \<and> fsm_ok fm'"
  by (rule fsm_apply_total) (simp add: NewFSM_ok clock_ok_def)

lemma hash_97_98: "hashString [97] \<noteq> hashString [98]"
  by (simp add: hashString_def fnv64a_def)

lemma Apply_all_three:
  assumes "fsm_ok fm" and "cvalue (fcounter fm) + 2 < 2 ^ 63 - 1"
    and "c1 = increment_spec a 1 (minute_of (wall fm (readings fm))) (fcounter fm)"
    and "c2 = increment_spec b 1 (minute_of (wall fm (Suc (readings fm)))) c1"
    and "c3 = increment_spec d 1 (minute_of (wall fm (Suc (Suc (readings fm))))) c2"
  shows "\<exists>fm'. Apply_all [a, b, d] fm = Ret fm' () \<and> fcounter fm' = c3"
proof -
  have bound: "cvalue (increment_spec s 1 m c) \<le> cvalue c + 1" for s m c
    by (simp add: increment_spec_def Let_def)
  define f1 where "f1 = fm\<lparr>readings := Suc (readings fm), fcounter := c1\<rparr>"
  define f2 where "f2 = f1\<lparr>readings := Suc (readings f1), fcounter := c2\<rparr>"
  have v: "cvalue c1 \<le> cvalue (fcounter fm) + 1" "cvalue c2 \<le> cvalue c1 + 1"
    unfolding assms(3,4) by (rule bound)+
  have 1: "Apply fm a = Ret f1 (AnyBool True)"
    using Apply_spec [OF assms(1)] assms(2) by (simp add: f1_def assms(3))
  have ok1: "fsm_ok f1"
    using counter_fsm.apply_returns [OF assms(1), of a] 1 by auto
  have 2: "Apply f1 b = Ret f2 (AnyBool True)"
    using Apply_spec [OF ok1] v assms(2) by (simp add: f1_def f2_def assms(4))
  have ok2: "fsm_ok f2"
    using counter_fsm.apply_returns [OF ok1, of b] 2 by auto
  have "Apply f2 d = Ret (f2\<lparr>readings := Suc (readings f2), fcounter := c3\<rparr>) (AnyBool True)"
    using Apply_spec [OF ok2] v assms(2) by (simp add: f1_def f2_def assms(5))
  with 1 2 show ?thesis by (simp add: Apply_all_def)
qed

text \<open>
  C40. The state machine is not deterministic in its commands: two replicas that apply the same three
  commands at different times of day end with different values, because each reads its own clock.
\<close>

theorem fsm_replicas_diverge:
  "\<exists>fa fb. Apply_all [[97], [98], [97]] (NewFSM (\<lambda>n. (8, 20))) = Ret fa ()
      \<and> Apply_all [[97], [98], [97]]
           (NewFSM (\<lambda>n. if n = 0 then (8, 20) else if n = 1 then (1, 40) else (11, 40))) = Ret fb ()
      \<and> Retrieve (fcounter fa) = 2 \<and> Retrieve (fcounter fb) = 3"
proof -
  let ?wb = "\<lambda>n::nat. if n = 0 then (8, 20) else if n = 1 then (1, 40) else (11, 40) :: int \<times> int"
  define c1 where "c1 = increment_spec [97] 1 500 NewCounter"
  have c1: "present c1 = {hashString [97]}" "cvalue c1 = 1" "minute c1 = 500"
    "slots c1 = (replicate 1440 {})[500 := {hashString [97]}]"
    by (simp_all add: c1_def increment_spec_def NewCounter_def numberOfSlots_def Let_def)
  define a2 where "a2 = increment_spec [98] 1 500 c1"
  have a2: "present a2 = {hashString [97], hashString [98]}" "cvalue a2 = 2" "minute a2 = 500"
    using hash_97_98 by (auto simp: a2_def increment_spec_def c1 Let_def)
  have a3: "cvalue (increment_spec [97] 1 500 a2) = 2"
    by (simp add: increment_spec_def a2 Let_def)
  have fa: "\<exists>fa. Apply_all [[97], [98], [97]] (NewFSM (\<lambda>n. (8, 20))) = Ret fa ()
      \<and> fcounter fa = increment_spec [97] 1 500 a2"
    by (rule Apply_all_three [OF NewFSM_ok])
      (simp_all add: clock_ok_def NewFSM_def NewCounter_def [THEN arg_cong [of _ _ cvalue]]
        minute_of_def a2_def c1_def)
  define b2 where "b2 = increment_spec [98] 1 100 c1"
  have keep: "500 \<notin> expired 500 100" and drop: "500 \<in> expired 100 700"
    by (simp_all add: expired_def)
  have b2: "cvalue b2 = 2" "minute b2 = 100" "slots b2 ! 500 = {hashString [97]}" "length (slots b2) = 1440"
    using hash_97_98 keep by (auto simp: b2_def increment_spec_def expire_def c1 Let_def)
  have "hashString [97] \<notin> present (expire (expired 100 700) b2)"
    using drop b2(3) by (auto simp: expire_def)
  then have b3: "cvalue (increment_spec [97] 1 700 b2) = 3"
    by (simp add: increment_spec_def b2 Let_def)
  have fb: "\<exists>fb. Apply_all [[97], [98], [97]] (NewFSM ?wb) = Ret fb ()
      \<and> fcounter fb = increment_spec [97] 1 700 b2"
    by (rule Apply_all_three [OF NewFSM_ok])
      (simp_all add: clock_ok_def NewFSM_def NewCounter_def [THEN arg_cong [of _ _ cvalue]]
        minute_of_def b2_def c1_def)
  show ?thesis using fa fb a3 b3 by (auto simp: Retrieve_def)
qed

end
