(* ===== verification/Node.thy ===== *)
theory Node
  imports Go_Log Session Store Snapshot Config Counter
begin

text \<open>
  The state of one node and the part of \<^verbatim>\<open>internal/raft.go\<close> that no role depends on. The struct
  \<^verbatim>\<open>Raft\<close> is the record \<open>raft\<close>. Role objects live in a heap, because goroutines keep pointers to
  roles that have been replaced. A \<^verbatim>\<open>go\<close> statement appends to \<open>spawned\<close>; the remote calls those
  goroutines make, and what they do with the answers, are separate steps. A handler, a tick and the
  treatment of an answer hold the node's mutex from start to end, so each is one atomic step.
  Taking a snapshot and proposing release it in between, and have a definition per locked part; the
  applier of a leader holds it for the waiting proposals only, and is cut up in \<open>Applier\<close>.

  The parameter \<open>E\<close> holds the operations of the write-ahead log, of the state machine interface, and
  the depth of the goroutine stack.
\<close>

section \<open>Data\<close>

record FollowerRole =
  f_electionDeadline :: int
  f_electionTicks :: int

record CandidateRole =
  c_electionDeadline :: int
  c_electionTicks :: int
  c_majority :: nat
  c_nodes :: "gostring list"
  c_preVote :: bool
  c_preVotes :: nat
  c_votes :: nat

text \<open>
  \<open>l_applierCh\<close>: whether the one-place channel holds a token. \<open>l_applierStopped\<close>: whether the stop
  channel is closed. The maps that are only read with a zero default are total; \<open>l_pending\<close> lists
  the waiting channels per index.
\<close>

record LeaderRole =
  l_applierCh :: bool
  l_applierStopped :: bool
  l_heartbeatDeadline :: int
  l_heartbeatTicks :: int
  l_inflight :: "gostring \<Rightarrow> bool"
  l_lastAckTicks :: "gostring \<Rightarrow> int"
  l_leaderTicks :: int
  l_matchIndex :: "gostring \<Rightarrow> u64"
  l_nextIndex :: "gostring \<Rightarrow> u64"
  l_pending :: "(u64 \<times> nat list) list"

datatype role_obj = Follower FollowerRole | Candidate CandidateRole | Leader LeaderRole

datatype role_kind = KFollower | KCandidate | KLeader

fun GetType :: "role_obj \<Rightarrow> role_kind" where
  "GetType (Follower f) = KFollower"
| "GetType (Candidate c) = KCandidate"
| "GetType (Leader l) = KLeader"

text \<open>Started goroutines: the receiver of the method and its arguments.\<close>

datatype goroutine =
    SendPreVote nat gostring u64 gostring u64 u64
  | SendRequestVote nat gostring u64 gostring u64 u64
  | SendAppendEntries nat gostring u64 gostring u64 u64 "LogEntry list" u64
  | SendInstallSnapshot nat gostring u64 gostring
  | RunApplier nat

text \<open>A result channel of capacity one.\<close>

record chan =
  ch_buf :: "any list"
  ch_closed :: bool

record ('l, 's) raft =
  config :: Config
  dataDir :: gostring
  enabled :: bool
  fsm :: 's
  healthy :: bool
  nid :: gostring
  wal :: 'l
  nodes :: "gostring list"
  rgen :: rng
  role :: "nat option"
  roleEpoch :: u64
  snapshotIndex :: u64
  snapshotTerm :: u64
  sessions :: SessionTable
  store :: store
  shutdownClosed :: bool
  heap :: "nat \<Rightarrow> role_obj option"
  nextPtr :: nat
  chans :: "nat \<Rightarrow> chan option"
  nextChan :: nat
  spawned :: "goroutine list"
  fdisk :: disk

record ('l, 's) env = "'l golog" +
  fsmApply :: "'s \<Rightarrow> bytes \<Rightarrow> ('s, any) outcome"
  fsmSnapshot :: "'s \<Rightarrow> bytes option"
  fsmRestore :: "'s \<Rightarrow> bytes \<Rightarrow> bool \<times> 's"
  stackDepth :: nat

type_synonym ('l, 's, 'a) step = "('l, 's) raft \<Rightarrow> (('l, 's) raft, 'a) outcome"

section \<open>Access to the heap and the disk\<close>

definition role_kind_of :: "('l, 's) raft \<Rightarrow> role_kind option" where
  "role_kind_of r =
     (case role r of None \<Rightarrow> None | Some p \<Rightarrow> map_option GetType (heap r p))"

definition alloc :: "role_obj \<Rightarrow> ('l, 's) raft \<Rightarrow> nat \<times> ('l, 's) raft" where
  "alloc ob r = (nextPtr r, r\<lparr>heap := (heap r)(nextPtr r \<mapsto> ob), nextPtr := Suc (nextPtr r)\<rparr>)"

definition upd_follower :: "nat \<Rightarrow> (FollowerRole \<Rightarrow> FollowerRole) \<Rightarrow> ('l, 's) raft \<Rightarrow> ('l, 's) raft" where
  "upd_follower p g r =
     (case heap r p of Some (Follower f) \<Rightarrow> r\<lparr>heap := (heap r)(p \<mapsto> Follower (g f))\<rparr> | _ \<Rightarrow> r)"

definition upd_candidate :: "nat \<Rightarrow> (CandidateRole \<Rightarrow> CandidateRole) \<Rightarrow> ('l, 's) raft \<Rightarrow> ('l, 's) raft" where
  "upd_candidate p g r =
     (case heap r p of Some (Candidate c) \<Rightarrow> r\<lparr>heap := (heap r)(p \<mapsto> Candidate (g c))\<rparr> | _ \<Rightarrow> r)"

definition upd_leader :: "nat \<Rightarrow> (LeaderRole \<Rightarrow> LeaderRole) \<Rightarrow> ('l, 's) raft \<Rightarrow> ('l, 's) raft" where
  "upd_leader p g r =
     (case heap r p of Some (Leader l) \<Rightarrow> r\<lparr>heap := (heap r)(p \<mapsto> Leader (g l))\<rparr> | _ \<Rightarrow> r)"

definition go :: "goroutine \<Rightarrow> ('l, 's) raft \<Rightarrow> ('l, 's) raft" where
  "go g r = r\<lparr>spawned := spawned r @ [g]\<rparr>"

definition upd_store :: "(store \<Rightarrow> store) \<Rightarrow> ('l, 's) raft \<Rightarrow> ('l, 's) raft" where
  "upd_store g r = r\<lparr>store := g (store r)\<rparr>"

text \<open>A store method that persists, run on the node's store and disk.\<close>

definition on_store :: "(store \<Rightarrow> disk \<Rightarrow> 'e \<times> store \<times> disk) \<Rightarrow> ('l, 's) raft \<Rightarrow> 'e \<times> ('l, 's) raft" where
  "on_store g r = (case g (store r) (fdisk r) of (e, s', d') \<Rightarrow> (e, r\<lparr>store := s', fdisk := d'\<rparr>))"

definition snapshotPath :: "('l, 's) raft \<Rightarrow> gostring" where
  "snapshotPath r = dataDir r @ [47, 115, 110, 97, 112, 115, 104, 111, 116, 46, 100, 97, 116, 97]"

text \<open>Closing a channel twice panics.\<close>

definition close_chan :: "nat \<Rightarrow> ('l, 's, unit) step" where
  "close_chan c r =
     (case chans r c of
        None \<Rightarrow> Panic r
      | Some ch \<Rightarrow> if ch_closed ch then Panic r
                   else Ret (r\<lparr>chans := (chans r)(c \<mapsto> ch\<lparr>ch_closed := True\<rparr>)\<rparr>) ())"

primrec close_chans :: "nat list \<Rightarrow> ('l, 's, unit) step" where
  "close_chans [] r = Ret r ()"
| "close_chans (c # cs) r = bindO (close_chan c r) (\<lambda>r u. close_chans cs r)"

section \<open>Leaving a role\<close>

primrec drain_pending :: "nat \<Rightarrow> (u64 \<times> nat list) list \<Rightarrow> ('l, 's, unit) step" where
  "drain_pending p [] r = Ret r ()"
| "drain_pending p (iw # rest) r =
     bindO (close_chans (snd iw) r)
       (\<lambda>r u. drain_pending p rest
          (upd_leader p (\<lambda>l. l\<lparr>l_pending := filter (\<lambda>jw. fst jw \<noteq> fst iw) (l_pending l)\<rparr>) r))"

definition stopApplier :: "nat \<Rightarrow> ('l, 's, unit) step" where
  "stopApplier p r =
     (case heap r p of
        Some (Leader l) \<Rightarrow>
          if l_applierStopped l then Panic r
          else Ret (upd_leader p (\<lambda>l. l\<lparr>l_applierStopped := True\<rparr>) r) ()
      | _ \<Rightarrow> Panic r)"

definition OnExit :: "nat \<Rightarrow> ('l, 's, unit) step" where
  "OnExit p r =
     (case heap r p of
        Some (Leader l) \<Rightarrow> bindO (stopApplier p r) (\<lambda>r u. drain_pending p (l_pending l) r)
      | Some _ \<Rightarrow> Ret r ()
      | None \<Rightarrow> Panic r)"

definition exit_role :: "('l, 's, unit) step" where
  "exit_role r = (case role r of None \<Rightarrow> Ret r () | Some p \<Rightarrow> OnExit p r)"

definition markUnhealthy :: "('l, 's, unit) step" where
  "markUnhealthy r = exit_role (r\<lparr>healthy := False, enabled := False\<rparr>)"

section \<open>Becoming a follower\<close>

definition NewFollowerRole :: "('l, 's, nat) step" where
  "NewFollowerRole r =
     (case electionDeadline_of (config r) (rgen r) of
        None \<Rightarrow> Panic r
      | Some (k, g) \<Rightarrow>
          (case alloc (Follower \<lparr>f_electionDeadline = k, f_electionTicks = 0\<rparr>) (r\<lparr>rgen := g\<rparr>) of
             (p, r') \<Rightarrow> Ret r' p))"

definition Follower_OnEnter :: "u64 \<Rightarrow> ('l, 's, unit) step" where
  "Follower_OnEnter term r =
     (if term > currentTerm (store r)
      then case on_store (SetCurrentTermAndVotedFor term []) r of
             (Some err, r1) \<Rightarrow> markUnhealthy r1
           | (None, r1) \<Rightarrow> Ret (upd_store (SetLeaderId []) r1) ()
      else Ret (upd_store (SetLeaderId []) r) ())"

definition becomeFollower :: "u64 \<Rightarrow> ('l, 's, nat) step" where
  "becomeFollower term r =
     bindO (exit_role r) (\<lambda>r u.
     bindO (NewFollowerRole (r\<lparr>roleEpoch := roleEpoch r + 1\<rparr>)) (\<lambda>r p.
     bindO (Follower_OnEnter term (r\<lparr>role := Some p\<rparr>)) (\<lambda>r u. Ret r p)))"

section \<open>Log positions and the commit index\<close>

definition getLastLogEntryIndexAndTerm :: "('l, 's) env \<Rightarrow> ('l, 's) raft \<Rightarrow> u64 \<times> u64" where
  "getLastLogEntryIndexAndTerm E r =
     (case GetLastLogEntryIndexAndTerm E (wal r) of (index, term) \<Rightarrow>
        if index > 0 then (index, term) else (snapshotIndex r, snapshotTerm r))"

definition isLogEqualOrMoreRecent :: "('l, 's) env \<Rightarrow> ('l, 's) raft \<Rightarrow> u64 \<Rightarrow> u64 \<Rightarrow> bool" where
  "isLogEqualOrMoreRecent E r index term =
     (case getLastLogEntryIndexAndTerm E r of (myIndex, myTerm) \<Rightarrow>
        if term > myTerm then True
        else if term = myTerm \<and> index \<ge> myIndex then True
        else False)"

text \<open>The index is changed only under the mutex, so the compare-and-swap succeeds at once.\<close>

definition setCommitIndex :: "('l, 's) env \<Rightarrow> u64 \<Rightarrow> ('l, 's) raft \<Rightarrow> ('l, 's) raft" where
  "setCommitIndex E ci r =
     (case gl_GetLastIndex E (wal r) of (lastLogEntryIndex, ok) \<Rightarrow>
        if \<not> ok \<or> lastLogEntryIndex = 0 then r
        else let ci = (if ci > lastLogEntryIndex then lastLogEntryIndex else ci) in
             if ci \<le> commitIndex (store r) then r
             else upd_store (\<lambda>s. s\<lparr>commitIndex := ci\<rparr>) r)"

section \<open>Applying committed entries\<close>

text \<open>
  An entry without data changes nothing, a duplicate of a session gives the cached result, anything
  else goes to the state machine. The source has this body three times: in the leader's applier,
  which answers with the result (\<open>apply_command\<close>), in the follower's loop (\<open>follower_command\<close>), and
  in the recovery of a starting node (\<open>replay_command\<close> in \<open>Raft\<close>).
\<close>

definition run_machine :: "('l, 's) env \<Rightarrow> bytes \<Rightarrow> ('l, 's, any) step" where
  "run_machine E bs r =
     (case fsmApply E (fsm r) bs of
        Ret s a \<Rightarrow> Ret (r\<lparr>fsm := s\<rparr>) a
      | Panic s \<Rightarrow> Panic (r\<lparr>fsm := s\<rparr>)
      | NoReturn \<Rightarrow> NoReturn)"

definition apply_command :: "('l, 's) env \<Rightarrow> LogEntry \<Rightarrow> ('l, 's, any) step" where
  "apply_command E e r =
     (if Data e = [] then Ret r AnyNil
      else if ClientId e \<noteq> []
      then (case IsDuplicate (sessions r) (ClientId e) (SequenceNumber e) of
              (True, cached) \<Rightarrow> Ret r cached
            | (False, _) \<Rightarrow>
                bindO (run_machine E (Data e) r) (\<lambda>r result.
                  Ret (r\<lparr>sessions := Record (sessions r) (ClientId e) (SequenceNumber e) result\<rparr>) result))
      else run_machine E (Data e) r)"

definition follower_command :: "('l, 's) env \<Rightarrow> LogEntry \<Rightarrow> ('l, 's, unit) step" where
  "follower_command E e r =
     (if Data e \<noteq> []
      then if ClientId e \<noteq> []
           then case IsDuplicate (sessions r) (ClientId e) (SequenceNumber e) of
                  (isDup, _) \<Rightarrow>
                    if \<not> isDup
                    then bindO (run_machine E (Data e) r) (\<lambda>r result.
                           Ret (r\<lparr>sessions := Record (sessions r) (ClientId e) (SequenceNumber e) result\<rparr>) ())
                    else Ret r ()
           else bindO (run_machine E (Data e) r) (\<lambda>r result. Ret r ())
      else Ret r ())"

text \<open>
  \<open>apply_loop E n idx\<close>: up to \<open>n\<close> iterations of the follower's loop from index \<open>idx\<close>; an unreadable
  entry ends it.
\<close>

primrec apply_loop :: "('l, 's) env \<Rightarrow> nat \<Rightarrow> u64 \<Rightarrow> ('l, 's, unit) step" where
  "apply_loop E 0 idx r = Ret r ()"
| "apply_loop E (Suc n) idx r =
     (case gl_Read E (wal r) idx of
        None \<Rightarrow> Ret r ()
      | Some bs \<Rightarrow>
          (case DeserializeLogEntry bs of
             Inl e \<Rightarrow> Ret r ()
           | Inr logEntry \<Rightarrow>
               bindO (follower_command E logEntry r) (\<lambda>r u.
                 apply_loop E n (idx + 1) (upd_store (\<lambda>s. s\<lparr>lastApplied := idx\<rparr>) r))))"

text \<open>The follower's copy does what the leader's does, without the result.\<close>

lemma follower_command_eq: "follower_command E e r = bindO (apply_command E e r) (\<lambda>r a. Ret r ())"
  by (auto simp: follower_command_def apply_command_def bindO_assoc split: prod.splits bool.splits)

lemma apply_loop_Suc:
  "apply_loop E (Suc n) idx r =
     (case gl_Read E (wal r) idx of
        None \<Rightarrow> Ret r ()
      | Some bs \<Rightarrow>
          (case DeserializeLogEntry bs of
             Inl e \<Rightarrow> Ret r ()
           | Inr logEntry \<Rightarrow>
               bindO (apply_command E logEntry r) (\<lambda>r a.
                 apply_loop E n (idx + 1) (upd_store (\<lambda>s. s\<lparr>lastApplied := idx\<rparr>) r))))"
  by (simp add: follower_command_eq bindO_assoc split: option.splits sum.splits)

declare apply_loop.simps(2) [simp del] apply_loop_Suc [simp]

definition applyToFiniteStateMachine_follower :: "('l, 's) env \<Rightarrow> ('l, 's, unit) step" where
  "applyToFiniteStateMachine_follower E r =
     (let ci = commitIndex (store r); la = lastApplied (store r) in
      if ci \<le> la then Ret r ()
      else apply_loop E (unat ci - unat la) (la + 1) r)"

section \<open>Snapshots\<close>

definition resetLog :: "('l, 's) env \<Rightarrow> u64 \<Rightarrow> ('l, 's) raft \<Rightarrow> ('l, 's) raft" where
  "resetLog E startIndex r =
     r\<lparr>wal := gl_Load E (gl_ReplaceSegments E (snd (gl_TruncateFrom E (wal r) 1)) startIndex)\<rparr>"

definition raise_to :: "u64 \<Rightarrow> store \<Rightarrow> store" where
  "raise_to i s =
     (let s1 = (if commitIndex s < i then s\<lparr>commitIndex := i\<rparr> else s) in
      if lastApplied s1 < i then s1\<lparr>lastApplied := i\<rparr> else s1)"

datatype install_error = InstallSave snapshot_error | InstallRestore

definition installSnapshot ::
  "('l, 's) env \<Rightarrow> u64 \<Rightarrow> u64 \<Rightarrow> bytes \<Rightarrow> ('l, 's) raft \<Rightarrow> install_error option \<times> ('l, 's) raft" where
  "installSnapshot E lastIncludedIndex lastIncludedTerm bs r =
     (case SaveSnapshot (snapshotPath r)
             \<lparr>LastIncludedIndex = lastIncludedIndex, LastIncludedTerm = lastIncludedTerm, SnapData = bs\<rparr>
             (fdisk r) of
        (Some err, d) \<Rightarrow> (Some (InstallSave err), r\<lparr>fdisk := d\<rparr>)
      | (None, d) \<Rightarrow>
          (case fsmRestore E (fsm r) bs of
             (False, s) \<Rightarrow> (Some InstallRestore, r\<lparr>fdisk := d, fsm := s\<rparr>)
           | (True, s) \<Rightarrow>
               let r1 = upd_store (raise_to lastIncludedIndex)
                          (r\<lparr>fdisk := d, fsm := s, snapshotIndex := lastIncludedIndex,
                             snapshotTerm := lastIncludedTerm\<rparr>);
                   lastLogEntryIndex = fst (gl_GetLastIndex E (wal r1)) in
               (None,
                if lastLogEntryIndex > 0 \<and> lastLogEntryIndex \<le> lastIncludedIndex
                then resetLog E (lastIncludedIndex + 1) r1
                else if lastLogEntryIndex > lastIncludedIndex
                then r1\<lparr>wal := gl_TruncateTo E (wal r1) lastIncludedIndex\<rparr>
                else r1)))"

datatype take_error = TakeRead | TakeDeserialize entry_error | TakeFSM | TakeSave snapshot_error

text \<open>Phase 1 of \<open>TakeSnapshot\<close>, under the lock: nothing to do, an error, or the snapshot.\<close>

definition TakeSnapshot_capture :: "('l, 's) env \<Rightarrow> ('l, 's) raft \<Rightarrow> take_error + Snapshot option" where
  "TakeSnapshot_capture E r =
     (let la = lastApplied (store r) in
      if la \<le> snapshotIndex r then Inr None
      else if la - snapshotIndex r < SnapshotThreshold (config r) then Inr None
      else
        let finish = (\<lambda>term.
              case fsmSnapshot E (fsm r) of
                None \<Rightarrow> Inl TakeFSM
              | Some bs \<Rightarrow> Inr (Some \<lparr>LastIncludedIndex = la, LastIncludedTerm = term, SnapData = bs\<rparr>)) in
        if la = snapshotIndex r then finish (snapshotTerm r)
        else case gl_Read E (wal r) la of
               None \<Rightarrow> Inl TakeRead
             | Some raw \<Rightarrow> (case DeserializeLogEntry raw of
                             Inl e \<Rightarrow> Inl (TakeDeserialize e)
                           | Inr logEntry \<Rightarrow> finish (Term logEntry)))"

text \<open>Phase 3, under the lock again: advance unless a newer snapshot was installed meanwhile.\<close>

definition TakeSnapshot_finish :: "('l, 's) env \<Rightarrow> Snapshot \<Rightarrow> ('l, 's) raft \<Rightarrow> ('l, 's) raft" where
  "TakeSnapshot_finish E snap r =
     (if LastIncludedIndex snap > snapshotIndex r
      then let r1 = r\<lparr>snapshotIndex := LastIncludedIndex snap, snapshotTerm := LastIncludedTerm snap\<rparr> in
           if fst (gl_GetLastIndex E (wal r1)) > snapshotIndex r1
           then r1\<lparr>wal := gl_TruncateTo E (wal r1) (snapshotIndex r1)\<rparr>
           else r1
      else r)"

text \<open>The three phases with no other step between them.\<close>

definition TakeSnapshot :: "('l, 's) env \<Rightarrow> ('l, 's) raft \<Rightarrow> take_error option \<times> ('l, 's) raft" where
  "TakeSnapshot E r =
     (case TakeSnapshot_capture E r of
        Inl e \<Rightarrow> (Some e, r)
      | Inr None \<Rightarrow> (None, r)
      | Inr (Some snap) \<Rightarrow>
          (case SaveSnapshot (snapshotPath r) snap (fdisk r) of
             (Some e, d) \<Rightarrow> (Some (TakeSave e), r\<lparr>fdisk := d\<rparr>)
           | (None, d) \<Rightarrow> (None, TakeSnapshot_finish E snap (r\<lparr>fdisk := d\<rparr>))))"

end
