(* ===== verification/Frame.thy ===== *)
theory Frame
  imports Node
begin

text \<open>
  What a step of a node keeps. \<open>kept\<close> is the relation between the states before and after any
  step: the identity of the node, a term and a commit index that do not decrease, a vote that does
  not change within a term, and agreement of the store with its file. \<open>frame\<close> adds that the step
  takes no part in an election of its own node: it sends no vote request, changes no candidate and
  does not make the node a leader. Both are preorders, so that a method keeps what the steps it is
  made of keep.
\<close>

section \<open>The relations\<close>

definition advances :: "store \<Rightarrow> store \<Rightarrow> bool" where
  "advances s s' \<longleftrightarrow>
     storeName s' = storeName s
     \<and> currentTerm s \<le> currentTerm s'
     \<and> (currentTerm s' = currentTerm s \<longrightarrow> votedFor s \<noteq> [] \<longrightarrow> votedFor s' = votedFor s)
     \<and> commitIndex s \<le> commitIndex s'"

text \<open>The store's file holds the term and the vote, or does not exist yet.\<close>

definition on_disk :: "('l, 's) raft \<Rightarrow> bool" where
  "on_disk r \<longleftrightarrow>
     storeName (store r) \<noteq> snapshotPath r \<and> storeName (store r) \<noteq> snapshotPath r @ tmp_suffix
     \<and> (persisted (store r) (fdisk r)
        \<or> files (fdisk r) (storeName (store r)) = None \<and> currentTerm (store r) = 0 \<and> votedFor (store r) = [])"

definition kept :: "('l, 's) raft \<Rightarrow> ('l, 's) raft \<Rightarrow> bool" where
  "kept r r' \<longleftrightarrow>
     nid r' = nid r \<and> nodes r' = nodes r \<and> config r' = config r \<and> dataDir r' = dataDir r
     \<and> advances (store r) (store r') \<and> nextPtr r \<le> nextPtr r' \<and> (on_disk r \<longrightarrow> on_disk r')"

definition leads :: "('l, 's) raft \<Rightarrow> bool" where
  "leads r \<longleftrightarrow> role_kind_of r = Some KLeader"

text \<open>The candidacies a node has started, and the vote requests it has not sent yet.\<close>

definition candidacy :: "('l, 's) raft \<Rightarrow> nat \<Rightarrow> (bool \<times> nat \<times> nat \<times> gostring list) option" where
  "candidacy r p =
     (case heap r p of
        Some (Candidate c) \<Rightarrow> Some (c_preVote c, c_votes c, c_majority c, c_nodes c)
      | _ \<Rightarrow> None)"

fun is_vote_request :: "goroutine \<Rightarrow> bool" where
  "is_vote_request (SendRequestVote p n t c i lt) = True"
| "is_vote_request _ = False"

definition vote_requests :: "('l, 's) raft \<Rightarrow> goroutine list" where
  "vote_requests r = filter is_vote_request (spawned r)"

definition frame :: "('l, 's) raft \<Rightarrow> ('l, 's) raft \<Rightarrow> bool" where
  "frame r r' \<longleftrightarrow>
     kept r r' \<and> vote_requests r' = vote_requests r
     \<and> (\<forall>p. candidacy r' p = None \<or> candidacy r' p = candidacy r p)
     \<and> (leads r' \<longrightarrow> leads r \<and> currentTerm (store r') = currentTerm (store r))"

section \<open>Preorders\<close>

lemma advances_refl [simp]: "advances s s"
  by (simp add: advances_def)

lemma advances_trans: "advances a b \<Longrightarrow> advances b c \<Longrightarrow> advances a c"
  unfolding advances_def by (metis order_antisym order_trans)

lemma kept_refl [simp]: "kept r r"
  by (simp add: kept_def)

lemma kept_trans [trans]: "kept a b \<Longrightarrow> kept b c \<Longrightarrow> kept a c"
  unfolding kept_def using advances_trans by (metis order_trans)

lemma frame_refl [simp]: "frame r r"
  by (simp add: frame_def)

lemma frame_trans [trans]: "frame a b \<Longrightarrow> frame b c \<Longrightarrow> frame a c"
  unfolding frame_def using kept_trans by metis

lemma frame_kept: "frame r r' \<Longrightarrow> kept r r'"
  by (simp add: frame_def)

text \<open>The interface of a preorder on states, and what it gives for sequences of steps.\<close>

locale step_preorder =
  fixes R :: "'r \<Rightarrow> 'r \<Rightarrow> bool"
  assumes R_refl: "R r r" and R_trans: "R a b \<Longrightarrow> R b c \<Longrightarrow> R a c"
begin

lemma ret: "on_states (R r) (Ret r a)"
  by (simp add: R_refl)

lemma panic: "on_states (R r) (Panic r)"
  by (simp add: R_refl)

lemma bind:
  assumes "on_states (R r) m" and "\<And>r1 a. R r r1 \<Longrightarrow> m = Ret r1 a \<Longrightarrow> on_states (R r1) (f r1 a)"
  shows "on_states (R r) (bindO m f)"
  using assms by (cases m) (auto intro: on_states_mono R_trans)

lemma via: "R r r1 \<Longrightarrow> on_states (R r1) m \<Longrightarrow> on_states (R r) m"
  by (erule on_states_mono) (auto intro: R_trans)

end

interpretation kept: step_preorder kept
  by unfold_locales (auto intro: kept_trans)

interpretation frame: step_preorder frame
  by unfold_locales (auto intro: frame_trans)

lemma on_states_frame_kept: "on_states (frame r) m \<Longrightarrow> on_states (kept r) m"
  by (erule on_states_mono) (rule frame_kept)

section \<open>Elementary steps\<close>

text \<open>The parts of the state that the relations read.\<close>

lemma frameI:
  assumes "nid r' = nid r" "nodes r' = nodes r" "config r' = config r" "dataDir r' = dataDir r"
    and "advances (store r) (store r')" and "nextPtr r' = nextPtr r" and "on_disk r \<Longrightarrow> on_disk r'"
    and "spawned r' = spawned r" and "\<And>p. candidacy r' p = candidacy r p"
    and "role_kind_of r' = role_kind_of r" and "currentTerm (store r') = currentTerm (store r)"
  shows "frame r r'"
  using assms by (simp add: frame_def kept_def vote_requests_def leads_def)

lemma frame_sameI:
  assumes "nid r' = nid r" "nodes r' = nodes r" "config r' = config r" "dataDir r' = dataDir r"
    and "advances (store r) (store r')" and "nextPtr r' = nextPtr r" and "on_disk r \<Longrightarrow> on_disk r'"
    and "spawned r' = spawned r" and "role r' = role r" "heap r' = heap r"
    and "currentTerm (store r') = currentTerm (store r)"
  shows "frame r r'"
  using assms by (intro frameI) (simp_all add: candidacy_def role_kind_of_def split: option.splits)

lemma on_disk_irrelevant:
  assumes "storeName (store r') = storeName (store r)" "dataDir r' = dataDir r"
    and "currentTerm (store r') = currentTerm (store r)" "votedFor (store r') = votedFor (store r)"
    and "files (fdisk r') (storeName (store r)) = files (fdisk r) (storeName (store r))"
  shows "on_disk r \<Longrightarrow> on_disk r'"
  using assms by (simp add: on_disk_def snapshotPath_def persisted_def)

text \<open>Updates of the fields that the relations do not read.\<close>

lemma frame_fields [simp, intro]:
  "frame r (r\<lparr>enabled := b\<rparr>)" "frame r (r\<lparr>healthy := b\<rparr>)" "frame r (r\<lparr>healthy := b, enabled := b'\<rparr>)"
  "frame r (r\<lparr>fsm := m\<rparr>)" "frame r (r\<lparr>wal := w\<rparr>)" "frame r (r\<lparr>rgen := g\<rparr>)"
  "frame r (r\<lparr>roleEpoch := e\<rparr>)" "frame r (r\<lparr>snapshotIndex := i\<rparr>)" "frame r (r\<lparr>snapshotTerm := i\<rparr>)"
  "frame r (r\<lparr>sessions := ss\<rparr>)" "frame r (r\<lparr>shutdownClosed := b\<rparr>)" "frame r (r\<lparr>chans := cs\<rparr>)"
  "frame r (r\<lparr>chans := cs, nextChan := n\<rparr>)"
  by (rule frame_sameI; simp add: on_disk_def snapshotPath_def)+

lemma frame_store:
  assumes "advances (store r) s" "currentTerm s = currentTerm (store r)" "votedFor s = votedFor (store r)"
  shows "frame r (r\<lparr>store := s\<rparr>)"
  using assms by (intro frame_sameI on_disk_irrelevant [of "r\<lparr>store := s\<rparr>" r])
    (simp_all add: advances_def)

lemma frame_upd_store [simp, intro]:
  "frame r (upd_store (SetLeaderId l) r)" "frame r (upd_store (\<lambda>s. s\<lparr>lastApplied := i\<rparr>) r)"
  "frame r (upd_store (raise_to i) r)"
  unfolding upd_store_def
  by (rule frame_store; auto simp: advances_def SetLeaderId_def raise_to_def Let_def)+

lemma frame_roles [simp, intro]:
  "frame r (upd_leader p g r)" "frame r (upd_follower p h r)"
  unfolding upd_leader_def upd_follower_def
  by (auto intro!: frameI simp: candidacy_def role_kind_of_def on_disk_def snapshotPath_def
      split: option.splits role_obj.splits)

lemma frame_go [simp]: "\<not> is_vote_request g \<Longrightarrow> frame r (go g r)"
  by (auto simp: frame_def kept_def go_def vote_requests_def candidacy_def leads_def role_kind_of_def
      on_disk_def snapshotPath_def split: option.splits)

lemma frame_setCommitIndex [simp, intro]: "frame r (setCommitIndex E ci r)"
proof -
  have "frame r (upd_store (\<lambda>s. s\<lparr>commitIndex := i\<rparr>) r)" if "\<not> i \<le> commitIndex (store r)" for i
    unfolding upd_store_def using that by (intro frame_store) (auto simp: advances_def)
  then show ?thesis by (auto simp: setCommitIndex_def Let_def split: prod.splits)
qed

lemma frame_fdisk:
  "(on_disk r \<Longrightarrow> files d (storeName (store r)) = files (fdisk r) (storeName (store r))) \<Longrightarrow>
     frame r (r\<lparr>fdisk := d\<rparr>)"
  by (rule frame_sameI) (auto simp: on_disk_def persisted_def snapshotPath_def)

lemma frame_SaveSnapshot [intro]:
  "SaveSnapshot (snapshotPath r) snap (fdisk r) = (e, d) \<Longrightarrow> frame r (r\<lparr>fdisk := d\<rparr>)"
  using SaveSnapshot_other [of "storeName (store r)" "snapshotPath r" snap "fdisk r"]
  by (intro frame_fdisk) (auto simp: on_disk_def)

lemma frame_LoadSnapshot [intro]:
  "LoadSnapshot (snapshotPath r) (fdisk r) = (e, d) \<Longrightarrow> frame r (r\<lparr>fdisk := d\<rparr>)"
  using LoadSnapshot_files [of "snapshotPath r" "fdisk r"] by (intro frame_fdisk) simp

lemma kept_on_store:
  assumes "r' = r\<lparr>store := s', fdisk := d'\<rparr>" and "advances (store r) s'"
    and "persisted s' d' \<or> s' = store r \<and> files d' (storeName (store r)) = files (fdisk r) (storeName (store r))"
  shows "kept r r'"
  using assms by (auto simp: kept_def on_disk_def persisted_def advances_def snapshotPath_def)

lemma on_store_role:
  assumes "on_store g r = (e, r')"
  shows "candidacy r' p = candidacy r p" "vote_requests r' = vote_requests r" "leads r' = leads r"
    "role r' = role r" "heap r' = heap r"
  using assms by (auto simp: on_store_def candidacy_def vote_requests_def leads_def role_kind_of_def
      split: prod.splits option.splits)

lemma kept_SetVotedFor:
  assumes "on_store (SetVotedFor v) r = (e, r')" and "votedFor (store r) = [] \<or> votedFor (store r) = v"
  shows "kept r r'" "currentTerm (store r') = currentTerm (store r)"
    "e = None \<Longrightarrow> votedFor (store r') = v \<and> persisted (store r') (fdisk r')"
proof -
  obtain s' d' where sv: "SetVotedFor v (store r) (fdisk r) = (e, s', d')"
    and r': "r' = r\<lparr>store := s', fdisk := d'\<rparr>"
    using assms(1) by (auto simp: on_store_def split: prod.splits)
  note c = SetVotedFor_cases [OF sv]
  show "kept r r'" by (rule c; rule kept_on_store [OF r']) (use assms(2) in \<open>auto simp: advances_def\<close>)
  show "currentTerm (store r') = currentTerm (store r)" by (rule c) (simp_all add: r')
  show "e = None \<Longrightarrow> votedFor (store r') = v \<and> persisted (store r') (fdisk r')"
    by (rule c) (simp_all add: r')
qed

lemma frame_SetVotedFor:
  "on_store (SetVotedFor v) r = (e, r') \<Longrightarrow> votedFor (store r) = [] \<or> votedFor (store r) = v \<Longrightarrow> frame r r'"
  by (simp add: frame_def kept_SetVotedFor on_store_role)

lemma kept_SetTerm:
  assumes "on_store (SetCurrentTermAndVotedFor t v) r = (e, r')" and "currentTerm (store r) < t"
  shows "kept r r'" "e \<noteq> None \<Longrightarrow> store r' = store r"
    "e = None \<Longrightarrow> currentTerm (store r') = t \<and> votedFor (store r') = v"
proof -
  obtain s' d' where sv: "SetCurrentTermAndVotedFor t v (store r) (fdisk r) = (e, s', d')"
    and r': "r' = r\<lparr>store := s', fdisk := d'\<rparr>"
    using assms(1) by (auto simp: on_store_def split: prod.splits)
  note c = SetCurrentTermAndVotedFor_cases [OF sv]
  show "kept r r'" by (rule c; rule kept_on_store [OF r']) (use assms(2) in \<open>auto simp: advances_def\<close>)
  show "e \<noteq> None \<Longrightarrow> store r' = store r" by (rule c) (simp_all add: r')
  show "e = None \<Longrightarrow> currentTerm (store r') = t \<and> votedFor (store r') = v" by (rule c) (simp_all add: r')
qed

lemma frame_SetTerm:
  assumes "on_store (SetCurrentTermAndVotedFor t v) r = (e, r')" and "currentTerm (store r) < t"
    and "\<not> leads r"
  shows "frame r r'"
  using assms kept_SetTerm(1) [OF assms(1,2)] by (simp add: frame_def on_store_role)

section \<open>Leaving a role and becoming a follower\<close>

lemma frame_close_chans: "on_states (frame r) (close_chans cs r)"
proof (induction cs arbitrary: r)
  case (Cons c cs)
  have "on_states (frame r) (close_chan c r)"
    by (auto simp: close_chan_def split: option.splits)
  then show ?case using Cons by (auto intro: frame.bind)
qed simp

lemma frame_drain: "on_states (frame r) (drain_pending p ps r)"
proof (induction ps arbitrary: r)
  case (Cons a ps)
  then show ?case by (auto intro!: frame.bind frame_close_chans intro: frame.via)
qed simp

lemma frame_OnExit: "on_states (frame r) (OnExit p r)"
proof -
  have "on_states (frame r) (stopApplier p r)"
    by (auto simp: stopApplier_def split: option.splits role_obj.splits)
  then show ?thesis
    by (auto simp: OnExit_def intro!: frame.bind frame_drain split: option.splits role_obj.splits)
qed

lemma frame_exit_role: "on_states (frame r) (exit_role r)"
  by (auto simp: exit_role_def frame_OnExit split: option.splits)

lemma frame_markUnhealthy: "on_states (frame r) (markUnhealthy r)"
  unfolding markUnhealthy_def
  by (rule frame.via [OF _ frame_exit_role]) simp

lemma NewFollowerRole_eq:
  "NewFollowerRole r =
     (case electionDeadline_of (config r) (rgen r) of
        None \<Rightarrow> Panic r
      | Some (k, g) \<Rightarrow>
          Ret (r\<lparr>rgen := g, heap := (heap r)(nextPtr r \<mapsto> Follower \<lparr>f_electionDeadline = k, f_electionTicks = 0\<rparr>),
                 nextPtr := Suc (nextPtr r)\<rparr>) (nextPtr r))"
  by (simp add: NewFollowerRole_def alloc_def split: option.splits)

lemma frame_enter_follower:
  assumes "NewFollowerRole r = Ret r1 p"
  shows "frame r (r1\<lparr>role := Some p\<rparr>) \<and> \<not> leads (r1\<lparr>role := Some p\<rparr>)"
  using assms by (auto simp: NewFollowerRole_eq frame_def kept_def vote_requests_def candidacy_def
      leads_def role_kind_of_def on_disk_def snapshotPath_def split: option.splits if_splits)

lemma frame_Follower_OnEnter: "\<not> leads r \<Longrightarrow> on_states (frame r) (Follower_OnEnter t r)"
  unfolding Follower_OnEnter_def
  by (auto intro!: frame.via [OF _ frame_markUnhealthy] intro: frame_SetTerm frame_trans [OF frame_SetTerm]
      split: prod.splits option.splits)

lemma frame_becomeFollower: "on_states (frame r) (becomeFollower t r)"
proof -
  have "on_states (frame r) (bindO (NewFollowerRole r)
      (\<lambda>r p. bindO (Follower_OnEnter t (r\<lparr>role := Some p\<rparr>)) (\<lambda>r u. Ret r p)))" for r :: "('l, 's) raft"
  proof (cases "NewFollowerRole r")
    case (Ret r1 p)
    note enter = frame_enter_follower [OF Ret]
    have "on_states (frame r) (Follower_OnEnter t (r1\<lparr>role := Some p\<rparr>))"
      by (rule frame.via [OF _ frame_Follower_OnEnter]) (use enter in auto)
    with Ret show ?thesis by (cases "Follower_OnEnter t (r1\<lparr>role := Some p\<rparr>)") auto
  qed (auto simp: NewFollowerRole_eq split: option.splits)
  note new = frame.via [OF frame_fields(7) this]
  show ?thesis unfolding becomeFollower_def by (rule frame.bind [OF frame_exit_role new])
qed

section \<open>Applying entries and snapshots\<close>

lemma frame_apply_command: "on_states (frame r) (apply_command E e r)"
proof -
  have run: "on_states (frame r) (case fsmApply E (fsm r) bs of
      Ret s a \<Rightarrow> Ret (r\<lparr>fsm := s\<rparr>) a | Panic s \<Rightarrow> Panic (r\<lparr>fsm := s\<rparr>) | NoReturn \<Rightarrow> NoReturn)" for bs
    by (auto split: outcome.splits)
  show ?thesis
    unfolding apply_command_def run_machine_def Let_def
    by (auto intro!: frame.bind [OF run] run split: prod.splits bool.splits)
qed

lemma frame_apply_loop: "on_states (frame r) (apply_loop E n idx r)"
proof (induction n arbitrary: idx r)
  case (Suc n)
  have "on_states (frame r) (bindO (apply_command E e r) (\<lambda>r a.
      apply_loop E n (idx + 1) (upd_store (\<lambda>s. s\<lparr>lastApplied := idx\<rparr>) r)))" for e
    by (rule frame.bind [OF frame_apply_command], rule frame.via [OF frame_upd_store(2) Suc.IH])
  then show ?case by (auto split: option.splits sum.splits)
qed simp

lemma frame_apply_follower: "on_states (frame r) (applyToFiniteStateMachine_follower E r)"
  by (simp add: applyToFiniteStateMachine_follower_def Let_def frame_apply_loop)

lemma frame_installSnapshot: "frame r (snd (installSnapshot E i t bs r))"
proof -
  have a: "frame r (r\<lparr>fdisk := d, fsm := s\<rparr>)"
    "frame r (upd_store (raise_to i) (r\<lparr>fdisk := d, fsm := s, snapshotIndex := i, snapshotTerm := t\<rparr>))"
    if "frame r (r\<lparr>fdisk := d\<rparr>)" for d s
  proof -
    show 1: "frame r (r\<lparr>fdisk := d, fsm := s\<rparr>)" using that frame_fields(4) frame_trans by blast
    have "frame r (r\<lparr>fdisk := d, fsm := s, snapshotIndex := i, snapshotTerm := t\<rparr>)"
      using 1 frame_fields(8,9) frame_trans by blast
    then show "frame r (upd_store (raise_to i) (r\<lparr>fdisk := d, fsm := s, snapshotIndex := i, snapshotTerm := t\<rparr>))"
      using frame_upd_store(3) frame_trans by blast
  qed
  have b: "frame r (r1\<lparr>wal := w\<rparr>)" if "frame r r1" for r1 w using that frame_fields(5) frame_trans by blast
  show ?thesis
    unfolding installSnapshot_def
    by (auto simp: Let_def resetLog_def intro: frame_SaveSnapshot a b split: prod.splits option.splits bool.splits)
qed

lemma frame_TakeSnapshot_finish: "frame r (TakeSnapshot_finish E snap r)"
proof -
  have "frame r (r\<lparr>snapshotIndex := i, snapshotTerm := t\<rparr>)" for i t
    using frame_fields(8,9) frame_trans by blast
  then show ?thesis
    unfolding TakeSnapshot_finish_def Let_def by (auto intro: frame_trans [OF _ frame_fields(5)])
qed

lemma frame_TakeSnapshot: "frame r (snd (TakeSnapshot E r))"
  unfolding TakeSnapshot_def
  by (auto intro: frame_SaveSnapshot frame_trans [OF frame_SaveSnapshot frame_TakeSnapshot_finish]
      split: prod.splits option.splits sum.splits)

end
