(* ===== verification/Follower.thy ===== *)
theory Follower
  imports Frame
begin

text \<open>
  \<^verbatim>\<open>internal/follower_role.go\<close>: the handlers of a follower. A handler takes the pointer of the
  follower it runs on, because a request with a higher term replaces the role and calls the same
  handler on the new one. The first argument of such a handler is the number of calls that still
  fit on the stack; at 0 the stack overflows.
\<close>

section \<open>The election timer\<close>

definition resetElectionTimer :: "nat \<Rightarrow> ('l, 's, unit) step" where
  "resetElectionTimer p r =
     (case electionDeadline_of (config r) (rgen r) of
        None \<Rightarrow> Panic r
      | Some (k, g) \<Rightarrow>
          Ret (upd_follower p (\<lambda>f. f\<lparr>f_electionDeadline := k, f_electionTicks := 0\<rparr>) (r\<lparr>rgen := g\<rparr>)) ())"

section \<open>Consistency with the leader's log\<close>

text \<open>The downward loop of \<open>checkLogConsistency\<close>; \<open>n\<close> is \<^verbatim>\<open>conflictIndex\<close>.\<close>

primrec conflict_loop :: "('l, 'z) golog_scheme \<Rightarrow> 'l \<Rightarrow> u64 \<Rightarrow> u64 \<Rightarrow> nat \<Rightarrow> u64" where
  "conflict_loop L l snapIndex conflictTerm 0 = 0"
| "conflict_loop L l snapIndex conflictTerm (Suc n) =
     (let conflictIndex = word_of_nat (Suc n) in
      if conflictIndex > 1 \<and> conflictIndex > snapIndex + 1
      then case gl_Read L l (conflictIndex - 1) of
             None \<Rightarrow> conflictIndex
           | Some rawPrev \<Rightarrow>
               (case DeserializeLogEntry rawPrev of
                  Inl e \<Rightarrow> conflictIndex
                | Inr logEntry \<Rightarrow>
                    if Term logEntry \<noteq> conflictTerm then conflictIndex
                    else conflict_loop L l snapIndex conflictTerm n)
      else conflictIndex)"

definition checkLogConsistency ::
  "('l, 's) env \<Rightarrow> ('l, 's) raft \<Rightarrow> u64 \<Rightarrow> u64 \<Rightarrow> bool \<times> u64 \<times> u64" where
  "checkLogConsistency E r index term =
     (if index = 0 then (True, 0, 0)
      else if index = snapshotIndex r
      then if term = snapshotTerm r then (True, 0, 0) else (False, snapshotIndex r + 1, 0)
      else if index < snapshotIndex r then (False, snapshotIndex r + 1, 0)
      else case gl_Read E (wal r) index of
             None \<Rightarrow> (False, index, 0)
           | Some raw \<Rightarrow>
               (case DeserializeLogEntry raw of
                  Inl e \<Rightarrow> (False, index, 0)
                | Inr logEntryAtIndex \<Rightarrow>
                    if Term logEntryAtIndex = term then (True, 0, 0)
                    else (False,
                          conflict_loop E (wal r) (snapshotIndex r) (Term logEntryAtIndex) (unat index),
                          Term logEntryAtIndex)))"

section \<open>Appending entries\<close>

primrec writeEntries :: "('l, 'z) golog_scheme \<Rightarrow> LogEntry list \<Rightarrow> 'l \<Rightarrow> bool \<times> 'l" where
  "writeEntries L [] l = (True, l)"
| "writeEntries L (logEntry # es) l =
     (case gl_Write L l (Serialize logEntry) of
        (None, l') \<Rightarrow> (False, l')
      | (Some i, l') \<Rightarrow> writeEntries L es l')"

definition write_and_commit :: "('l, 'z) golog_scheme \<Rightarrow> LogEntry list \<Rightarrow> 'l \<Rightarrow> 'l" where
  "write_and_commit L es l =
     (case writeEntries L es l of (True, l') \<Rightarrow> gl_Commit L l' | (False, l') \<Rightarrow> l')"

text \<open>\<open>append_from L idx es\<close>: the loop of \<open>appendEntries\<close> on the entries left, the first for \<open>idx\<close>.\<close>

primrec append_from :: "('l, 'z) golog_scheme \<Rightarrow> u64 \<Rightarrow> LogEntry list \<Rightarrow> 'l \<Rightarrow> 'l" where
  "append_from L idx [] l = l"
| "append_from L idx (e # es) l =
     (case gl_Read L l idx of
        Some raw \<Rightarrow>
          (case DeserializeLogEntry raw of
             Inl err \<Rightarrow> l
           | Inr logEntryAtIdx \<Rightarrow>
               if Term logEntryAtIdx \<noteq> Term e
               then case gl_TruncateFrom L l idx of
                      (True, l') \<Rightarrow> write_and_commit L (e # es) l'
                    | (False, l') \<Rightarrow> l'
               else append_from L (idx + 1) es l)
      | None \<Rightarrow> write_and_commit L (e # es) l)"

definition appendEntries :: "('l, 'z) golog_scheme \<Rightarrow> u64 \<Rightarrow> LogEntry list \<Rightarrow> 'l \<Rightarrow> 'l" where
  "appendEntries L prevLogEntryIndex logEntries l = append_from L (prevLogEntryIndex + 1) logEntries l"

section \<open>Handlers\<close>

type_synonym append_reply = "u64 \<times> bool \<times> u64 \<times> u64"
type_synonym vote_reply = "u64 \<times> bool"

text \<open>The part of \<open>HandleAppendEntries\<close> for a request of the current term.\<close>

definition accept_append ::
  "('l, 's) env \<Rightarrow> nat \<Rightarrow> gostring \<Rightarrow> u64 \<Rightarrow> u64 \<Rightarrow> LogEntry list \<Rightarrow> u64 \<Rightarrow> ('l, 's, append_reply) step" where
  "accept_append E p leader prevLogEntryIndex prevLogEntryTerm logEntries leaderCommitIndex r =
     (let ct = currentTerm (store r) in
      bindO (resetElectionTimer p r) (\<lambda>r u.
      let lastLogEntryIndex = fst (gl_GetLastIndex E (wal r)) in
      if prevLogEntryIndex > lastLogEntryIndex then Ret r (ct, False, lastLogEntryIndex + 1, 0)
      else
        case checkLogConsistency E r prevLogEntryIndex prevLogEntryTerm of
          (False, conflictIndex, conflictTerm) \<Rightarrow> Ret r (ct, False, conflictIndex, conflictTerm)
        | (True, _, _) \<Rightarrow>
            let r1 = upd_store (SetLeaderId leader) r;
                r2 = r1\<lparr>wal := appendEntries E prevLogEntryIndex logEntries (wal r1)\<rparr>;
                r3 = setCommitIndex E leaderCommitIndex r2 in
            bindO (applyToFiniteStateMachine_follower E r3) (\<lambda>r u. Ret r (ct, True, 0, 0))))"

primrec Follower_HandleAppendEntries ::
  "nat \<Rightarrow> ('l, 's) env \<Rightarrow> nat \<Rightarrow> u64 \<Rightarrow> gostring \<Rightarrow> u64 \<Rightarrow> u64 \<Rightarrow> LogEntry list \<Rightarrow> u64
     \<Rightarrow> ('l, 's, append_reply) step" where
  "Follower_HandleAppendEntries 0 E p term leader prevIndex prevTerm es leaderCommit r = NoReturn"
| "Follower_HandleAppendEntries (Suc n) E p term leader prevIndex prevTerm es leaderCommit r =
     (if term < currentTerm (store r) then Ret r (currentTerm (store r), False, 0, 0)
      else if term > currentTerm (store r)
      then bindO (becomeFollower term r) (\<lambda>r p'.
             Follower_HandleAppendEntries n E p' term leader prevIndex prevTerm es leaderCommit r)
      else accept_append E p leader prevIndex prevTerm es leaderCommit r)"

definition Follower_HandlePreVote ::
  "('l, 's) env \<Rightarrow> u64 \<Rightarrow> gostring \<Rightarrow> u64 \<Rightarrow> u64 \<Rightarrow> ('l, 's, vote_reply) step" where
  "Follower_HandlePreVote E term candidateId lastLogEntryIndex lastLogEntryTerm r =
     (if term < currentTerm (store r) then Ret r (currentTerm (store r), False)
      else if \<not> isLogEqualOrMoreRecent E r lastLogEntryIndex lastLogEntryTerm
      then Ret r (currentTerm (store r), False)
      else Ret r (currentTerm (store r), True))"

text \<open>The part of \<open>HandleRequestVote\<close> for a request of the current term.\<close>

definition decide_vote ::
  "('l, 's) env \<Rightarrow> nat \<Rightarrow> gostring \<Rightarrow> u64 \<Rightarrow> u64 \<Rightarrow> ('l, 's, vote_reply) step" where
  "decide_vote E p candidateId lastLogEntryIndex lastLogEntryTerm r =
     (let ct = currentTerm (store r) in
      if votedFor (store r) \<noteq> [] \<and> votedFor (store r) \<noteq> candidateId then Ret r (ct, False)
      else if \<not> isLogEqualOrMoreRecent E r lastLogEntryIndex lastLogEntryTerm then Ret r (ct, False)
      else case on_store (SetVotedFor candidateId) r of
             (Some err, r1) \<Rightarrow> bindO (markUnhealthy r1) (\<lambda>r u. Ret r (ct, False))
           | (None, r1) \<Rightarrow> bindO (resetElectionTimer p r1) (\<lambda>r u. Ret r (ct, True)))"

primrec Follower_HandleRequestVote ::
  "nat \<Rightarrow> ('l, 's) env \<Rightarrow> nat \<Rightarrow> u64 \<Rightarrow> gostring \<Rightarrow> u64 \<Rightarrow> u64 \<Rightarrow> ('l, 's, vote_reply) step" where
  "Follower_HandleRequestVote 0 E p term candidateId lastIndex lastTerm r = NoReturn"
| "Follower_HandleRequestVote (Suc n) E p term candidateId lastIndex lastTerm r =
     (if term < currentTerm (store r) then Ret r (currentTerm (store r), False)
      else if term > currentTerm (store r)
      then bindO (becomeFollower term r) (\<lambda>r p'.
             Follower_HandleRequestVote n E p' term candidateId lastIndex lastTerm r)
      else decide_vote E p candidateId lastIndex lastTerm r)"

text \<open>The part of \<open>HandleInstallSnapshot\<close> after the term is settled; it returns the old term.\<close>

definition accept_snapshot ::
  "('l, 's) env \<Rightarrow> nat \<Rightarrow> u64 \<Rightarrow> gostring \<Rightarrow> u64 \<Rightarrow> u64 \<Rightarrow> bytes \<Rightarrow> ('l, 's, u64) step" where
  "accept_snapshot E p ct leader lastIncludedIndex lastIncludedTerm bs r =
     bindO (resetElectionTimer p r) (\<lambda>r u.
     let r1 = upd_store (SetLeaderId leader) r in
     if lastIncludedIndex \<le> snapshotIndex r1 then Ret r1 ct
     else Ret (snd (installSnapshot E lastIncludedIndex lastIncludedTerm bs r1)) ct)"

definition Follower_HandleInstallSnapshot ::
  "('l, 's) env \<Rightarrow> nat \<Rightarrow> u64 \<Rightarrow> gostring \<Rightarrow> u64 \<Rightarrow> u64 \<Rightarrow> bytes \<Rightarrow> ('l, 's, u64) step" where
  "Follower_HandleInstallSnapshot E p term leader lastIncludedIndex lastIncludedTerm bs r =
     (let ct = currentTerm (store r) in
      if term < ct then Ret r ct
      else if term > ct
      then case on_store (SetCurrentTermAndVotedFor term []) r of
             (Some err, r1) \<Rightarrow> bindO (markUnhealthy r1) (\<lambda>r u. Ret r ct)
           | (None, r1) \<Rightarrow> accept_snapshot E p ct leader lastIncludedIndex lastIncludedTerm bs r1
      else accept_snapshot E p ct leader lastIncludedIndex lastIncludedTerm bs r)"

text \<open>
  A proposal is forwarded to the known leader. \<open>NoLeader\<close> is the error, \<open>Forward\<close> the call of
  \<^verbatim>\<open>transport.Propose\<close>: it carries the data only.
\<close>

datatype forward = NoLeader | Forward gostring bytes

definition Follower_HandlePropose :: "bytes \<Rightarrow> gostring \<Rightarrow> u64 \<Rightarrow> ('l, 's) raft \<Rightarrow> forward" where
  "Follower_HandlePropose bs clientId sequenceNumber r =
     (if leaderId (store r) = [] then NoLeader else Forward (leaderId (store r)) bs)"

section \<open>What the handlers keep\<close>

lemma frame_resetElectionTimer: "on_states (frame r) (resetElectionTimer p r)"
  unfolding resetElectionTimer_def
  by (auto intro: frame_trans [OF frame_fields(6) frame_roles(2)] split: option.splits)

lemma frame_accept_append: "on_states (frame r) (accept_append E p l pi pt es ci r)"
proof -
  have wr: "frame r (setCommitIndex E ci (upd_store (SetLeaderId l) r
      \<lparr>wal := appendEntries E pi es (wal (upd_store (SetLeaderId l) r))\<rparr>))" for r
    by (rule frame_trans [OF frame_upd_store(1) frame_trans [OF frame_fields(5) frame_setCommitIndex]])
  have body: "on_states (frame r) (bindO (applyToFiniteStateMachine_follower E
      (setCommitIndex E ci (upd_store (SetLeaderId l) r
         \<lparr>wal := appendEntries E pi es (wal (upd_store (SetLeaderId l) r))\<rparr>))) (\<lambda>r u. Ret r a))"
    for r and a :: append_reply
    by (rule frame.via [OF wr], rule frame.bind [OF frame_apply_follower]) simp
  show ?thesis
    unfolding accept_append_def Let_def
    by (rule frame.bind [OF frame_resetElectionTimer])
      (auto intro: body split: prod.splits bool.splits)
qed

lemma frame_Follower_AppendEntries:
  "on_states (frame r) (Follower_HandleAppendEntries n E p t l pi pt es ci r)"
proof (induction n arbitrary: p r)
  case (Suc n)
  then show ?case by (auto intro: frame.bind [OF frame_becomeFollower] frame_accept_append)
qed simp

lemma frame_then_ret:
  "on_states (frame r) (bindO (markUnhealthy r) (\<lambda>r u. Ret r a))"
  "on_states (frame r) (bindO (resetElectionTimer p r) (\<lambda>r u. Ret r a))"
  by (rule frame.bind [OF frame_markUnhealthy] frame.bind [OF frame_resetElectionTimer]; simp)+

lemma frame_decide_vote: "on_states (frame r) (decide_vote E p c i lt r)"
  unfolding decide_vote_def Let_def
  by (auto intro: frame.via [OF frame_SetVotedFor frame_then_ret(1)]
      frame.via [OF frame_SetVotedFor frame_then_ret(2)] split: prod.splits option.splits)

lemma frame_Follower_RequestVote:
  "on_states (frame r) (Follower_HandleRequestVote n E p t c i lt r)"
proof (induction n arbitrary: p r)
  case (Suc n)
  then show ?case by (auto intro: frame.bind [OF frame_becomeFollower] frame_decide_vote)
qed simp

lemma frame_Follower_PreVote: "on_states (frame r) (Follower_HandlePreVote E t c i lt r)"
  by (simp add: Follower_HandlePreVote_def)

lemma frame_accept_snapshot: "on_states (frame r) (accept_snapshot E p ct l i lt bs r)"
  unfolding accept_snapshot_def Let_def
  by (rule frame.bind [OF frame_resetElectionTimer])
    (auto intro: frame_trans [OF frame_upd_store(1) frame_installSnapshot])

lemma frame_Follower_InstallSnapshot:
  assumes "\<not> leads r"
  shows "on_states (frame r) (Follower_HandleInstallSnapshot E p t l i lt bs r)"
  unfolding Follower_HandleInstallSnapshot_def Let_def using assms
  by (auto intro: frame_accept_snapshot frame.via [OF frame_SetTerm frame_then_ret(1)]
      frame.via [OF frame_SetTerm frame_accept_snapshot] split: prod.splits option.splits)

section \<open>Votes\<close>

lemma resetElectionTimer_store:
  "resetElectionTimer p r = Ret r' u \<Longrightarrow> store r' = store r \<and> fdisk r' = fdisk r"
  by (auto simp: resetElectionTimer_def upd_follower_def split: option.splits role_obj.splits)

text \<open>A granted vote is in the store and on disk when the answer is given.\<close>

lemma decide_vote_granted:
  assumes "decide_vote E p c i lt r = Ret r' (t, True)"
  shows "t = currentTerm (store r')" "votedFor (store r') = c" "persisted (store r') (fdisk r')"
    "votedFor (store r) = [] \<or> votedFor (store r) = c" "currentTerm (store r') = currentTerm (store r)"
    "isLogEqualOrMoreRecent E r i lt"
proof -
  obtain r1 where v: "votedFor (store r) = [] \<or> votedFor (store r) = c"
    and sv: "on_store (SetVotedFor c) r = (None, r1)"
    and rt: "resetElectionTimer p r1 = Ret r' ()" and t: "t = currentTerm (store r)"
    and log: "isLogEqualOrMoreRecent E r i lt"
    using assms by (auto simp: decide_vote_def Let_def split: if_splits prod.splits option.splits)
  note k = kept_SetVotedFor [OF sv v] and st = resetElectionTimer_store [OF rt]
  show "t = currentTerm (store r')" "votedFor (store r') = c" "persisted (store r') (fdisk r')"
    "votedFor (store r) = [] \<or> votedFor (store r) = c" "currentTerm (store r') = currentTerm (store r)"
    "isLogEqualOrMoreRecent E r i lt"
    using k st t v log by simp_all
qed

lemma Follower_RequestVote_granted:
  assumes "Follower_HandleRequestVote n E p t c i lt r = Ret r' (t', True)"
  shows "t' = currentTerm (store r') \<and> votedFor (store r') = c \<and> persisted (store r') (fdisk r')"
  using assms
proof (induction n arbitrary: p r)
  case (Suc n)
  then show ?case by (auto split: if_splits dest: decide_vote_granted)
qed simp

end
