(* ===== verification/Leader.thy ===== *)
theory Leader
  imports Follower
begin

text \<open>
  \<^verbatim>\<open>internal/leader_role.go\<close> and \<^verbatim>\<open>Raft.becomeLeader\<close>: replication, the commit index, the lease,
  proposals and the applier. A goroutine that sends a request is a value in \<open>spawned\<close>; what it does
  with the answer is a definition whose name ends in \<open>_reply\<close>. A panic there is recovered.

  The applier runs outside the mutex. Here is a pass of its loop that nothing interrupts:
  \<open>leader_apply_range\<close> reads the bounds once, before the loop, and \<open>leader_apply_entry\<close> is an
  iteration. \<open>Applier\<close> cuts both into the steps between which other goroutines may run.
\<close>

section \<open>Access to the leader\<close>

definition with_leader :: "nat \<Rightarrow> (LeaderRole \<Rightarrow> ('l, 's, 'a) step) \<Rightarrow> ('l, 's, 'a) step" where
  "with_leader p g r = (case heap r p of Some (Leader l) \<Rightarrow> g l r | _ \<Rightarrow> Panic r)"

definition NewLeaderRole :: "Config \<Rightarrow> LeaderRole" where
  "NewLeaderRole cfg =
     \<lparr>l_applierCh = False, l_applierStopped = False, l_heartbeatDeadline = HeartbeatTicks cfg,
      l_heartbeatTicks = 0, l_inflight = (\<lambda>_. False), l_lastAckTicks = (\<lambda>_. 0), l_leaderTicks = 0,
      l_matchIndex = (\<lambda>_. 0), l_nextIndex = (\<lambda>_. 0), l_pending = []\<rparr>"

section \<open>Building requests\<close>

text \<open>
  \<open>read_batch L l n i\<close>: \<open>n\<close> iterations of the loop that collects entries from index \<open>i\<close>. An entry
  that cannot be read ends it.
\<close>

primrec read_batch :: "('l, 'z) golog_scheme \<Rightarrow> 'l \<Rightarrow> nat \<Rightarrow> u64 \<Rightarrow> LogEntry list" where
  "read_batch L l 0 i = []"
| "read_batch L l (Suc n) i =
     (case gl_Read L l i of
        None \<Rightarrow> []
      | Some raw \<Rightarrow> (case DeserializeLogEntry raw of
                      Inl e \<Rightarrow> []
                    | Inr logEntry \<Rightarrow> logEntry # read_batch L l n (i + 1)))"

definition prev_term :: "('l, 's) env \<Rightarrow> ('l, 's) raft \<Rightarrow> u64 \<Rightarrow> u64" where
  "prev_term E r prevLogEntryIndex =
     (if prevLogEntryIndex > 0
      then if prevLogEntryIndex = snapshotIndex r then snapshotTerm r
           else case gl_Read E (wal r) prevLogEntryIndex of
                  None \<Rightarrow> 0
                | Some raw \<Rightarrow> (case DeserializeLogEntry raw of Inl e \<Rightarrow> 0 | Inr logEntry \<Rightarrow> Term logEntry)
      else 0)"

definition batch :: "('l, 's) env \<Rightarrow> ('l, 's) raft \<Rightarrow> u64 \<Rightarrow> LogEntry list" where
  "batch E r next =
     (let lastLogEntryIndex = fst (gl_GetLastIndex E (wal r));
          maxBatch = (word_of_int (MaxBatchEntries (config r)) :: u64) in
      if next \<le> lastLogEntryIndex
      then let count = lastLogEntryIndex - next + 1;
               to = (if count > maxBatch then next + maxBatch - 1 else lastLogEntryIndex) in
           read_batch E (wal r) (unat (to - next + 1)) next
      else [])"

definition append_request :: "('l, 's) env \<Rightarrow> nat \<Rightarrow> gostring \<Rightarrow> u64 \<Rightarrow> u64 \<Rightarrow> ('l, 's) raft \<Rightarrow> goroutine" where
  "append_request E p node term next r =
     (let prevLogEntryIndex = (if next > 0 then next - 1 else 0) in
      SendAppendEntries p node term (leaderId (store r)) prevLogEntryIndex
        (prev_term E r prevLogEntryIndex) (batch E r next) (commitIndex (store r)))"

definition set_inflight :: "nat \<Rightarrow> gostring \<Rightarrow> bool \<Rightarrow> ('l, 's) raft \<Rightarrow> ('l, 's) raft" where
  "set_inflight p node b = upd_leader p (\<lambda>l. l\<lparr>l_inflight := (l_inflight l)(node := b)\<rparr>)"

text \<open>The body of the loop of \<open>sendAppendEntriesToAllNodes\<close> for one node.\<close>

definition send_to :: "('l, 's) env \<Rightarrow> nat \<Rightarrow> u64 \<Rightarrow> u64 \<Rightarrow> gostring \<Rightarrow> ('l, 's, unit) step" where
  "send_to E p ct lastLogEntryIndex node =
     with_leader p (\<lambda>l r.
       if node = nid r then Ret r ()
       else if l_inflight l node then Ret r ()
       else let r1 = set_inflight p node True r;
                next = (if l_nextIndex l node = 0 then lastLogEntryIndex + 1 else l_nextIndex l node) in
            if snapshotIndex r1 > 0 \<and> next \<le> snapshotIndex r1
            then Ret (go (SendInstallSnapshot p node ct (nid r1)) r1) ()
            else Ret (go (append_request E p node ct next r1) r1) ())"

primrec send_to_each :: "('l, 's) env \<Rightarrow> nat \<Rightarrow> u64 \<Rightarrow> u64 \<Rightarrow> gostring list \<Rightarrow> ('l, 's, unit) step" where
  "send_to_each E p ct lastLogEntryIndex [] r = Ret r ()"
| "send_to_each E p ct lastLogEntryIndex (node # ns) r =
     bindO (send_to E p ct lastLogEntryIndex node r) (\<lambda>r u. send_to_each E p ct lastLogEntryIndex ns r)"

definition sendAppendEntriesToAllNodes :: "('l, 's) env \<Rightarrow> nat \<Rightarrow> ('l, 's, unit) step" where
  "sendAppendEntriesToAllNodes E p r =
     (let r1 = upd_leader p (\<lambda>l. l\<lparr>l_heartbeatTicks := 0\<rparr>) r in
      send_to_each E p (currentTerm (store r1)) (fst (gl_GetLastIndex E (wal r1))) (nodes r1) r1)"

definition retrySendAppendEntriesToNode :: "('l, 's) env \<Rightarrow> nat \<Rightarrow> gostring \<Rightarrow> u64 \<Rightarrow> ('l, 's, unit) step" where
  "retrySendAppendEntriesToNode E p node term =
     with_leader p (\<lambda>l r.
       if l_inflight l node then Ret r ()
       else let r1 = set_inflight p node True r; next = l_nextIndex l node in
            if snapshotIndex r1 > 0 \<and> next \<le> snapshotIndex r1
            then Ret (go (SendInstallSnapshot p node term (nid r1)) r1) ()
            else let next = (if next = 0 then fst (gl_GetLastIndex E (wal r1)) + 1 else next) in
                 Ret (go (append_request E p node term next r1) r1) ())"

section \<open>The commit index\<close>

definition triggerApplier :: "nat \<Rightarrow> ('l, 's) raft \<Rightarrow> ('l, 's) raft" where
  "triggerApplier p = upd_leader p (\<lambda>l. l\<lparr>l_applierCh := True\<rparr>)"

definition majority_match :: "u64 list \<Rightarrow> u64 option" where
  "majority_match matches =
     (if matches = [] then None
      else let idx = length matches - length matches div 2 - 1 in
           if idx \<ge> length matches then None else Some (sort matches ! idx))"

definition tryToAdvanceCommitIndex :: "('l, 's) env \<Rightarrow> nat \<Rightarrow> ('l, 's, unit) step" where
  "tryToAdvanceCommitIndex E p =
     with_leader p (\<lambda>l r.
       case majority_match (map (l_matchIndex l) (nodes r)) of
         None \<Rightarrow> Ret r ()
       | Some cand \<Rightarrow>
           if cand = 0 then Ret r ()
           else case gl_Read E (wal r) cand of
                  None \<Rightarrow> Ret r ()
                | Some raw \<Rightarrow>
                    (case DeserializeLogEntry raw of
                       Inl e \<Rightarrow> Ret r ()
                     | Inr logEntry \<Rightarrow>
                         if Term logEntry \<noteq> currentTerm (store r) then Ret r ()
                         else if cand > commitIndex (store r)
                         then Ret (triggerApplier p (setCommitIndex E cand r)) ()
                         else Ret r ()))"

section \<open>Entering the role\<close>

definition init_progress :: "gostring \<Rightarrow> gostring list \<Rightarrow> u64 \<Rightarrow> LeaderRole \<Rightarrow> LeaderRole" where
  "init_progress me ns lastLogEntryIndex l =
     l\<lparr>l_matchIndex := (\<lambda>q. if q = me then lastLogEntryIndex else if q \<in> set ns then 0 else l_matchIndex l q),
       l_nextIndex := (\<lambda>q. if q = me \<or> q \<in> set ns then lastLogEntryIndex + 1 else l_nextIndex l q),
       l_lastAckTicks := (\<lambda>q. if q \<noteq> me \<and> q \<in> set ns then 0 else l_lastAckTicks l q)\<rparr>"

definition own_progress :: "gostring \<Rightarrow> u64 \<Rightarrow> LeaderRole \<Rightarrow> LeaderRole" where
  "own_progress me lastLogEntryIndex l =
     l\<lparr>l_matchIndex := (l_matchIndex l)(me := lastLogEntryIndex),
       l_nextIndex := (l_nextIndex l)(me := lastLogEntryIndex + 1)\<rparr>"

definition Leader_OnEnter :: "('l, 's) env \<Rightarrow> nat \<Rightarrow> u64 \<Rightarrow> ('l, 's, unit) step" where
  "Leader_OnEnter E p term r =
     (let step_down = (\<lambda>r. bindO (becomeFollower term r) (\<lambda>r q. Ret r ())) in
      if currentTerm (store r) \<noteq> term then step_down r
      else
        let r1 = upd_store (SetLeaderId (nid r)) r;
            r2 = upd_leader p (init_progress (nid r1) (nodes r1) (fst (gl_GetLastIndex E (wal r1)))) r1;
            logEntry = \<lparr>Data = [], Term = term, ClientId = [], SequenceNumber = 0\<rparr> in
        case gl_Write E (wal r2) (Serialize logEntry) of
          (None, l') \<Rightarrow> step_down (r2\<lparr>wal := l'\<rparr>)
        | (Some i, l') \<Rightarrow>
            let r3 = r2\<lparr>wal := gl_Commit E l'\<rparr> in
            case gl_GetLastIndex E (wal r3) of (lastLogEntryIndex, ok) \<Rightarrow>
              if \<not> ok then step_down r3
              else let r4 = upd_leader p (own_progress (nid r3) lastLogEntryIndex) r3 in
                   bindO (sendAppendEntriesToAllNodes E p r4) (\<lambda>r u.
                   bindO (tryToAdvanceCommitIndex E p r) (\<lambda>r u. Ret (go (RunApplier p) r) ())))"

definition becomeLeader :: "('l, 's) env \<Rightarrow> u64 \<Rightarrow> ('l, 's, nat) step" where
  "becomeLeader E term r =
     bindO (exit_role r) (\<lambda>r u.
     case alloc (Leader (NewLeaderRole (config r))) (r\<lparr>roleEpoch := roleEpoch r + 1\<rparr>) of
       (p, r1) \<Rightarrow> bindO (Leader_OnEnter E p term (r1\<lparr>role := Some p\<rparr>)) (\<lambda>r u. Ret r p))"

section \<open>The lease\<close>

definition lease_acked :: "('l, 's) raft \<Rightarrow> LeaderRole \<Rightarrow> nat" where
  "lease_acked r l =
     Suc (length (filter (\<lambda>p. p \<noteq> nid r
                   \<and> l_leaderTicks l - l_lastAckTicks l p < ElectionTimeoutMinTicks (config r)) (nodes r)))"

definition lease_expired :: "('l, 's) raft \<Rightarrow> LeaderRole \<Rightarrow> bool" where
  "lease_expired r l \<longleftrightarrow>
     l_leaderTicks l > ElectionTimeoutMinTicks (config r)
     \<and> lease_acked r l < length (nodes r) div 2 + 1"

definition Leader_Tick :: "('l, 's) env \<Rightarrow> nat \<Rightarrow> ('l, 's, unit) step" where
  "Leader_Tick E p r =
     (let r1 = upd_leader p (\<lambda>l. l\<lparr>l_heartbeatTicks := l_heartbeatTicks l + 1,
                                   l_leaderTicks := l_leaderTicks l + 1\<rparr>) r in
      bindO (with_leader p (\<lambda>l r. if l_heartbeatTicks l \<ge> l_heartbeatDeadline l
                                  then sendAppendEntriesToAllNodes E p r else Ret r ()) r1)
        (\<lambda>r u. with_leader p (\<lambda>l r.
           if lease_expired r l
           then bindO (becomeFollower (currentTerm (store r)) r) (\<lambda>r q. Ret r ())
           else Ret r ()) r))"

section \<open>Handlers\<close>

definition Leader_HandleAppendEntries ::
  "('l, 's) env \<Rightarrow> u64 \<Rightarrow> gostring \<Rightarrow> u64 \<Rightarrow> u64 \<Rightarrow> LogEntry list \<Rightarrow> u64 \<Rightarrow> ('l, 's, append_reply) step" where
  "Leader_HandleAppendEntries E term leader prevIndex prevTerm es leaderCommit r =
     (if term < currentTerm (store r) then Ret r (currentTerm (store r), False, 0, 0)
      else if term = currentTerm (store r) \<and> leader = nid r
      then Ret r (currentTerm (store r), False, 0, 0)
      else bindO (becomeFollower term r) (\<lambda>r q.
             Follower_HandleAppendEntries (stackDepth E) E q term leader prevIndex prevTerm es leaderCommit r))"

definition Leader_HandlePreVote ::
  "u64 \<Rightarrow> gostring \<Rightarrow> u64 \<Rightarrow> u64 \<Rightarrow> ('l, 's, vote_reply) step" where
  "Leader_HandlePreVote term candidateId lastIndex lastTerm r = Ret r (currentTerm (store r), False)"

definition Leader_HandleInstallSnapshot ::
  "('l, 's) env \<Rightarrow> u64 \<Rightarrow> gostring \<Rightarrow> u64 \<Rightarrow> u64 \<Rightarrow> bytes \<Rightarrow> ('l, 's, u64) step" where
  "Leader_HandleInstallSnapshot E term leader lastIncludedIndex lastIncludedTerm bs r =
     (if term \<le> currentTerm (store r) then Ret r (currentTerm (store r))
      else bindO (becomeFollower term r) (\<lambda>r q.
             Follower_HandleInstallSnapshot E q term leader lastIncludedIndex lastIncludedTerm bs r))"

definition Leader_HandleRequestVote ::
  "('l, 's) env \<Rightarrow> u64 \<Rightarrow> gostring \<Rightarrow> u64 \<Rightarrow> u64 \<Rightarrow> ('l, 's, vote_reply) step" where
  "Leader_HandleRequestVote E term candidateId lastIndex lastTerm r =
     (if term \<le> currentTerm (store r) then Ret r (currentTerm (store r), False)
      else bindO (becomeFollower term r) (\<lambda>r q.
             Follower_HandleRequestVote (stackDepth E) E q term candidateId lastIndex lastTerm r))"

section \<open>Proposals\<close>

text \<open>
  A proposal ends with a value or an error, or waits on a channel. The check for a duplicate runs
  before the lock is taken, so it is a step of its own (\<open>HandlePropose_cached\<close>).
\<close>

datatype propose_error = SteppedDown | LeaseExpired | LogWriteFailed | ContextDone

datatype proposal = Done any | Failed propose_error | Waiting u64 nat

definition HandlePropose_cached :: "('l, 's) raft \<Rightarrow> gostring \<Rightarrow> u64 \<Rightarrow> any option" where
  "HandlePropose_cached r clientId sequenceNumber =
     (if clientId \<noteq> []
      then case IsDuplicate (sessions r) clientId sequenceNumber of
             (True, cachedResult) \<Rightarrow> Some cachedResult
           | (False, _) \<Rightarrow> None
      else None)"

definition pending_at :: "LeaderRole \<Rightarrow> u64 \<Rightarrow> nat list" where
  "pending_at l idx = (case map_of (l_pending l) idx of None \<Rightarrow> [] | Some ws \<Rightarrow> ws)"

definition del_pending :: "u64 \<Rightarrow> LeaderRole \<Rightarrow> LeaderRole" where
  "del_pending idx l = l\<lparr>l_pending := filter (\<lambda>jw. fst jw \<noteq> idx) (l_pending l)\<rparr>"

definition put_pending :: "u64 \<Rightarrow> nat list \<Rightarrow> LeaderRole \<Rightarrow> LeaderRole" where
  "put_pending idx ws l = (del_pending idx l)\<lparr>l_pending := l_pending (del_pending idx l) @ [(idx, ws)]\<rparr>"

definition make_chan :: "('l, 's) raft \<Rightarrow> nat \<times> ('l, 's) raft" where
  "make_chan r =
     (nextChan r, r\<lparr>chans := (chans r)(nextChan r \<mapsto> \<lparr>ch_buf = [], ch_closed = False\<rparr>),
                     nextChan := Suc (nextChan r)\<rparr>)"

definition raise_own :: "gostring \<Rightarrow> u64 \<Rightarrow> LeaderRole \<Rightarrow> LeaderRole" where
  "raise_own q index l =
     (let l1 = (if l_matchIndex l q < index then l\<lparr>l_matchIndex := (l_matchIndex l)(q := index)\<rparr> else l) in
      if l_nextIndex l1 q < index + 1 then l1\<lparr>l_nextIndex := (l_nextIndex l1)(q := index + 1)\<rparr> else l1)"

definition HandlePropose_begin ::
  "('l, 's) env \<Rightarrow> nat \<Rightarrow> bytes \<Rightarrow> gostring \<Rightarrow> u64 \<Rightarrow> u64 \<Rightarrow> ('l, 's, proposal) step" where
  "HandlePropose_begin E p bs clientId sequenceNumber epoch =
     with_leader p (\<lambda>l r.
       if roleEpoch r \<noteq> epoch \<or> role_kind_of r \<noteq> Some KLeader then Ret r (Failed SteppedDown)
       else if lease_expired r l then Ret r (Failed LeaseExpired)
       else
         let logEntry = \<lparr>Data = bs, Term = currentTerm (store r), ClientId = clientId,
                         SequenceNumber = sequenceNumber\<rparr> in
         case gl_WriteCommit E (wal r) (Serialize logEntry) of
           (None, l') \<Rightarrow> Ret (r\<lparr>wal := l'\<rparr>) (Failed LogWriteFailed)
         | (Some index, l') \<Rightarrow>
             case make_chan (r\<lparr>wal := l'\<rparr>) of (ch, r1) \<Rightarrow>
               let r2 = upd_leader p (\<lambda>l. put_pending index (pending_at l index @ [ch]) l) r1 in
               bindO (sendAppendEntriesToAllNodes E p r2) (\<lambda>r u.
                 Ret (upd_leader p (raise_own (nid r) index) r) (Waiting index ch)))"

text \<open>The receive of the \<^verbatim>\<open>select\<close>: \<open>None\<close> while the channel is open and empty.\<close>

definition HandlePropose_receive :: "nat \<Rightarrow> ('l, 's) raft \<Rightarrow> (proposal \<times> ('l, 's) raft) option" where
  "HandlePropose_receive ch r =
     (case chans r ch of
        None \<Rightarrow> None
      | Some c \<Rightarrow>
          (case ch_buf c of
             res # rest \<Rightarrow> Some (Done res, r\<lparr>chans := (chans r)(ch \<mapsto> c\<lparr>ch_buf := rest\<rparr>)\<rparr>)
           | [] \<Rightarrow> if ch_closed c then Some (Failed SteppedDown, r) else None))"

text \<open>Removal of a waiter: the last one takes its place.\<close>

fun remove_waiter :: "nat \<Rightarrow> nat list \<Rightarrow> nat list" where
  "remove_waiter ch [] = []"
| "remove_waiter ch (w # ws) =
     (if w = ch then (if ws = [] then [] else last ws # butlast ws) else w # remove_waiter ch ws)"

definition HandlePropose_cancel :: "nat \<Rightarrow> u64 \<Rightarrow> nat \<Rightarrow> ('l, 's, proposal) step" where
  "HandlePropose_cancel p index ch =
     with_leader p (\<lambda>l r.
       let ws = pending_at l index in
       if ws = [] then Ret r (Failed ContextDone)
       else let ws' = remove_waiter ch ws in
            Ret (upd_leader p (if ws' \<noteq> [] then put_pending index ws' else del_pending index) r)
                (Failed ContextDone))"

section \<open>The applier\<close>

text \<open>Sending on a closed channel panics; on a full one it blocks.\<close>

definition send_chan :: "nat \<Rightarrow> any \<Rightarrow> ('l, 's, unit) step" where
  "send_chan c v r =
     (case chans r c of
        None \<Rightarrow> NoReturn
      | Some ch \<Rightarrow> if ch_closed ch then Panic r
                   else if ch_buf ch \<noteq> [] then NoReturn
                   else Ret (r\<lparr>chans := (chans r)(c \<mapsto> ch\<lparr>ch_buf := [v]\<rparr>)\<rparr>) ())"

primrec answer_waiters :: "any \<Rightarrow> nat list \<Rightarrow> ('l, 's, unit) step" where
  "answer_waiters v [] r = Ret r ()"
| "answer_waiters v (c # cs) r =
     bindO (send_chan c v r) (\<lambda>r u. bindO (close_chan c r) (\<lambda>r u. answer_waiters v cs r))"

definition leader_apply_entry :: "('l, 's) env \<Rightarrow> nat \<Rightarrow> u64 \<Rightarrow> ('l, 's, bool) step" where
  "leader_apply_entry E p idx r =
     (case gl_Read E (wal r) idx of
        None \<Rightarrow> Ret r False
      | Some raw \<Rightarrow>
          (case DeserializeLogEntry raw of
             Inl e \<Rightarrow> Ret r False
           | Inr logEntry \<Rightarrow>
               bindO (apply_command E logEntry r) (\<lambda>r result.
               bindO (with_leader p (\<lambda>l r.
                  let waiters = pending_at l idx;
                      r1 = (if waiters \<noteq> [] then upd_leader p (del_pending idx) r else r);
                      answer = (if result = AnyNil \<and> Data logEntry \<noteq> [] then AnyStruct else result) in
                  answer_waiters answer waiters r1) r) (\<lambda>r u.
               Ret (upd_store (\<lambda>s. s\<lparr>lastApplied := idx\<rparr>) r) True))))"

definition leader_apply_range :: "('l, 's) raft \<Rightarrow> u64 \<times> nat" where
  "leader_apply_range r = (lastApplied (store r) + 1, unat (commitIndex (store r)) - unat (lastApplied (store r)))"

primrec leader_apply_loop :: "('l, 's) env \<Rightarrow> nat \<Rightarrow> nat \<Rightarrow> u64 \<Rightarrow> ('l, 's, unit) step" where
  "leader_apply_loop E p 0 idx r = Ret r ()"
| "leader_apply_loop E p (Suc n) idx r =
     bindO (leader_apply_entry E p idx r)
       (\<lambda>r continues. if continues then leader_apply_loop E p n (idx + 1) r else Ret r ())"

text \<open>The loop with no other step in between.\<close>

definition applyToFiniteStateMachine_leader :: "('l, 's) env \<Rightarrow> nat \<Rightarrow> ('l, 's, unit) step" where
  "applyToFiniteStateMachine_leader E p r =
     (case leader_apply_range r of (idx, n) \<Rightarrow> leader_apply_loop E p n idx r)"

text \<open>
  One round of the applier: \<open>True\<close> when it goes on waiting or running, \<open>False\<close> when it returns. A
  panic of the state machine marks the node unhealthy. With a token present and the stop channel
  closed the \<^verbatim>\<open>select\<close> may take either; \<open>stops\<close> is its choice.
\<close>

definition applier_round :: "('l, 's) env \<Rightarrow> nat \<Rightarrow> bool \<Rightarrow> ('l, 's, bool) step" where
  "applier_round E p stops =
     with_leader p (\<lambda>l r.
       if l_applierStopped l \<and> (stops \<or> \<not> l_applierCh l) then Ret r False
       else if l_applierCh l
       then case applyToFiniteStateMachine_leader E p (upd_leader p (\<lambda>l. l\<lparr>l_applierCh := False\<rparr>) r) of
              Ret r' u \<Rightarrow> Ret r' True
            | Panic r' \<Rightarrow> bindO (markUnhealthy r') (\<lambda>r u. Ret r False)
            | NoReturn \<Rightarrow> NoReturn
       else Ret r True)"

section \<open>Answers to the requests\<close>

definition recover_send :: "nat \<Rightarrow> gostring \<Rightarrow> (('l, 's) raft, unit) outcome \<Rightarrow> (('l, 's) raft, unit) outcome" where
  "recover_send p node m = (case m of Panic r \<Rightarrow> Ret (set_inflight p node False r) () | _ \<Rightarrow> m)"

definition acknowledge :: "gostring \<Rightarrow> u64 \<Rightarrow> LeaderRole \<Rightarrow> LeaderRole" where
  "acknowledge node lastSent l =
     raise_own node lastSent (l\<lparr>l_lastAckTicks := (l_lastAckTicks l)(node := l_leaderTicks l)\<rparr>)"

definition back_off :: "('l, 'z) golog_scheme \<Rightarrow> 'l \<Rightarrow> gostring \<Rightarrow> u64 \<Rightarrow> u64 \<Rightarrow> LeaderRole \<Rightarrow> LeaderRole" where
  "back_off L w node conflictIndex conflictTerm l =
     (let lastOfTerm = GetLastLogEntryIndexOfTerm L w conflictTerm;
          next = (if conflictTerm \<noteq> 0
                  then if lastOfTerm > 0 then lastOfTerm + 1 else conflictIndex
                  else conflictIndex) in
      l\<lparr>l_nextIndex := (l_nextIndex l)(node := (if next < 1 then 1 else next))\<rparr>)"

definition AppendEntries_reply ::
  "('l, 's) env \<Rightarrow> nat \<Rightarrow> gostring \<Rightarrow> u64 \<Rightarrow> u64 \<Rightarrow> LogEntry list \<Rightarrow> append_reply \<Rightarrow> ('l, 's, unit) step" where
  "AppendEntries_reply E p node term prevLogEntryIndex logEntries reply r =
     (case reply of (t, success, conflictIndex, conflictTerm) \<Rightarrow>
      recover_send p node
       (let r1 = set_inflight p node False r in
        if t > currentTerm (store r1) then bindO (becomeFollower t r1) (\<lambda>r q. Ret r ())
        else if role_kind_of r1 \<noteq> Some KLeader \<or> t \<noteq> term then Ret r1 ()
        else if success
        then let lastSent = (if logEntries \<noteq> [] then prevLogEntryIndex + word_of_nat (length logEntries)
                             else prevLogEntryIndex);
                 r2 = upd_leader p (acknowledge node lastSent) r1 in
             bindO (tryToAdvanceCommitIndex E p r2) (\<lambda>r u.
             with_leader p (\<lambda>l r.
               if l_nextIndex l node \<le> fst (gl_GetLastIndex E (wal r))
               then retrySendAppendEntriesToNode E p node term r else Ret r ()) r)
        else with_leader p (\<lambda>l r.
               if l_nextIndex l node > 1
               then retrySendAppendEntriesToNode E p node term
                      (upd_leader p (back_off E (wal r) node conflictIndex conflictTerm) r)
               else Ret r ()) r1))"

text \<open>The goroutine that sends a snapshot first loads it, outside the lock.\<close>

definition sendInstallSnapshot_load :: "nat \<Rightarrow> gostring \<Rightarrow> ('l, 's) raft \<Rightarrow> Snapshot option \<times> ('l, 's) raft" where
  "sendInstallSnapshot_load p node r =
     (case LoadSnapshot (snapshotPath r) (fdisk r) of
        (Inl e, d) \<Rightarrow> (None, set_inflight p node False (r\<lparr>fdisk := d\<rparr>))
      | (Inr snap, d) \<Rightarrow> (Some snap, r\<lparr>fdisk := d\<rparr>))"

definition InstallSnapshot_reply ::
  "('l, 's) env \<Rightarrow> nat \<Rightarrow> gostring \<Rightarrow> Snapshot \<Rightarrow> u64 \<Rightarrow> ('l, 's, unit) step" where
  "InstallSnapshot_reply E p node snap t r =
     recover_send p node
       (let r1 = set_inflight p node False r in
        if t > currentTerm (store r1) then bindO (becomeFollower t r1) (\<lambda>r q. Ret r ())
        else if role_kind_of r1 \<noteq> Some KLeader then Ret r1 ()
        else tryToAdvanceCommitIndex E p (upd_leader p (acknowledge node (LastIncludedIndex snap)) r1))"

section \<open>What the leader's steps keep\<close>

lemma with_leader_states:
  "P r \<Longrightarrow> (\<And>l. heap r p = Some (Leader l) \<Longrightarrow> on_states P (g l r)) \<Longrightarrow> on_states P (with_leader p g r)"
  by (auto simp: with_leader_def split: option.splits role_obj.splits)

text \<open>
  A relation that the updates of a leader object, a higher commit index and a spawned request of a
  term of \<open>T\<close> keep is kept by every loop of the leader over its peers. \<open>tracks\<close> are the updates that
  leave the waiting proposals and the applier alone.
\<close>

definition tracks :: "(LeaderRole \<Rightarrow> LeaderRole) \<Rightarrow> bool" where
  "tracks g \<longleftrightarrow> (\<forall>l. l_pending (g l) = l_pending l \<and> l_applierStopped (g l) = l_applierStopped l)"

lemma tracks_updates:
  "tracks (\<lambda>l. l\<lparr>l_inflight := (l_inflight l)(node := b)\<rparr>)" "tracks (\<lambda>l. l\<lparr>l_heartbeatTicks := 0\<rparr>)"
  "tracks (\<lambda>l. l\<lparr>l_applierCh := b\<rparr>)" "tracks (\<lambda>l. l\<lparr>l_heartbeatTicks := l_heartbeatTicks l + 1,
     l_leaderTicks := l_leaderTicks l + 1\<rparr>)"
  "tracks (init_progress me ns i)" "tracks (own_progress me i)" "tracks (raise_own me i)" "tracks (acknowledge node i)"
  "tracks (back_off L w node ci ct)"
  by (auto simp: tracks_def init_progress_def own_progress_def raise_own_def acknowledge_def back_off_def Let_def)

locale leader_preorder = step_preorder R for R :: "('l, 's) raft \<Rightarrow> ('l, 's) raft \<Rightarrow> bool" +
  fixes E :: "('l, 's) env" and T :: "u64 set"
  assumes upd: "tracks g \<Longrightarrow> R r (upd_leader p g r)" and commit: "R r (setCommitIndex E ci r)"
    and snapshot: "R r (go (SendInstallSnapshot p node t me) r)"
    and append: "node \<noteq> nid r \<Longrightarrow> t \<in> T \<Longrightarrow> R r (go (append_request E p node t next r) r)"
begin

lemma spawn:
  "R r (go (SendInstallSnapshot p node t me) (set_inflight p node b r))"
  "node \<noteq> nid r \<Longrightarrow> t \<in> T \<Longrightarrow> R r (go (append_request E p node t next (set_inflight p node b r)) (set_inflight p node b r))"
proof -
  let ?r = "set_inflight p node b r"
  have r: "R r ?r" "nid ?r = nid r"
    by (simp_all add: set_inflight_def upd tracks_updates) (simp add: upd_leader_def split: option.splits role_obj.splits)
  show "R r (go (SendInstallSnapshot p node t me) ?r)" by (rule R_trans [OF r(1) snapshot])
  show "node \<noteq> nid r \<Longrightarrow> t \<in> T \<Longrightarrow> R r (go (append_request E p node t next ?r) ?r)"
    using R_trans [OF r(1) append] r(2) by simp
qed

lemma send_to: "ct \<in> T \<Longrightarrow> on_states (R r) (send_to E p ct li node r)"
  unfolding send_to_def by (rule with_leader_states) (auto simp: Let_def R_refl spawn)

lemma send_to_each: "ct \<in> T \<Longrightarrow> on_states (R r) (send_to_each E p ct li ns r)"
proof (induction ns arbitrary: r)
  case (Cons n ns)
  then show ?case by (auto intro: bind [OF send_to])
qed (simp add: R_refl)

lemma send_all: "currentTerm (store r) \<in> T \<Longrightarrow> on_states (R r) (sendAppendEntriesToAllNodes E p r)"
  unfolding sendAppendEntriesToAllNodes_def Let_def
  by (rule via [OF upd [OF tracks_updates(2)] send_to_each]) (simp add: upd_leader_def split: option.splits role_obj.splits)

lemma retry: "node \<noteq> nid r \<Longrightarrow> t \<in> T \<Longrightarrow> on_states (R r) (retrySendAppendEntriesToNode E p node t r)"
  unfolding retrySendAppendEntriesToNode_def
  by (rule with_leader_states) (auto simp: Let_def R_refl spawn)

lemma tryAdvance: "on_states (R r) (tryToAdvanceCommitIndex E p r)"
  unfolding tryToAdvanceCommitIndex_def
  by (rule with_leader_states)
    (auto simp: triggerApplier_def R_refl intro: R_trans [OF commit upd [OF tracks_updates(3)]] split: option.splits sum.splits)

end

lemma append_request_kind [simp]: "\<not> is_vote_request (append_request E p node t next r)"
  by (simp add: append_request_def Let_def)

interpretation frame_leader: leader_preorder frame E UNIV for E
  by unfold_locales auto

lemma frame_with_leader:
  "(\<And>l. heap r p = Some (Leader l) \<Longrightarrow> on_states (frame r) (g l r)) \<Longrightarrow> on_states (frame r) (with_leader p g r)"
  by (rule with_leader_states) simp_all

lemma frame_set_inflight [simp, intro]: "frame r (set_inflight p node b r)"
  by (simp add: set_inflight_def)

lemma frame_go_inflight:
  "\<not> is_vote_request g \<Longrightarrow> frame r (go g (set_inflight p node b r))"
  by (rule frame_trans [OF frame_set_inflight frame_go])

lemmas frame_send_all = frame_leader.send_all [OF UNIV_I]

lemma frame_retry: "on_states (frame r) (retrySendAppendEntriesToNode E p node t r)"
  unfolding retrySendAppendEntriesToNode_def
  by (rule frame_with_leader) (simp add: Let_def frame_go_inflight)

lemmas frame_tryAdvance = frame_leader.tryAdvance

lemma frame_step_down: "on_states (frame r) (bindO (becomeFollower t r) (\<lambda>r q. Ret r ()))"
  by (rule frame.bind [OF frame_becomeFollower]) simp

lemma frame_Leader_OnEnter: "on_states (frame r) (Leader_OnEnter E p t r)"
proof -
  define r2 where "r2 = upd_leader p (init_progress (nid r) (nodes r) (fst (gl_GetLastIndex E (wal r))))
     (upd_store (SetLeaderId (nid r)) r)"
  have r2: "frame r r2" unfolding r2_def by (rule frame_trans [OF frame_upd_store(1) frame_roles(1)])
  have send: "on_states (frame r) (bindO (sendAppendEntriesToAllNodes E p r) (\<lambda>r u.
      bindO (tryToAdvanceCommitIndex E p r) (\<lambda>r. Ret (go (RunApplier p) r))))" for r
    by (rule frame.bind [OF frame_send_all], rule frame.bind [OF frame_tryAdvance]) simp
  have w: "frame r (r2\<lparr>wal := x\<rparr>)" "frame r (upd_leader q g (r2\<lparr>wal := x\<rparr>))" for x q g
    using frame_trans [OF r2 frame_fields(5)] frame_trans [OF frame_trans [OF r2 frame_fields(5)] frame_roles(1)]
    by blast+
  have eq: "nid (upd_store (SetLeaderId i) r) = nid r" "nodes (upd_store (SetLeaderId i) r) = nodes r"
    "wal (upd_store (SetLeaderId i) r) = wal r" for i
    by (simp_all add: upd_store_def)
  show ?thesis
    unfolding Leader_OnEnter_def Let_def eq r2_def [symmetric]
    by (auto intro: frame_step_down frame.via [OF w(1) frame_step_down] frame.via [OF w(2) send]
        split: prod.splits option.splits)
qed

lemma exit_role_store: "on_states (\<lambda>r'. store r' = store r) (exit_role r)"
proof -
  have chans: "on_states (\<lambda>r'. store r' = store r) (close_chans cs r)" for cs and r :: "('l, 's) raft"
  proof (induction cs arbitrary: r)
    case (Cons c cs)
    have "on_states (\<lambda>r'. store r' = store r) (close_chan c r)"
      by (auto simp: close_chan_def split: option.splits)
    then show ?case
      by (simp, rule on_states_bindO) (auto intro: on_states_mono [OF Cons.IH])
  qed simp
  have upd: "store (upd_leader p g r) = store r" for p g and r :: "('l, 's) raft"
    by (simp add: upd_leader_def split: option.splits role_obj.splits)
  have drain: "on_states (\<lambda>r'. store r' = store r) (drain_pending p ps r)" for p ps and r :: "('l, 's) raft"
  proof (induction ps arbitrary: r)
    case (Cons a ps)
    show ?case
      by (simp, rule on_states_bindO [OF chans]) (auto simp: upd intro: on_states_mono [OF Cons.IH])
  qed simp
  have "on_states (\<lambda>r'. store r' = store r) (OnExit p r)" for p
    using drain by (auto simp: OnExit_def stopApplier_def upd split: option.splits role_obj.splits
        intro: on_states_mono [OF drain])
  then show ?thesis by (simp add: exit_role_def split: option.splits)
qed

text \<open>Becoming a leader: no vote request, no new candidacy, and a leader only of the current term.\<close>

definition may_lead :: "('l, 's) raft \<Rightarrow> ('l, 's) raft \<Rightarrow> bool" where
  "may_lead r r' \<longleftrightarrow>
     kept r r' \<and> vote_requests r' = vote_requests r
     \<and> (\<forall>p. candidacy r' p = None \<or> candidacy r' p = candidacy r p)
     \<and> (leads r' \<longrightarrow> currentTerm (store r') = currentTerm (store r))"

lemma frame_may_lead: "frame r r' \<Longrightarrow> may_lead r r'"
  by (simp add: frame_def may_lead_def)

lemma may_lead_frame:
  "may_lead a b \<Longrightarrow> frame b c \<Longrightarrow> may_lead a c"
  unfolding may_lead_def frame_def using kept_trans by metis

lemma frame_may_lead_same:
  "frame a b \<Longrightarrow> store b = store a \<Longrightarrow> may_lead b c \<Longrightarrow> may_lead a c"
  unfolding may_lead_def frame_def using kept_trans by metis

lemma becomeLeader_may_lead: "on_states (may_lead r) (becomeLeader E t r)"
proof -
  define enter where "enter = (\<lambda>r. case alloc (Leader (NewLeaderRole (config r))) (r\<lparr>roleEpoch := roleEpoch r + 1\<rparr>) of
      (p, r1) \<Rightarrow> bindO (Leader_OnEnter E p t (r1\<lparr>role := Some p\<rparr>)) (\<lambda>r u. Ret r p))"
  have enter: "on_states (may_lead r) (enter r)" for r
  proof -
    define r2 where "r2 = (snd (alloc (Leader (NewLeaderRole (config r))) (r\<lparr>roleEpoch := roleEpoch r + 1\<rparr>)))
      \<lparr>role := Some (nextPtr r)\<rparr>"
    have "may_lead r r2"
      by (auto simp: r2_def may_lead_def kept_def alloc_def vote_requests_def candidacy_def on_disk_def snapshotPath_def)
    moreover have "on_states (frame r2) (bindO (Leader_OnEnter E (nextPtr r) t r2) (\<lambda>r u. Ret r (nextPtr r2 - 1)))"
      by (rule frame.bind [OF frame_Leader_OnEnter]) simp
    ultimately have "on_states (may_lead r) (bindO (Leader_OnEnter E (nextPtr r) t r2) (\<lambda>r u. Ret r (nextPtr r2 - 1)))"
      by (auto intro: on_states_mono may_lead_frame)
    then show ?thesis by (simp add: enter_def r2_def alloc_def)
  qed
  have "on_states (\<lambda>r'. frame r r' \<and> store r' = store r) (exit_role r)"
    using frame_exit_role [of r] exit_role_store [of r] by (cases "exit_role r") auto
  then have "on_states (may_lead r) (bindO (exit_role r) (\<lambda>r u. enter r))"
    by (rule on_states_bindO) (auto intro: on_states_mono [OF enter] frame_may_lead_same frame_may_lead)
  then show ?thesis by (simp add: becomeLeader_def enter_def)
qed

section \<open>Becoming a leader writes no vote\<close>

definition calm :: "('l, 's) raft \<Rightarrow> ('l, 's) raft \<Rightarrow> bool" where
  "calm r r' \<longleftrightarrow>
     currentTerm (store r') = currentTerm (store r) \<and> votedFor (store r') = votedFor (store r)"

interpretation calm: step_preorder calm
  by unfold_locales (auto simp: calm_def)

lemma calm_updates [simp]:
  "calm r (upd_leader p g r)" "calm r (upd_store (SetLeaderId l) r)" "calm r (go g' r)"
  "calm r (setCommitIndex E ci r)" "calm r (r\<lparr>wal := w\<rparr>)"
  by (auto simp: calm_def upd_leader_def upd_store_def SetLeaderId_def go_def setCommitIndex_def Let_def
      split: option.splits role_obj.splits prod.splits)

interpretation calm_leader: leader_preorder calm E UNIV for E
  by unfold_locales simp_all

lemmas calm_send_all = calm_leader.send_all [OF UNIV_I]

lemmas calm_tryAdvance = calm_leader.tryAdvance

lemma calm_exit_role: "on_states (calm r) (exit_role r)"
  by (rule on_states_mono [OF exit_role_store]) (simp add: calm_def)

lemma calm_becomeFollower:
  assumes "t \<le> currentTerm (store r)"
  shows "on_states (calm r) (becomeFollower t r)"
proof -
  have enter: "on_states (calm r) (bindO (NewFollowerRole (r\<lparr>roleEpoch := e\<rparr>)) (\<lambda>r p.
      bindO (Follower_OnEnter t (r\<lparr>role := Some p\<rparr>)) (\<lambda>r u. Ret r p)))"
    if "t \<le> currentTerm (store r)" for e and r :: "('l, 's) raft"
    using that by (auto simp: NewFollowerRole_eq Follower_OnEnter_def calm_def upd_store_def SetLeaderId_def
        split: option.splits)
  show ?thesis
    unfolding becomeFollower_def
    by (rule calm.bind [OF calm_exit_role enter]) (use assms in \<open>auto simp: calm_def\<close>)
qed

lemma calm_Leader_OnEnter:
  assumes "currentTerm (store r) = t"
  shows "on_states (calm r) (Leader_OnEnter E p t r)"
proof -
  define r2 where "r2 = upd_leader p (init_progress (nid r) (nodes r) (fst (gl_GetLastIndex E (wal r))))
     (upd_store (SetLeaderId (nid r)) r)"
  have r2: "calm r r2" unfolding r2_def by (rule calm.R_trans [OF calm_updates(2) calm_updates(1)])
  have send: "on_states (calm r) (bindO (sendAppendEntriesToAllNodes E p r) (\<lambda>r u.
      bindO (tryToAdvanceCommitIndex E p r) (\<lambda>r. Ret (go (RunApplier p) r))))" for r
    by (rule calm.bind [OF calm_send_all], rule calm.bind [OF calm_tryAdvance]) simp
  have w: "calm r (r2\<lparr>wal := x\<rparr>)" "calm r (upd_leader q g (r2\<lparr>wal := x\<rparr>))" for x q g
    using calm.R_trans [OF r2 calm_updates(5)] calm.R_trans [OF calm.R_trans [OF r2 calm_updates(5)] calm_updates(1)]
    by blast+
  have down: "on_states (calm r) (bindO (becomeFollower (currentTerm (store r)) (r2\<lparr>wal := x\<rparr>)) (\<lambda>r q. Ret r ()))" for x
    by (rule calm.via [OF w(1) [of x]], rule calm.bind [OF calm_becomeFollower])
      (use w(1) [of x] in \<open>auto simp: calm_def\<close>)
  have eq: "nid (upd_store (SetLeaderId i) r) = nid r" "nodes (upd_store (SetLeaderId i) r) = nodes r"
    "wal (upd_store (SetLeaderId i) r) = wal r" for i
    by (simp_all add: upd_store_def)
  show ?thesis
    unfolding Leader_OnEnter_def Let_def eq r2_def [symmetric] assms [symmetric]
    by (auto intro: down calm.via [OF w(2) send] split: prod.splits option.splits)
qed

lemma calm_becomeLeader:
  assumes "currentTerm (store r) = t"
  shows "on_states (calm r) (becomeLeader E t r)"
proof -
  have enter: "on_states (calm r) (case alloc (Leader (NewLeaderRole (config r))) (r\<lparr>roleEpoch := roleEpoch r + 1\<rparr>) of
      (p, r1) \<Rightarrow> bindO (Leader_OnEnter E p t (r1\<lparr>role := Some p\<rparr>)) (\<lambda>r u. Ret r p))"
    if "currentTerm (store r) = t" for r
  proof -
    define r2 where "r2 = (snd (alloc (Leader (NewLeaderRole (config r))) (r\<lparr>roleEpoch := roleEpoch r + 1\<rparr>)))
      \<lparr>role := Some (nextPtr r)\<rparr>"
    have s: "store r2 = store r" by (simp add: r2_def alloc_def)
    then have "on_states (calm r2) (bindO (Leader_OnEnter E (nextPtr r) t r2) (\<lambda>r u. Ret r (nextPtr r2 - 1)))"
      using that by (intro calm.bind [OF calm_Leader_OnEnter]) (simp_all add: calm.R_refl)
    then have "on_states (calm r) (bindO (Leader_OnEnter E (nextPtr r) t r2) (\<lambda>r u. Ret r (nextPtr r2 - 1)))"
      by (rule calm.via [rotated]) (simp add: calm_def s)
    then show ?thesis by (simp add: r2_def alloc_def)
  qed
  show ?thesis
    unfolding becomeLeader_def
    by (rule calm.bind [OF calm_exit_role enter]) (use assms in \<open>auto simp: calm_def\<close>)
qed

section \<open>The handlers and the answers keep the frame\<close>

lemma frame_Leader_Tick: "on_states (frame r) (Leader_Tick E p r)"
  unfolding Leader_Tick_def Let_def
  by (rule frame.via [OF frame_roles(1)], rule frame.bind; rule frame_with_leader)
    (auto intro: frame_send_all frame_step_down)

lemma frame_Leader_AppendEntries: "on_states (frame r) (Leader_HandleAppendEntries E t l pi pt es ci r)"
  unfolding Leader_HandleAppendEntries_def
  by (auto intro: frame.bind [OF frame_becomeFollower frame_Follower_AppendEntries])

lemma frame_Leader_RequestVote: "on_states (frame r) (Leader_HandleRequestVote E t c i lt r)"
  unfolding Leader_HandleRequestVote_def
  by (auto intro: frame.bind [OF frame_becomeFollower frame_Follower_RequestVote])

lemma frame_Leader_PreVote: "on_states (frame r) (Leader_HandlePreVote t c i lt r)"
  by (simp add: Leader_HandlePreVote_def)

text \<open>\<open>becomeFollower\<close> never returns on a leader.\<close>

lemma becomeFollower_not_leads: "becomeFollower t r = Ret r' p \<Longrightarrow> \<not> leads r'"
proof -
  assume "becomeFollower t r = Ret r' p"
  then obtain r0 r1 where n: "NewFollowerRole r0 = Ret r1 p" and e: "Follower_OnEnter t (r1\<lparr>role := Some p\<rparr>) = Ret r' ()"
    by (auto simp: becomeFollower_def)
  have nl: "\<not> leads (r1\<lparr>role := Some p\<rparr>)" using frame_enter_follower [OF n] by simp
  have "frame (r1\<lparr>role := Some p\<rparr>) r'" using frame_Follower_OnEnter [OF nl, of t] e by simp
  with nl show "\<not> leads r'" by (auto simp: frame_def)
qed

lemma frame_Leader_InstallSnapshot: "on_states (frame r) (Leader_HandleInstallSnapshot E t l i lt bs r)"
  unfolding Leader_HandleInstallSnapshot_def
  by (auto intro!: frame.bind [OF frame_becomeFollower] frame_Follower_InstallSnapshot
      dest: becomeFollower_not_leads)

lemma frame_HandlePropose_begin: "on_states (frame r) (HandlePropose_begin E p bs cid sn ep r)"
proof -
  have mk: "frame r (snd (make_chan r))" for r :: "('l, 's) raft" by (simp add: make_chan_def)
  have body: "on_states (frame r) (bindO (sendAppendEntriesToAllNodes E p r)
     (\<lambda>r u. Ret (upd_leader p (raise_own (nid r) i) r) (Waiting i ch)))" for r i ch
    by (rule frame.bind [OF frame_send_all]) simp
  have pre: "frame r (upd_leader p g (snd (make_chan (r\<lparr>wal := w\<rparr>))))" for g w
    by (rule frame_trans [OF frame_trans [OF frame_fields(5) mk] frame_roles(1)])
  show ?thesis
    unfolding HandlePropose_begin_def
    by (rule frame_with_leader)
      (auto simp: Let_def case_prod_beta' intro: frame.via [OF pre body] split: option.splits)
qed

lemma frame_HandlePropose_cancel: "on_states (frame r) (HandlePropose_cancel p i ch r)"
  unfolding HandlePropose_cancel_def by (rule frame_with_leader) (simp add: Let_def)

lemma frame_answer_waiters: "on_states (frame r) (answer_waiters v cs r)"
proof (induction cs arbitrary: r)
  case (Cons c cs)
  have s: "on_states (frame r) (send_chan c v r)" "on_states (frame r) (close_chan c r)" for r :: "('l, 's) raft"
    by (auto simp: send_chan_def close_chan_def split: option.splits)
  show ?case by (simp, rule frame.bind [OF s(1)], rule frame.bind [OF s(2)], rule Cons.IH)
qed simp

lemma frame_leader_apply_entry: "on_states (frame r) (leader_apply_entry E p idx r)"
proof -
  have w: "on_states (frame r) (with_leader p (\<lambda>l r. answer_waiters (a l) (pending_at l idx)
      (if pending_at l idx \<noteq> [] then upd_leader p (del_pending idx) r else r)) r)" for a and r :: "('l, 's) raft"
    by (rule frame_with_leader) (auto intro: frame.via [OF frame_roles(1) frame_answer_waiters] frame_answer_waiters)
  show ?thesis
    unfolding leader_apply_entry_def Let_def
    by (auto intro!: frame.bind [OF frame_apply_command] frame.bind [OF w] split: option.splits sum.splits)
qed

lemma frame_leader_apply_loop: "on_states (frame r) (leader_apply_loop E p n idx r)"
proof (induction n arbitrary: idx r)
  case (Suc n)
  then show ?case by (auto intro: frame.bind [OF frame_leader_apply_entry])
qed simp

lemma frame_applier_round: "on_states (frame r) (applier_round E p stops r)"
proof -
  have un: "on_states (frame r) (bindO (markUnhealthy r) (\<lambda>r u. Ret r False))" for r :: "('l, 's) raft"
    by (rule frame.bind [OF frame_markUnhealthy]) simp
  have ap: "on_states (frame r) (applyToFiniteStateMachine_leader E p (upd_leader p g r))" for g
    unfolding applyToFiniteStateMachine_leader_def case_prod_beta'
    by (rule frame.via [OF frame_roles(1) frame_leader_apply_loop])
  note ret = on_states_dest(1) [OF ap] and panics = frame.via [OF on_states_dest(2) [OF ap] un]
  show ?thesis
    unfolding applier_round_def
    by (rule frame_with_leader) (auto split: outcome.splits intro: ret panics)
qed

lemma frame_recover_send: "on_states (frame r) m \<Longrightarrow> on_states (frame r) (recover_send p node m)"
  by (cases m) (auto simp: recover_send_def intro: frame_trans [OF _ frame_set_inflight])

lemma frame_AppendEntries_reply:
  "on_states (frame r) (AppendEntries_reply E p node t pi es reply r)"
proof -
  have succ: "on_states (frame r) (bindO (tryToAdvanceCommitIndex E p (upd_leader p g r)) (\<lambda>r u.
      with_leader p (\<lambda>l r. if l_nextIndex l node \<le> fst (gl_GetLastIndex E (wal r))
         then retrySendAppendEntriesToNode E p node t r else Ret r ()) r))" for g r t
    by (rule frame.bind [OF frame.via [OF frame_roles(1) frame_tryAdvance]], rule frame_with_leader)
      (auto intro: frame_retry)
  have retreat: "on_states (frame r) (with_leader p (\<lambda>l r. if 1 < l_nextIndex l node
      then retrySendAppendEntriesToNode E p node t (upd_leader p (g r) r) else Ret r ()) r)" for g r t
    by (rule frame_with_leader) (auto intro: frame.via [OF frame_roles(1) frame_retry])
  show ?thesis
    unfolding AppendEntries_reply_def Let_def case_prod_beta'
    by (rule frame_recover_send, rule frame.via [OF frame_set_inflight])
      (auto intro: frame_step_down succ retreat)
qed

lemma frame_InstallSnapshot_reply: "on_states (frame r) (InstallSnapshot_reply E p node snap t r)"
  unfolding InstallSnapshot_reply_def Let_def
  by (rule frame_recover_send, rule frame.via [OF frame_set_inflight])
    (auto intro: frame_step_down frame.via [OF frame_roles(1) frame_tryAdvance])

lemma frame_snapshot_load: "frame r (snd (sendInstallSnapshot_load p node r))"
  unfolding sendInstallSnapshot_load_def
  by (auto intro: frame_LoadSnapshot frame_trans [OF frame_LoadSnapshot frame_set_inflight]
      split: prod.splits sum.splits)

end
