(* ===== verification/Candidate.thy ===== *)
theory Candidate
  imports Leader
begin

text \<open>
  \<^verbatim>\<open>internal/candidate_role.go\<close>, \<^verbatim>\<open>Raft.becomeCandidate\<close>, and the tick of a follower, which starts a
  candidacy: the pre-vote, the election, the handlers, and what is done with the answers of the
  voters.
\<close>

section \<open>Starting an election\<close>

definition with_candidate :: "nat \<Rightarrow> (CandidateRole \<Rightarrow> ('l, 's, 'a) step) \<Rightarrow> ('l, 's, 'a) step" where
  "with_candidate p g r = (case heap r p of Some (Candidate c) \<Rightarrow> g c r | _ \<Rightarrow> Panic r)"

definition NewCandidateRole :: "('l, 's, nat) step" where
  "NewCandidateRole r =
     (case electionDeadline_of (config r) (rgen r) of
        None \<Rightarrow> Panic r
      | Some (k, g) \<Rightarrow>
          (case alloc (Candidate \<lparr>c_electionDeadline = k, c_electionTicks = 0,
                                  c_majority = length (nodes r) div 2 + 1, c_nodes = nodes r,
                                  c_preVote = True, c_preVotes = 0, c_votes = 0\<rparr>) (r\<lparr>rgen := g\<rparr>) of
             (p, r') \<Rightarrow> Ret r' p))"

primrec go_all :: "goroutine list \<Rightarrow> ('l, 's) raft \<Rightarrow> ('l, 's) raft" where
  "go_all [] r = r"
| "go_all (g # gs) r = go_all gs (go g r)"

definition peers :: "gostring \<Rightarrow> gostring list \<Rightarrow> gostring list" where
  "peers me ns = filter (\<lambda>n. n \<noteq> me) ns"

definition startElection :: "('l, 's) env \<Rightarrow> nat \<Rightarrow> ('l, 's, unit) step" where
  "startElection E p r =
     (case on_store IncrementCurrentTerm r of
        ((ct, Some err), r1) \<Rightarrow> markUnhealthy r1
      | ((ct, None), r1) \<Rightarrow>
          (case on_store (SetVotedFor (nid r1)) r1 of
             (Some err, r2) \<Rightarrow> markUnhealthy r2
           | (None, r2) \<Rightarrow>
               with_candidate p (\<lambda>c r.
                 if c_votes c \<ge> c_majority c
                 then bindO (becomeLeader E ct r) (\<lambda>r q. Ret r ())
                 else case getLastLogEntryIndexAndTerm E r of (lastIndex, lastTerm) \<Rightarrow>
                        Ret (go_all (map (\<lambda>node. SendRequestVote p node ct (nid r) lastIndex lastTerm)
                                       (peers (nid r) (c_nodes c))) r) ())
                 (upd_candidate p (\<lambda>c. c\<lparr>c_votes := c_votes c + 1\<rparr>) r2)))"

definition startPreElection :: "('l, 's) env \<Rightarrow> nat \<Rightarrow> ('l, 's, unit) step" where
  "startPreElection E p r =
     (let ct = currentTerm (store r) in
      with_candidate p (\<lambda>c r.
        if c_preVotes c \<ge> c_majority c
        then startElection E p (upd_candidate p (\<lambda>c. c\<lparr>c_preVote := False\<rparr>) r)
        else case getLastLogEntryIndexAndTerm E r of (lastIndex, lastTerm) \<Rightarrow>
               Ret (go_all (map (\<lambda>node. SendPreVote p node ct (nid r) lastIndex lastTerm)
                              (peers (nid r) (c_nodes c))) r) ())
        (upd_candidate p (\<lambda>c. c\<lparr>c_preVotes := c_preVotes c + 1\<rparr>) r))"

definition Candidate_OnEnter :: "('l, 's) env \<Rightarrow> nat \<Rightarrow> ('l, 's, unit) step" where
  "Candidate_OnEnter E p =
     with_candidate p (\<lambda>c r. if c_preVote c then startPreElection E p r else startElection E p r)"

definition becomeCandidate :: "('l, 's) env \<Rightarrow> ('l, 's, nat) step" where
  "becomeCandidate E r =
     bindO (exit_role r) (\<lambda>r u.
     bindO (NewCandidateRole (r\<lparr>roleEpoch := roleEpoch r + 1\<rparr>)) (\<lambda>r p.
     bindO (Candidate_OnEnter E p (r\<lparr>role := Some p\<rparr>)) (\<lambda>r u. Ret r p)))"

section \<open>Ticks\<close>

definition Candidate_Tick :: "('l, 's) env \<Rightarrow> nat \<Rightarrow> ('l, 's, unit) step" where
  "Candidate_Tick E p r =
     with_candidate p (\<lambda>c r.
       if c_electionTicks c \<ge> c_electionDeadline c
       then bindO (becomeCandidate E r) (\<lambda>r q. Ret r ())
       else Ret r ())
       (upd_candidate p (\<lambda>c. c\<lparr>c_electionTicks := c_electionTicks c + 1\<rparr>) r)"

definition with_follower :: "nat \<Rightarrow> (FollowerRole \<Rightarrow> ('l, 's, 'a) step) \<Rightarrow> ('l, 's, 'a) step" where
  "with_follower p g r = (case heap r p of Some (Follower f) \<Rightarrow> g f r | _ \<Rightarrow> Panic r)"

definition Follower_Tick :: "('l, 's) env \<Rightarrow> nat \<Rightarrow> ('l, 's, unit) step" where
  "Follower_Tick E p r =
     with_follower p (\<lambda>f r.
       if f_electionTicks f \<ge> f_electionDeadline f
       then bindO (becomeCandidate E r) (\<lambda>r q. Ret r ())
       else Ret r ())
       (upd_follower p (\<lambda>f. f\<lparr>f_electionTicks := f_electionTicks f + 1\<rparr>) r)"

section \<open>Handlers\<close>

definition Candidate_HandleAppendEntries ::
  "('l, 's) env \<Rightarrow> u64 \<Rightarrow> gostring \<Rightarrow> u64 \<Rightarrow> u64 \<Rightarrow> LogEntry list \<Rightarrow> u64 \<Rightarrow> ('l, 's, append_reply) step" where
  "Candidate_HandleAppendEntries E term leader prevIndex prevTerm es leaderCommit r =
     (if term < currentTerm (store r) then Ret r (currentTerm (store r), False, 0, 0)
      else bindO (becomeFollower term r) (\<lambda>r q.
             Follower_HandleAppendEntries (stackDepth E) E q term leader prevIndex prevTerm es leaderCommit r))"

definition Candidate_HandlePreVote ::
  "('l, 's) env \<Rightarrow> u64 \<Rightarrow> gostring \<Rightarrow> u64 \<Rightarrow> u64 \<Rightarrow> ('l, 's, vote_reply) step" where
  "Candidate_HandlePreVote E term candidateId lastIndex lastTerm r =
     (if term < currentTerm (store r) then Ret r (currentTerm (store r), False)
      else if \<not> isLogEqualOrMoreRecent E r lastIndex lastTerm then Ret r (currentTerm (store r), False)
      else Ret r (currentTerm (store r), True))"

definition Candidate_HandleRequestVote ::
  "('l, 's) env \<Rightarrow> u64 \<Rightarrow> gostring \<Rightarrow> u64 \<Rightarrow> u64 \<Rightarrow> ('l, 's, vote_reply) step" where
  "Candidate_HandleRequestVote E term candidateId lastIndex lastTerm r =
     (if term \<le> currentTerm (store r) then Ret r (currentTerm (store r), False)
      else bindO (becomeFollower term r) (\<lambda>r q.
             Follower_HandleRequestVote (stackDepth E) E q term candidateId lastIndex lastTerm r))"

definition Candidate_HandleInstallSnapshot ::
  "('l, 's) env \<Rightarrow> u64 \<Rightarrow> gostring \<Rightarrow> u64 \<Rightarrow> u64 \<Rightarrow> bytes \<Rightarrow> ('l, 's, u64) step" where
  "Candidate_HandleInstallSnapshot E term leader lastIncludedIndex lastIncludedTerm bs r =
     (if term < currentTerm (store r) then Ret r (currentTerm (store r))
      else bindO (becomeFollower term r) (\<lambda>r q.
             Follower_HandleInstallSnapshot E q term leader lastIncludedIndex lastIncludedTerm bs r))"

definition Candidate_HandlePropose :: "bytes \<Rightarrow> gostring \<Rightarrow> u64 \<Rightarrow> ('l, 's) raft \<Rightarrow> forward" where
  "Candidate_HandlePropose bs clientId sequenceNumber r =
     (if leaderId (store r) = [] then NoLeader else Forward (leaderId (store r)) bs)"

section \<open>Answers of the voters\<close>

text \<open>The goroutines recover from a panic and change nothing then.\<close>

definition recover_vote :: "(('l, 's) raft, unit) outcome \<Rightarrow> (('l, 's) raft, unit) outcome" where
  "recover_vote m = (case m of Panic r \<Rightarrow> Ret r () | _ \<Rightarrow> m)"

definition PreVote_reply :: "('l, 's) env \<Rightarrow> nat \<Rightarrow> u64 \<Rightarrow> vote_reply \<Rightarrow> ('l, 's, unit) step" where
  "PreVote_reply E p term reply r =
     (case reply of (t, granted) \<Rightarrow>
      recover_vote
       (let ct = currentTerm (store r) in
        if t > ct then bindO (becomeFollower t r) (\<lambda>r q. Ret r ())
        else if \<not> granted then Ret r ()
        else with_candidate p (\<lambda>c r.
          if role_kind_of r \<noteq> Some KCandidate \<or> \<not> c_preVote c \<or> ct \<noteq> term then Ret r ()
          else let r1 = upd_candidate p (\<lambda>c. c\<lparr>c_preVotes := c_preVotes c + 1\<rparr>) r in
               if c_preVotes c + 1 \<ge> c_majority c
               then startElection E p (upd_candidate p (\<lambda>c. c\<lparr>c_preVote := False\<rparr>) r1)
               else Ret r1 ()) r))"

definition RequestVote_reply :: "('l, 's) env \<Rightarrow> nat \<Rightarrow> u64 \<Rightarrow> vote_reply \<Rightarrow> ('l, 's, unit) step" where
  "RequestVote_reply E p term reply r =
     (case reply of (t, voteGranted) \<Rightarrow>
      recover_vote
       (let ct = currentTerm (store r) in
        if t > ct then bindO (becomeFollower t r) (\<lambda>r q. Ret r ())
        else if \<not> voteGranted \<or> t \<noteq> term then Ret r ()
        else if role_kind_of r \<noteq> Some KCandidate \<or> ct \<noteq> term then Ret r ()
        else with_candidate p (\<lambda>c r.
          let r1 = upd_candidate p (\<lambda>c. c\<lparr>c_votes := c_votes c + 1\<rparr>) r in
          if c_votes c + 1 \<ge> c_majority c
          then bindO (becomeLeader E term r1) (\<lambda>r q. Ret r ())
          else Ret r1 ()) r))"

section \<open>What an election does to a node\<close>

text \<open>There is a next term: the term is not the last one of 64 bits.\<close>

definition room :: "('l, 's) raft \<Rightarrow> bool" where
  "room r \<longleftrightarrow> currentTerm (store r) < currentTerm (store r) + 1"

text \<open>
  \<open>campaign p r r'\<close>: the candidate \<open>p\<close> has failed to start an election, or its node has entered
  the next term, voted for itself and counted that vote; it then leads only if that was a
  majority, and its new vote requests are for that term.
\<close>

definition campaign :: "nat \<Rightarrow> ('l, 's) raft \<Rightarrow> ('l, 's) raft \<Rightarrow> bool" where
  "campaign p r r' \<longleftrightarrow>
     kept r r' \<and> (\<forall>q. q \<noteq> p \<longrightarrow> candidacy r' q = None \<or> candidacy r' q = candidacy r q)
     \<and> (vote_requests r' = vote_requests r \<and> \<not> leads r'
          \<and> (candidacy r' p = None \<or> candidacy r' p = candidacy r p)
        \<or> (\<exists>pv v m ns. candidacy r p = Some (pv, v, m, ns)
             \<and> (candidacy r' p = None \<or> candidacy r' p = Some (pv, Suc v, m, ns))
             \<and> currentTerm (store r') = currentTerm (store r) + 1 \<and> votedFor (store r') = nid r
             \<and> (leads r' \<longrightarrow> m \<le> Suc v)
             \<and> (vote_requests r' = vote_requests r
                \<or> (\<exists>i lt. vote_requests r' = vote_requests r
                     @ map (\<lambda>n. SendRequestVote p n (currentTerm (store r')) (nid r) i lt) (peers (nid r) ns)))))"

lemma go_all_eq: "go_all gs r = r\<lparr>spawned := spawned r @ gs\<rparr>"
  by (induction gs arbitrary: r) (simp_all add: go_def)

lemma leads_heap: "role r' = role r \<Longrightarrow> heap r' = heap r \<Longrightarrow> leads r' = leads r"
  by (simp add: leads_def role_kind_of_def split: option.splits)

lemma upd_candidate_effect:
  "store (upd_candidate p g r) = store r" "kept r (upd_candidate p g r)"
  "vote_requests (upd_candidate p g r) = vote_requests r" "leads (upd_candidate p g r) = leads r"
  "q \<noteq> p \<Longrightarrow> candidacy (upd_candidate p g r) q = candidacy r q"
  "heap r p = Some (Candidate c) \<Longrightarrow> heap (upd_candidate p g r) p = Some (Candidate (g c))"
  "\<nexists>c. heap r p = Some (Candidate c) \<Longrightarrow> upd_candidate p g r = r"
  "nid (upd_candidate p g r) = nid r" "nodes (upd_candidate p g r) = nodes r"
  "currentTerm (store (upd_candidate p g r)) = currentTerm (store r)"
  "role (upd_candidate p g r) = role r" "nextPtr (upd_candidate p g r) = nextPtr r"
  by (auto simp: upd_candidate_def kept_def vote_requests_def leads_def role_kind_of_def candidacy_def
      on_disk_def snapshotPath_def split: option.splits role_obj.splits if_splits)

lemma frame_upd_candidate:
  "(\<And>c. c_preVote (g c) = c_preVote c \<and> c_votes (g c) = c_votes c \<and> c_majority (g c) = c_majority c
      \<and> c_nodes (g c) = c_nodes c) \<Longrightarrow> frame r (upd_candidate p g r)"
  unfolding frame_def using upd_candidate_effect [where p = p and g = g and r = r]
  by (auto simp: upd_candidate_def candidacy_def split: option.splits role_obj.splits)

lemma kept_Increment:
  assumes "on_store IncrementCurrentTerm r = ((ct, e), r1)" and "room r"
  shows "kept r r1" "e \<noteq> None \<Longrightarrow> store r1 = store r"
    "e = None \<Longrightarrow> ct = currentTerm (store r) + 1 \<and> store r1 = (store r)\<lparr>currentTerm := ct\<rparr>"
proof -
  obtain s' d' where sv: "IncrementCurrentTerm (store r) (fdisk r) = ((ct, e), s', d')"
    and r': "r1 = r\<lparr>store := s', fdisk := d'\<rparr>"
    using assms(1) by (auto simp: on_store_def split: prod.splits)
  note c = IncrementCurrentTerm_cases [OF sv]
  show "kept r r1"
    by (rule c; rule kept_on_store [OF r']) (use assms(2) in \<open>auto simp: advances_def room_def\<close>)
  show "e \<noteq> None \<Longrightarrow> store r1 = store r" by (rule c) (simp_all add: r')
  show "e = None \<Longrightarrow> ct = currentTerm (store r) + 1 \<and> store r1 = (store r)\<lparr>currentTerm := ct\<rparr>"
    by (rule c) (simp_all add: r')
qed

lemma kept_vote_next_term:
  assumes "kept r r1" and "store r1 = (store r)\<lparr>currentTerm := currentTerm (store r) + 1\<rparr>" and "room r"
    and "on_store (SetVotedFor v) r1 = (e, r2)"
  shows "kept r r2" "currentTerm (store r2) = currentTerm (store r) + 1"
    "e = None \<Longrightarrow> votedFor (store r2) = v"
proof -
  obtain s' d' where sv: "SetVotedFor v (store r1) (fdisk r1) = (e, s', d')"
    and r2: "r2 = r1\<lparr>store := s', fdisk := d'\<rparr>"
    using assms(4) by (auto simp: on_store_def split: prod.splits)
  note c = SetVotedFor_cases [OF sv]
  show "currentTerm (store r2) = currentTerm (store r) + 1" "e = None \<Longrightarrow> votedFor (store r2) = v"
    by (rule c; simp add: r2 assms(2))+
  have "on_disk r1 \<longrightarrow> on_disk r2"
    by (rule c) (auto simp: r2 on_disk_def persisted_def snapshotPath_def)
  moreover have "advances (store r) (store r2)"
    by (rule c) (use assms(2,3) in \<open>auto simp: r2 advances_def room_def\<close>)
  ultimately show "kept r r2" using assms(1) by (auto simp: kept_def r2)
qed

lemma campaign_quiet:
  assumes "kept r r1" "heap r1 = heap r" "role r1 = role r" "spawned r1 = spawned r" "\<not> leads r" "frame r1 r'"
  shows "campaign p r r'"
proof -
  have "\<not> leads r1" "\<And>q. candidacy r1 q = candidacy r q" "vote_requests r1 = vote_requests r"
    using assms leads_heap [of r1 r] by (auto simp: candidacy_def vote_requests_def)
  then show ?thesis
    using assms(6) kept_trans [OF assms(1) frame_kept [OF assms(6)]] unfolding campaign_def frame_def
    by metis
qed

lemma vote_requests_go_all:
  "vote_requests (r\<lparr>spawned := spawned r @ map (\<lambda>n. SendRequestVote p n t c i lt) ns\<rparr>)
     = vote_requests r @ map (\<lambda>n. SendRequestVote p n t c i lt) ns"
  "vote_requests (r\<lparr>spawned := spawned r @ map (\<lambda>n. SendPreVote p n t c i lt) ns\<rparr>) = vote_requests r"
  by (simp_all add: vote_requests_def filter_map o_def)

lemma kept_spawned [simp]: "kept r (r\<lparr>spawned := gs\<rparr>)"
  by (simp add: kept_def on_disk_def snapshotPath_def)

text \<open>The part of \<open>startElection\<close> after the term and the vote are on disk.\<close>

lemma campaign_counted:
  assumes k: "kept r r2" "currentTerm (store r2) = currentTerm (store r) + 1" "votedFor (store r2) = nid r"
    and h: "heap r2 = heap r" "role r2 = role r" "spawned r2 = spawned r" and nl: "\<not> leads r"
    and ct: "ct = currentTerm (store r) + 1"
  shows "on_states (campaign p r) (with_candidate p (\<lambda>c r.
           if c_votes c \<ge> c_majority c then bindO (becomeLeader E ct r) (\<lambda>r q. Ret r ())
           else case getLastLogEntryIndexAndTerm E r of (li, lt) \<Rightarrow>
             Ret (go_all (map (\<lambda>n. SendRequestVote p n ct (nid r) li lt) (peers (nid r) (c_nodes c))) r) ())
           (upd_candidate p (\<lambda>c. c\<lparr>c_votes := c_votes c + 1\<rparr>) r2))"
proof (cases "\<exists>c. heap r p = Some (Candidate c)")
  case False
  then have "upd_candidate p (\<lambda>c. c\<lparr>c_votes := c_votes c + 1\<rparr>) r2 = r2" "\<nexists>c. heap r2 p = Some (Candidate c)"
    using h by (simp_all add: upd_candidate_effect)
  then show ?thesis
    using campaign_quiet [OF k(1) h nl frame_refl] by (auto simp: with_candidate_def split: option.splits role_obj.splits)
next
  case True
  then obtain c where c: "heap r p = Some (Candidate c)" by blast
  define r3 where "r3 = upd_candidate p (\<lambda>c. c\<lparr>c_votes := c_votes c + 1\<rparr>) r2"
  have cr: "candidacy r p = Some (c_preVote c, c_votes c, c_majority c, c_nodes c)" using c by (simp add: candidacy_def)
  have r3: "heap r3 p = Some (Candidate (c\<lparr>c_votes := c_votes c + 1\<rparr>))" "store r3 = store r2" "kept r r3"
    "vote_requests r3 = vote_requests r" "\<not> leads r3" "nid r3 = nid r"
    "\<And>q. q \<noteq> p \<Longrightarrow> candidacy r3 q = candidacy r q"
  proof -
    have "kept r2 r3" by (simp add: r3_def upd_candidate_effect(2))
    with k(1) show "kept r r3" by (rule kept_trans)
    have "nid r2 = nid r" using k(1) by (simp add: kept_def)
    then show "nid r3 = nid r" by (simp add: r3_def upd_candidate_effect(8))
    show "\<not> leads r3" using nl leads_heap [OF h(2,1)] by (simp add: r3_def upd_candidate_effect(4))
    have r2: "vote_requests r2 = vote_requests r" "candidacy r2 q = candidacy r q" for q
      using h by (simp_all add: vote_requests_def candidacy_def)
    show "vote_requests r3 = vote_requests r" by (simp add: r3_def upd_candidate_effect(3) r2)
    show "candidacy r3 q = candidacy r q" if "q \<noteq> p" for q
      using that by (simp add: r3_def upd_candidate_effect(5) r2)
  qed (use c h in \<open>simp_all add: r3_def upd_candidate_effect\<close>)
  have c3: "candidacy r3 p = Some (c_preVote c, Suc (c_votes c), c_majority c, c_nodes c)"
    using r3(1) by (simp add: candidacy_def)
  have won: "campaign p r r'" if "may_lead r3 r'" "calm r3 r'" "c_majority c \<le> Suc (c_votes c)" for r'
    using that k(2,3) r3 c3 cr kept_trans [OF r3(3), of r'] unfolding may_lead_def calm_def campaign_def
    by (metis (no_types, lifting))
  have lead: "on_states (campaign p r) (becomeLeader E ct r3)" if "c_majority c \<le> Suc (c_votes c)"
  proof -
    have "on_states (calm r3) (becomeLeader E ct r3)" using r3(2) k(2) ct by (simp add: calm_becomeLeader)
    with becomeLeader_may_lead [of r3 E ct] won that show ?thesis by (cases "becomeLeader E ct r3") auto
  qed
  have asked: "campaign p r (go_all (map (\<lambda>n. SendRequestVote p n ct (nid r3) li lt) (peers (nid r3) (c_nodes c))) r3)"
    for li lt
  proof -
    let ?r' = "r3\<lparr>spawned := spawned r3 @ map (\<lambda>n. SendRequestVote p n ct (nid r) li lt) (peers (nid r) (c_nodes c))\<rparr>"
    have "kept r ?r'" using kept_trans [OF r3(3) kept_spawned] .
    moreover have "\<not> leads ?r'" using r3(5) leads_heap [of ?r' r3] by simp
    moreover have "candidacy ?r' q = candidacy r3 q" for q by (simp add: candidacy_def)
    moreover have "vote_requests ?r' = vote_requests r3 @ map (\<lambda>n. SendRequestVote p n ct (nid r) li lt) (peers (nid r) (c_nodes c))"
      by (rule vote_requests_go_all)
    ultimately have "campaign p r ?r'" unfolding campaign_def using r3 c3 cr k(2,3) ct by auto
    then show ?thesis by (simp add: go_all_eq r3(6))
  qed
  have "on_states (campaign p r) (bindO (becomeLeader E ct r3) (\<lambda>r q. Ret r ()))" if "c_majority c \<le> Suc (c_votes c)"
    using lead [OF that] by (cases "becomeLeader E ct r3") auto
  then show ?thesis
    unfolding r3_def [symmetric] using asked r3(1) by (auto simp: with_candidate_def split: prod.splits)
qed

lemma startElection_campaign:
  assumes "\<not> leads r" and "room r"
  shows "on_states (campaign p r) (startElection E p r)"
proof -
  obtain ct e r1 where inc: "on_store IncrementCurrentTerm r = ((ct, e), r1)" by (metis prod.exhaust)
  note k1 = kept_Increment [OF inc assms(2)]
  have h1: "heap r1 = heap r" "role r1 = role r" "spawned r1 = spawned r" "nid r1 = nid r"
    using inc by (auto simp: on_store_def split: prod.splits)
  obtain e2 r2 where sv: "on_store (SetVotedFor (nid r1)) r1 = (e2, r2)" by (metis prod.exhaust)
  have h2: "heap r2 = heap r" "role r2 = role r" "spawned r2 = spawned r"
    using sv h1 by (auto simp: on_store_def split: prod.splits)
  have un: "on_states (campaign p r) (markUnhealthy q)"
    if "kept r q" "heap q = heap r" "role q = role r" "spawned q = spawned r" for q
    by (rule on_states_mono [OF frame_markUnhealthy]) (rule campaign_quiet [OF that assms(1)])
  show ?thesis
  proof (cases e)
    case (Some x)
    then show ?thesis using inc un [OF k1(1) h1(1-3)] by (simp add: startElection_def)
  next
    case None
    have st: "store r1 = (store r)\<lparr>currentTerm := currentTerm (store r) + 1\<rparr>" and ct: "ct = currentTerm (store r) + 1"
      using k1(3) [OF None] by auto
    note k2 = kept_vote_next_term [OF k1(1) st assms(2) sv]
    show ?thesis
    proof (cases e2)
      case (Some x)
      then show ?thesis using inc None sv un [OF k2(1) h2] by (simp add: startElection_def)
    next
      case None2: None
      show ?thesis
        using inc None sv None2 campaign_counted [OF k2(1,2) _ h2 assms(1) ct] k2(3) [OF None2] h1(4)
        by (simp add: startElection_def)
    qed
  qed
qed

text \<open>
  \<open>stands r p b r0\<close>: \<open>r0\<close> is \<open>r\<close> with a new candidate at \<open>p\<close> that has no votes, in the pre-vote
  phase if \<open>b\<close>. \<open>candidates r r'\<close>: a new candidate was made, or nothing of an election happened.
\<close>

definition stands :: "('l, 's) raft \<Rightarrow> nat \<Rightarrow> bool \<Rightarrow> ('l, 's) raft \<Rightarrow> bool" where
  "stands r p b r0 \<longleftrightarrow>
     kept r r0 \<and> store r0 = store r \<and> vote_requests r0 = vote_requests r \<and> \<not> leads r0
     \<and> nextPtr r \<le> p \<and> p < nextPtr r0
     \<and> candidacy r0 p = Some (b, 0, length (nodes r) div 2 + 1, nodes r)
     \<and> (\<forall>q. q \<noteq> p \<longrightarrow> candidacy r0 q = None \<or> candidacy r0 q = candidacy r q)"

definition candidates :: "('l, 's) raft \<Rightarrow> ('l, 's) raft \<Rightarrow> bool" where
  "candidates r r' \<longleftrightarrow>
     frame r r' \<or> (\<exists>p r0. stands r p True r0 \<and> frame r0 r') \<or> (\<exists>p r0. stands r p False r0 \<and> campaign p r0 r')"

lemma candidates_via: "frame r r1 \<Longrightarrow> store r1 = store r \<Longrightarrow> candidates r1 r' \<Longrightarrow> candidates r r'"
proof -
  assume f: "frame r r1" and s: "store r1 = store r"
  have "stands r p b r0" if "stands r1 p b r0" for p b r0
  proof -
    have "kept r r0" using that frame_kept [OF f] kept_trans unfolding stands_def by blast
    moreover have "nodes r1 = nodes r" "nextPtr r \<le> nextPtr r1" using frame_kept [OF f] by (auto simp: kept_def)
    moreover have "vote_requests r1 = vote_requests r" "\<And>q. candidacy r1 q = None \<or> candidacy r1 q = candidacy r q"
      using f by (auto simp: frame_def)
    ultimately show ?thesis using s that unfolding stands_def by (auto intro: order_trans) metis
  qed
  then show "candidates r1 r' \<Longrightarrow> candidates r r'"
    using f frame_trans unfolding candidates_def by blast
qed

lemma startPreElection_stands:
  assumes "stands r p True r0" and "room r"
  shows "on_states (candidates r) (startPreElection E p r0)"
proof -
  obtain c where c: "heap r0 p = Some (Candidate c)" and cv: "c_preVote c" "c_votes c = 0"
    using assms(1) by (auto simp: stands_def candidacy_def split: option.splits role_obj.splits)
  define r1 where "r1 = upd_candidate p (\<lambda>c. c\<lparr>c_preVotes := c_preVotes c + 1\<rparr>) r0"
  define r2 where "r2 = upd_candidate p (\<lambda>c. c\<lparr>c_preVote := False\<rparr>) r1"
  have f1: "frame r0 r1" unfolding r1_def by (rule frame_upd_candidate) simp
  have h1: "heap r1 p = Some (Candidate (c\<lparr>c_preVotes := c_preVotes c + 1\<rparr>))"
    by (simp add: r1_def upd_candidate_effect(6) [OF c])
  have h2: "heap r2 p = Some (Candidate (c\<lparr>c_preVotes := c_preVotes c + 1, c_preVote := False\<rparr>))"
    by (simp add: r2_def upd_candidate_effect(6) [OF h1])
  have s2: "store r2 = store r" using assms(1) by (simp add: r1_def r2_def upd_candidate_effect stands_def)
  have "candidacy r2 p = Some (False, 0, length (nodes r) div 2 + 1, nodes r)"
    using h2 assms(1) c cv by (simp add: candidacy_def stands_def)
  moreover have "kept r r2"
    using assms(1) upd_candidate_effect(2) kept_trans unfolding r1_def r2_def stands_def by metis
  moreover have "candidacy r2 q = candidacy r0 q" if "q \<noteq> p" for q
    using that by (simp add: r1_def r2_def upd_candidate_effect(5))
  ultimately have st: "stands r p False r2"
    using assms(1) s2 unfolding stands_def by (simp add: r1_def r2_def upd_candidate_effect)
  have e: "on_states (candidates r) (startElection E p r2)"
  proof (rule on_states_mono [OF startElection_campaign])
    show "\<not> leads r2" using st by (simp add: stands_def)
    show "room r2" using assms(2) s2 by (simp add: room_def)
    show "campaign p r2 r' \<Longrightarrow> candidates r r'" for r' using st by (auto simp: candidates_def)
  qed
  have "frame r1 (go_all (map (\<lambda>node. SendPreVote p node t me li lt) ns) r1)" for t me li lt ns
    unfolding go_all_eq frame_def
    using leads_heap [of "r1\<lparr>spawned := spawned r1 @ map (\<lambda>node. SendPreVote p node t me li lt) ns\<rparr>" r1]
    by (simp add: vote_requests_go_all candidacy_def)
  then have g: "candidates r (go_all (map (\<lambda>node. SendPreVote p node t me li lt) ns) r1)" for t me li lt ns
    using assms(1) frame_trans [OF f1] unfolding candidates_def by blast
  show ?thesis
    unfolding startPreElection_def Let_def r1_def [symmetric]
    using h1 e g by (auto simp: with_candidate_def r2_def [symmetric] split: prod.splits)
qed

lemma NewCandidateRole_stands:
  assumes "NewCandidateRole r = Ret r1 p"
  shows "stands r p True (r1\<lparr>role := Some p\<rparr>)"
  using assms by (auto simp: NewCandidateRole_def alloc_def stands_def kept_def vote_requests_def candidacy_def
      leads_def role_kind_of_def on_disk_def snapshotPath_def split: option.splits)

lemma becomeCandidate_candidates:
  assumes "room r"
  shows "on_states (candidates r) (becomeCandidate E r)"
proof -
  have enter: "on_states (candidates r) (bindO (NewCandidateRole r) (\<lambda>r p.
      bindO (Candidate_OnEnter E p (r\<lparr>role := Some p\<rparr>)) (\<lambda>r u. Ret r p)))" if "room r" for r
  proof (cases "NewCandidateRole r")
    case (Ret r1 p)
    note st = NewCandidateRole_stands [OF Ret]
    obtain c where "heap r1 p = Some (Candidate c)" "c_preVote c"
      using st by (auto simp: stands_def candidacy_def split: option.splits role_obj.splits)
    then have "Candidate_OnEnter E p (r1\<lparr>role := Some p\<rparr>) = startPreElection E p (r1\<lparr>role := Some p\<rparr>)"
      by (simp add: Candidate_OnEnter_def with_candidate_def)
    with startPreElection_stands [OF st that, of E] Ret show ?thesis
      by (cases "startPreElection E p (r1\<lparr>role := Some p\<rparr>)") auto
  qed (auto simp: NewCandidateRole_def alloc_def candidates_def split: option.splits)
  have ex: "on_states (\<lambda>r'. frame r r' \<and> store r' = store r) (exit_role r)"
    using frame_exit_role [of r] exit_role_store [of r] by (cases "exit_role r") auto
  show ?thesis unfolding becomeCandidate_def
  proof (rule on_states_bindO [OF ex])
    fix r1 u
    assume "frame r r1 \<and> store r1 = store r"
    then have f: "frame r (r1\<lparr>roleEpoch := roleEpoch r1 + 1\<rparr>)" and s: "store r1 = store r"
      using frame_trans by blast+
    have "room (r1\<lparr>roleEpoch := roleEpoch r1 + 1\<rparr>)" using assms s by (simp add: room_def)
    from on_states_mono [OF enter [OF this] candidates_via [OF f]] s
    show "on_states (candidates r) (bindO (NewCandidateRole (r1\<lparr>roleEpoch := roleEpoch r1 + 1\<rparr>)) (\<lambda>r p.
      bindO (Candidate_OnEnter E p (r\<lparr>role := Some p\<rparr>)) (\<lambda>r u. Ret r p)))" by simp
  next
    show "frame r r' \<and> store r' = store r \<Longrightarrow> candidates r r'" for r' by (simp add: candidates_def)
  qed
qed

lemma candidates_refl [simp]: "candidates r r"
  by (simp add: candidates_def)

lemma upd_follower_store: "store (upd_follower p g r) = store r"
  by (simp add: upd_follower_def split: option.splits role_obj.splits)

lemma Follower_Tick_candidates:
  assumes "room r"
  shows "on_states (candidates r) (Follower_Tick E p r)"
proof -
  let ?r = "upd_follower p (\<lambda>f. f\<lparr>f_electionTicks := f_electionTicks f + 1\<rparr>) r"
  have s: "store ?r = store r" by (rule upd_follower_store)
  have "on_states (candidates r) (becomeCandidate E ?r)"
    by (rule on_states_mono [OF becomeCandidate_candidates])
      (use assms s in \<open>auto simp: room_def intro: candidates_via [OF frame_roles(2)]\<close>)
  then have "on_states (candidates r) (bindO (becomeCandidate E ?r) (\<lambda>r q. Ret r ()))"
    by (cases "becomeCandidate E ?r") auto
  moreover have "candidates r ?r" by (simp add: candidates_def)
  ultimately show ?thesis
    by (auto simp: Follower_Tick_def with_follower_def split: option.splits role_obj.splits)
qed

lemma Candidate_Tick_candidates:
  assumes "room r"
  shows "on_states (candidates r) (Candidate_Tick E p r)"
proof -
  let ?r = "upd_candidate p (\<lambda>c. c\<lparr>c_electionTicks := c_electionTicks c + 1\<rparr>) r"
  have f: "frame r ?r" by (rule frame_upd_candidate) simp
  have s: "store ?r = store r" by (rule upd_candidate_effect(1))
  have "on_states (candidates r) (becomeCandidate E ?r)"
    by (rule on_states_mono [OF becomeCandidate_candidates])
      (use assms s in \<open>auto simp: room_def intro: candidates_via [OF f]\<close>)
  then have "on_states (candidates r) (bindO (becomeCandidate E ?r) (\<lambda>r q. Ret r ()))"
    by (cases "becomeCandidate E ?r") auto
  moreover have "candidates r ?r" using f by (simp add: candidates_def)
  ultimately show ?thesis
    by (auto simp: Candidate_Tick_def with_candidate_def split: option.splits role_obj.splits)
qed

text \<open>
  A granted pre-vote may end the pre-vote phase of a candidate and start its campaign. A granted
  vote is counted, and makes the node a leader only if it completes a majority.
\<close>

definition nominated :: "nat \<Rightarrow> ('l, 's) raft \<Rightarrow> ('l, 's) raft \<Rightarrow> bool" where
  "nominated p r r0 \<longleftrightarrow>
     kept r r0 \<and> store r0 = store r \<and> vote_requests r0 = vote_requests r \<and> \<not> leads r0
     \<and> (\<exists>v m ns. candidacy r p = Some (True, v, m, ns) \<and> candidacy r0 p = Some (False, v, m, ns))
     \<and> (\<forall>q. q \<noteq> p \<longrightarrow> candidacy r0 q = candidacy r q)"

definition tally :: "nat \<Rightarrow> ('l, 's) raft \<Rightarrow> ('l, 's) raft \<Rightarrow> bool" where
  "tally p r r' \<longleftrightarrow>
     kept r r' \<and> vote_requests r' = vote_requests r
     \<and> (\<forall>q. q \<noteq> p \<longrightarrow> candidacy r' q = None \<or> candidacy r' q = candidacy r q)
     \<and> (\<exists>pv v m ns. candidacy r p = Some (pv, v, m, ns)
          \<and> (candidacy r' p = None \<or> candidacy r' p = Some (pv, Suc v, m, ns))
          \<and> (leads r' \<longrightarrow> m \<le> Suc v \<and> currentTerm (store r') = currentTerm (store r)))"

lemma PreVote_reply_effect:
  assumes "room r"
  shows "on_states (\<lambda>r'. frame r r' \<or> (\<exists>r0. nominated p r r0 \<and> campaign p r0 r')) (PreVote_reply E p t reply r)"
proof -
  let ?P = "\<lambda>r'. frame r r' \<or> (\<exists>r0. nominated p r r0 \<and> campaign p r0 r')"
  have rec: "on_states ?P m \<Longrightarrow> on_states ?P (recover_vote m)" for m
    by (cases m) (auto simp: recover_vote_def)
  have down: "on_states ?P (bindO (becomeFollower t' r) (\<lambda>r q. Ret r ()))" for t'
    by (rule on_states_mono [OF frame_step_down]) simp
  have el: "on_states ?P (startElection E p (upd_candidate p (\<lambda>c. c\<lparr>c_preVote := False\<rparr>)
      (upd_candidate p (\<lambda>c. c\<lparr>c_preVotes := c_preVotes c + 1\<rparr>) r)))"
    if "role_kind_of r = Some KCandidate" "heap r p = Some (Candidate c)" "c_preVote c" for c
  proof -
    define r0 where "r0 = upd_candidate p (\<lambda>c. c\<lparr>c_preVote := False\<rparr>)
      (upd_candidate p (\<lambda>c. c\<lparr>c_preVotes := c_preVotes c + 1\<rparr>) r)"
    have h: "heap r0 p = Some (Candidate (c\<lparr>c_preVotes := c_preVotes c + 1, c_preVote := False\<rparr>))"
      unfolding r0_def by (subst upd_candidate_effect(6) [OF upd_candidate_effect(6) [OF that(2)]]) simp
    have "kept r r0" unfolding r0_def using upd_candidate_effect(2) kept_trans by blast
    moreover have "\<not> leads r" using that(1) by (simp add: leads_def)
    moreover have "candidacy r0 p = Some (False, c_votes c, c_majority c, c_nodes c)"
      "candidacy r p = Some (True, c_votes c, c_majority c, c_nodes c)"
      using h that(2,3) by (simp_all add: candidacy_def)
    moreover have "candidacy r0 q = candidacy r q" if "q \<noteq> p" for q
      using that by (simp add: r0_def upd_candidate_effect(5))
    ultimately have nom: "nominated p r r0"
      unfolding nominated_def by (simp add: r0_def upd_candidate_effect(1,3,4))
    have "\<not> leads r0" "room r0" using nom assms by (auto simp: nominated_def room_def)
    note startElection_campaign [OF this, of p E]
    then have "on_states ?P (startElection E p r0)" by (rule on_states_mono) (use nom in blast)
    then show ?thesis unfolding r0_def .
  qed
  have one: "frame r (upd_candidate p (\<lambda>c. c\<lparr>c_preVotes := c_preVotes c + 1\<rparr>) r)"
    by (rule frame_upd_candidate) simp
  obtain t' g where reply: "reply = (t', g)" by fastforce
  show ?thesis
    unfolding PreVote_reply_def reply Let_def prod.case
    by (rule rec) (use down el one in \<open>auto simp: with_candidate_def split: option.splits role_obj.splits\<close>)
qed

lemma RequestVote_reply_effect:
  "on_states (\<lambda>r'. frame r r' \<or> reply = (t, True) \<and> currentTerm (store r) = t \<and> \<not> leads r \<and> tally p r r')
     (RequestVote_reply E p t reply r)"
proof -
  let ?P = "\<lambda>r'. frame r r' \<or> reply = (t, True) \<and> currentTerm (store r) = t \<and> \<not> leads r \<and> tally p r r'"
  have rec: "on_states ?P m \<Longrightarrow> on_states ?P (recover_vote m)" for m
    by (cases m) (auto simp: recover_vote_def)
  have down: "on_states ?P (bindO (becomeFollower t' r) (\<lambda>r q. Ret r ()))" for t'
    by (rule on_states_mono [OF frame_step_down]) simp
  define r1 where "r1 = upd_candidate p (\<lambda>c. c\<lparr>c_votes := Suc (c_votes c)\<rparr>) r"
  have t: "tally p r r'"
    if "heap r p = Some (Candidate c)" "may_lead r1 r'" "leads r' \<longrightarrow> c_majority c \<le> Suc (c_votes c)" for c r'
  proof -
    have "heap r1 p = Some (Candidate (c\<lparr>c_votes := Suc (c_votes c)\<rparr>))"
      by (simp add: r1_def upd_candidate_effect(6) [OF that(1)])
    then have "candidacy r1 p = Some (c_preVote c, Suc (c_votes c), c_majority c, c_nodes c)"
      "candidacy r p = Some (c_preVote c, c_votes c, c_majority c, c_nodes c)"
      using that(1) by (simp_all add: candidacy_def)
    moreover have "q \<noteq> p \<Longrightarrow> candidacy r1 q = candidacy r q" "kept r r1" "vote_requests r1 = vote_requests r"
      "store r1 = store r" for q
      by (simp_all add: r1_def upd_candidate_effect)
    ultimately show ?thesis
      using that kept_trans [of r r1 r'] unfolding tally_def may_lead_def by (metis (no_types, lifting))
  qed
  have stay: "tally p r r1" if "heap r p = Some (Candidate c)" "role_kind_of r = Some KCandidate" for c
  proof -
    have "\<not> leads r1" using that(2) by (simp add: r1_def upd_candidate_effect leads_def [symmetric]) (simp add: leads_def)
    then show ?thesis using t [OF that(1) frame_may_lead [OF frame_refl]] by simp
  qed
  have win: "on_states (tally p r) (bindO (becomeLeader E t r1) (\<lambda>r q. Ret r ()))"
    if "heap r p = Some (Candidate c)" "c_majority c \<le> Suc (c_votes c)" for c t
    using becomeLeader_may_lead [of r1 E t] t [OF that(1)] that(2) by (cases "becomeLeader E t r1") auto
  obtain t' g where reply: "reply = (t', g)" by fastforce
  have nl: "role_kind_of r = Some KCandidate \<Longrightarrow> \<not> leads r" by (simp add: leads_def)
  show ?thesis
    unfolding RequestVote_reply_def reply Let_def prod.case
    by (rule rec [unfolded reply])
      (use down [unfolded reply] stay nl in
        \<open>auto simp: with_candidate_def r1_def [symmetric] intro: on_states_mono [OF win]
           split: option.splits role_obj.splits\<close>)
qed

lemma frame_Candidate_handlers:
  "on_states (frame r) (Candidate_HandleAppendEntries E t l pi pt es ci r)"
  "on_states (frame r) (Candidate_HandlePreVote E t c i lt r)"
  "on_states (frame r) (Candidate_HandleRequestVote E t c i lt r)"
  "on_states (frame r) (Candidate_HandleInstallSnapshot E t l i lt bs r)"
  unfolding Candidate_HandleAppendEntries_def Candidate_HandlePreVote_def Candidate_HandleRequestVote_def
    Candidate_HandleInstallSnapshot_def
  by (auto intro!: frame.bind [OF frame_becomeFollower] frame_Follower_AppendEntries
      frame_Follower_RequestVote frame_Follower_InstallSnapshot dest: becomeFollower_not_leads)

end
