(* ===== verification/Transport.thy ===== *)
theory Transport
  imports Follower
begin

text \<open>
  \<^verbatim>\<open>internal/transport.go\<close>: the requests and responses of the remote calls, and what each call
  returns for each way an HTTP exchange can end. The exchange itself (the JSON text, the sockets,
  the timeouts) is the argument \<open>http_result\<close>.
\<close>

section \<open>Messages\<close>

record AppendEntriesRequest =
  ae_Term :: u64
  ae_LeaderId :: gostring
  ae_PrevLogEntryIndex :: u64
  ae_PrevLogEntryTerm :: u64
  ae_LogEntries :: "LogEntry list"
  ae_LeaderCommitIndex :: u64

record AppendEntriesResponse =
  aer_Term :: u64
  aer_Success :: bool
  aer_ConflictIndex :: u64
  aer_ConflictTerm :: u64

record PreVoteRequest =
  pv_Term :: u64
  pv_CandidateID :: gostring
  pv_LastLogEntryIndex :: u64
  pv_LastLogEntryTerm :: u64

record PreVoteResponse =
  pvr_Term :: u64
  pvr_VoteGranted :: bool

record RequestVoteRequest =
  rv_Term :: u64
  rv_CandidateID :: gostring
  rv_LastLogEntryIndex :: u64
  rv_LastLogEntryTerm :: u64

record RequestVoteResponse =
  rvr_Term :: u64
  rvr_VoteGranted :: bool

record InstallSnapshotRequest =
  is_Term :: u64
  is_LeaderId :: gostring
  is_LastIncludedIndex :: u64
  is_LastIncludedTerm :: u64
  is_Data :: bytes

record InstallSnapshotResponse =
  isr_Term :: u64

text \<open>
  How an exchange ends: the request cannot be encoded or built, the round trip fails or times out,
  the status is not 200, the body does not decode, more input follows the decoded value, or the
  body holds exactly one value.
\<close>

datatype 'a http_result =
    MarshalError | RequestError | DoError | BadStatus nat | DecodeError | TrailingData 'a | Decoded 'a

section \<open>Calls\<close>

definition AppendEntries_request ::
  "u64 \<Rightarrow> gostring \<Rightarrow> u64 \<Rightarrow> u64 \<Rightarrow> LogEntry list \<Rightarrow> u64 \<Rightarrow> AppendEntriesRequest" where
  "AppendEntries_request term leader prevIndex prevTerm es commit =
     \<lparr>ae_Term = term, ae_LeaderId = leader, ae_PrevLogEntryIndex = prevIndex, ae_PrevLogEntryTerm = prevTerm,
      ae_LogEntries = es, ae_LeaderCommitIndex = commit\<rparr>"

fun Transport_AppendEntries :: "u64 \<Rightarrow> AppendEntriesResponse http_result \<Rightarrow> append_reply" where
  "Transport_AppendEntries term (Decoded a) =
     (aer_Term a, aer_Success a, aer_ConflictIndex a, aer_ConflictTerm a)"
| "Transport_AppendEntries term _ = (term, False, 0, 0)"

definition PreVote_request :: "u64 \<Rightarrow> gostring \<Rightarrow> u64 \<Rightarrow> u64 \<Rightarrow> PreVoteRequest" where
  "PreVote_request term candidateId lastIndex lastTerm =
     \<lparr>pv_Term = term, pv_CandidateID = candidateId, pv_LastLogEntryIndex = lastIndex,
      pv_LastLogEntryTerm = lastTerm\<rparr>"

fun Transport_PreVote :: "u64 \<Rightarrow> PreVoteResponse http_result \<Rightarrow> vote_reply" where
  "Transport_PreVote term (Decoded a) = (pvr_Term a, pvr_VoteGranted a)"
| "Transport_PreVote term _ = (term, False)"

definition RequestVote_request :: "u64 \<Rightarrow> gostring \<Rightarrow> u64 \<Rightarrow> u64 \<Rightarrow> RequestVoteRequest" where
  "RequestVote_request term candidateId lastIndex lastTerm =
     \<lparr>rv_Term = term, rv_CandidateID = candidateId, rv_LastLogEntryIndex = lastIndex,
      rv_LastLogEntryTerm = lastTerm\<rparr>"

fun Transport_RequestVote :: "u64 \<Rightarrow> RequestVoteResponse http_result \<Rightarrow> vote_reply" where
  "Transport_RequestVote term (Decoded a) = (rvr_Term a, rvr_VoteGranted a)"
| "Transport_RequestVote term _ = (term, False)"

definition InstallSnapshot_request ::
  "u64 \<Rightarrow> gostring \<Rightarrow> u64 \<Rightarrow> u64 \<Rightarrow> bytes \<Rightarrow> InstallSnapshotRequest" where
  "InstallSnapshot_request term leader lastIndex lastTerm bs =
     \<lparr>is_Term = term, is_LeaderId = leader, is_LastIncludedIndex = lastIndex,
      is_LastIncludedTerm = lastTerm, is_Data = bs\<rparr>"

text \<open>This call does not look for input after the decoded value.\<close>

fun Transport_InstallSnapshot :: "u64 \<Rightarrow> InstallSnapshotResponse http_result \<Rightarrow> u64" where
  "Transport_InstallSnapshot term (Decoded a) = isr_Term a"
| "Transport_InstallSnapshot term (TrailingData a) = isr_Term a"
| "Transport_InstallSnapshot term _ = term"

text \<open>A forwarded proposal: \<open>None\<close> is an error. Input after the decoded value gives nil without one.\<close>

fun Transport_Propose :: "any http_result \<Rightarrow> any option" where
  "Transport_Propose (Decoded a) = Some a"
| "Transport_Propose (TrailingData a) = Some AnyNil"
| "Transport_Propose _ = None"

end
