(* ===== verification/Raft.thy ===== *)
theory Raft
  imports Candidate Transport
begin

text \<open>
  The methods of \<^verbatim>\<open>Raft\<close> in \<^verbatim>\<open>internal/raft.go\<close> that dispatch on the role: the construction of a
  node, the handlers, the tick, the proposals, disabling, enabling and shutting down.
\<close>

section \<open>Construction\<close>

definition recover_snapshot :: "('l, 's) env \<Rightarrow> ('l, 's) raft \<Rightarrow> ('l, 's) raft" where
  "recover_snapshot E r =
     (case LoadSnapshot (snapshotPath r) (fdisk r) of
        (Inl e, d) \<Rightarrow> r\<lparr>fdisk := d\<rparr>
      | (Inr snap, d) \<Rightarrow>
          if LastIncludedIndex snap > 0
          then upd_store (raise_to (LastIncludedIndex snap))
                 (r\<lparr>fdisk := d, snapshotIndex := LastIncludedIndex snap,
                    snapshotTerm := LastIncludedTerm snap, fsm := snd (fsmRestore E (fsm r) (SnapData snap))\<rparr>)
          else r\<lparr>fdisk := d\<rparr>)"

definition replay_command :: "('l, 's) env \<Rightarrow> LogEntry \<Rightarrow> ('l, 's, unit) step" where
  "replay_command E e r =
     (if Data e \<noteq> []
      then if ClientId e \<noteq> []
           then case IsDuplicate (sessions r) (ClientId e) (SequenceNumber e) of
                  (isDup, _) \<Rightarrow>
                    if \<not> isDup
                    then bindO (run_machine E (Data e) r) (\<lambda>r result.
                           Ret (r\<lparr>sessions := Record (sessions r) (ClientId e) (SequenceNumber e) result\<rparr>) ())
                    else Ret r ()
           else bindO (run_machine E (Data e) r) (\<lambda>r result. Ret r ())
      else Ret r ())"

primrec replay_loop :: "('l, 's) env \<Rightarrow> nat \<Rightarrow> u64 \<Rightarrow> ('l, 's, unit) step" where
  "replay_loop E 0 idx r = Ret r ()"
| "replay_loop E (Suc n) idx r =
     (case gl_Read E (wal r) idx of
        None \<Rightarrow> Ret r ()
      | Some bs \<Rightarrow>
          (case DeserializeLogEntry bs of
             Inl e \<Rightarrow> Ret r ()
           | Inr logEntry \<Rightarrow>
               bindO (replay_command E logEntry r) (\<lambda>r u.
                 replay_loop E n (idx + 1) (upd_store (\<lambda>s. s\<lparr>lastApplied := idx\<rparr>) r))))"

definition replay_log :: "('l, 's) env \<Rightarrow> ('l, 's, unit) step" where
  "replay_log E r =
     (let lastLogEntryIndex = fst (gl_GetLastIndex E (wal r)); la = lastApplied (store r) in
      replay_loop E (unat lastLogEntryIndex - unat la) (la + 1) r)"

text \<open>The recovery applies entries the way the follower does.\<close>

lemma replay_loop_eq [simp]: "replay_loop E n i r = apply_loop E n i r"
proof (induction n arbitrary: i r)
  case (Suc n)
  have "replay_command E e r = follower_command E e r" for e and r :: "('a, 'b) raft"
    by (simp add: replay_command_def follower_command_def)
  then show ?case using Suc.IH by (simp add: follower_command_eq bindO_assoc split: option.splits sum.splits)
qed simp

definition NewRaft ::
  "('l, 's) env \<Rightarrow> rng \<Rightarrow> disk \<Rightarrow> gostring \<Rightarrow> gostring \<Rightarrow> gostring list \<Rightarrow> 'l \<Rightarrow> store \<Rightarrow> 's \<Rightarrow> Config
     \<Rightarrow> (('l, 's) raft, nat) outcome" where
  "NewRaft E g d me dir ns log st machine cfg =
     (let r = \<lparr>config = cfg, dataDir = dir, enabled = True, fsm = machine, healthy = True, nid = me,
               wal = log, nodes = ns, rgen = g, role = None, roleEpoch = 0, snapshotIndex = 0,
               snapshotTerm = 0, sessions = NewSessionTable, store = st, shutdownClosed = False,
               heap = (\<lambda>_. None), nextPtr = 0, chans = (\<lambda>_. None), nextChan = 0, spawned = [],
               fdisk = d\<rparr> in
      bindO (replay_log E (recover_snapshot E r)) (\<lambda>r u. becomeFollower 0 r))"

section \<open>Dispatch on the role\<close>

definition on_role ::
  "(nat \<Rightarrow> ('l, 's, 'a) step) \<Rightarrow> (nat \<Rightarrow> ('l, 's, 'a) step) \<Rightarrow> (nat \<Rightarrow> ('l, 's, 'a) step) \<Rightarrow> ('l, 's, 'a) step" where
  "on_role ff fc fl r =
     (case role r of
        None \<Rightarrow> Panic r
      | Some p \<Rightarrow>
          (case heap r p of
             None \<Rightarrow> Panic r
           | Some (Follower x) \<Rightarrow> ff p r
           | Some (Candidate x) \<Rightarrow> fc p r
           | Some (Leader x) \<Rightarrow> fl p r))"

definition Tick :: "('l, 's) env \<Rightarrow> ('l, 's, unit) step" where
  "Tick E r =
     (if \<not> enabled r \<or> \<not> healthy r then Ret r ()
      else on_role (Follower_Tick E) (Candidate_Tick E) (Leader_Tick E) r)"

definition HandleAppendEntries ::
  "('l, 's) env \<Rightarrow> u64 \<Rightarrow> gostring \<Rightarrow> u64 \<Rightarrow> u64 \<Rightarrow> LogEntry list \<Rightarrow> u64 \<Rightarrow> ('l, 's, append_reply) step" where
  "HandleAppendEntries E term leader prevIndex prevTerm es leaderCommit r =
     (if \<not> enabled r then Ret r (currentTerm (store r), False, 0, 0)
      else on_role
             (\<lambda>p. Follower_HandleAppendEntries (stackDepth E) E p term leader prevIndex prevTerm es leaderCommit)
             (\<lambda>p. Candidate_HandleAppendEntries E term leader prevIndex prevTerm es leaderCommit)
             (\<lambda>p. Leader_HandleAppendEntries E term leader prevIndex prevTerm es leaderCommit) r)"

definition HandlePreVote ::
  "('l, 's) env \<Rightarrow> u64 \<Rightarrow> gostring \<Rightarrow> u64 \<Rightarrow> u64 \<Rightarrow> ('l, 's, vote_reply) step" where
  "HandlePreVote E term candidateId lastIndex lastTerm r =
     (if \<not> enabled r then Ret r (currentTerm (store r), False)
      else on_role
             (\<lambda>p. Follower_HandlePreVote E term candidateId lastIndex lastTerm)
             (\<lambda>p. Candidate_HandlePreVote E term candidateId lastIndex lastTerm)
             (\<lambda>p. Leader_HandlePreVote term candidateId lastIndex lastTerm) r)"

definition HandleRequestVote ::
  "('l, 's) env \<Rightarrow> u64 \<Rightarrow> gostring \<Rightarrow> u64 \<Rightarrow> u64 \<Rightarrow> ('l, 's, vote_reply) step" where
  "HandleRequestVote E term candidateId lastIndex lastTerm r =
     (if \<not> enabled r then Ret r (currentTerm (store r), False)
      else on_role
             (\<lambda>p. Follower_HandleRequestVote (stackDepth E) E p term candidateId lastIndex lastTerm)
             (\<lambda>p. Candidate_HandleRequestVote E term candidateId lastIndex lastTerm)
             (\<lambda>p. Leader_HandleRequestVote E term candidateId lastIndex lastTerm) r)"

definition HandleInstallSnapshot ::
  "('l, 's) env \<Rightarrow> u64 \<Rightarrow> gostring \<Rightarrow> u64 \<Rightarrow> u64 \<Rightarrow> bytes \<Rightarrow> ('l, 's, u64) step" where
  "HandleInstallSnapshot E term leader lastIndex lastTerm bs r =
     (if \<not> enabled r then Ret r (currentTerm (store r))
      else on_role
             (\<lambda>p. Follower_HandleInstallSnapshot E p term leader lastIndex lastTerm bs)
             (\<lambda>p. Candidate_HandleInstallSnapshot E term leader lastIndex lastTerm bs)
             (\<lambda>p. Leader_HandleInstallSnapshot E term leader lastIndex lastTerm bs) r)"

section \<open>Proposals\<close>

text \<open>
  The first locked part of \<open>ProposeWithSession\<close> gives the role and the epoch; what follows runs on
  that role later, whatever the node has become.
\<close>

definition Propose_capture :: "('l, 's) raft \<Rightarrow> (nat \<times> u64) option" where
  "Propose_capture r =
     (if \<not> enabled r \<or> \<not> healthy r then None
      else map_option (\<lambda>p. (p, roleEpoch r)) (role r))"

datatype started = Unavailable | Forwarded forward | AtLeader proposal

definition HandlePropose ::
  "('l, 's) env \<Rightarrow> nat \<Rightarrow> bytes \<Rightarrow> gostring \<Rightarrow> u64 \<Rightarrow> u64 \<Rightarrow> ('l, 's, started) step" where
  "HandlePropose E p bs clientId sequenceNumber epoch r =
     (case heap r p of
        Some (Leader l) \<Rightarrow>
          (case HandlePropose_cached r clientId sequenceNumber of
             Some cachedResult \<Rightarrow> Ret r (AtLeader (Done cachedResult))
           | None \<Rightarrow> bindO (HandlePropose_begin E p bs clientId sequenceNumber epoch r)
                       (\<lambda>r a. Ret r (AtLeader a)))
      | Some (Follower f) \<Rightarrow> Ret r (Forwarded (Follower_HandlePropose bs clientId sequenceNumber r))
      | Some (Candidate c) \<Rightarrow> Ret r (Forwarded (Candidate_HandlePropose bs clientId sequenceNumber r))
      | None \<Rightarrow> Panic r)"

text \<open>Both parts with no other step between them.\<close>

definition ProposeWithSession ::
  "('l, 's) env \<Rightarrow> bytes \<Rightarrow> gostring \<Rightarrow> u64 \<Rightarrow> ('l, 's, started) step" where
  "ProposeWithSession E bs clientId sequenceNumber r =
     (case Propose_capture r of
        None \<Rightarrow> Ret r Unavailable
      | Some (p, epoch) \<Rightarrow> HandlePropose E p bs clientId sequenceNumber epoch r)"

definition Propose :: "('l, 's) env \<Rightarrow> bytes \<Rightarrow> ('l, 's, started) step" where
  "Propose E bs = ProposeWithSession E bs [] 0"

section \<open>Disabling, enabling, shutting down\<close>

definition Disable :: "('l, 's, unit) step" where
  "Disable r =
     (if \<not> enabled r then Ret r ()
      else case role r of
             None \<Rightarrow> Panic (r\<lparr>enabled := False\<rparr>)
           | Some p \<Rightarrow> bindO (OnExit p (r\<lparr>enabled := False\<rparr>)) (\<lambda>r u. Ret (upd_store (SetLeaderId []) r) ()))"

definition Enable :: "('l, 's, unit) step" where
  "Enable r =
     (if enabled r then Ret r ()
      else bindO (becomeFollower (currentTerm (store r)) r) (\<lambda>r p. Ret (r\<lparr>enabled := True\<rparr>) ()))"

definition Shutdown :: "('l, 's, unit) step" where
  "Shutdown r =
     (let r1 = r\<lparr>shutdownClosed := True\<rparr> in
      if \<not> enabled r1 then Ret r1 ()
      else bindO (exit_role (r1\<lparr>enabled := False\<rparr>)) (\<lambda>r u. Ret (upd_store (SetLeaderId []) r) ()))"

section \<open>The contract of a role\<close>

text \<open>
  What \<^verbatim>\<open>Raft\<close> relies on of an implementation of the interface \<^verbatim>\<open>RaftRole\<close>: its handlers take no
  part in an election of their own node, a vote they grant is stored and durable for the term they
  answer with, and its tick does no more than start a candidacy. \<open>here\<close> says that the object is
  the current role of the node.
\<close>

locale raft_role =
  fixes here :: "nat \<Rightarrow> ('l, 's) raft \<Rightarrow> bool"
    and ae :: "nat \<Rightarrow> u64 \<Rightarrow> gostring \<Rightarrow> u64 \<Rightarrow> u64 \<Rightarrow> LogEntry list \<Rightarrow> u64 \<Rightarrow> ('l, 's, append_reply) step"
    and pv :: "nat \<Rightarrow> u64 \<Rightarrow> gostring \<Rightarrow> u64 \<Rightarrow> u64 \<Rightarrow> ('l, 's, vote_reply) step"
    and rv :: "nat \<Rightarrow> u64 \<Rightarrow> gostring \<Rightarrow> u64 \<Rightarrow> u64 \<Rightarrow> ('l, 's, vote_reply) step"
    and isn :: "nat \<Rightarrow> u64 \<Rightarrow> gostring \<Rightarrow> u64 \<Rightarrow> u64 \<Rightarrow> bytes \<Rightarrow> ('l, 's, u64) step"
    and tick :: "nat \<Rightarrow> ('l, 's, unit) step"
  assumes ae_frame: "here p r \<Longrightarrow> on_states (frame r) (ae p t l pi pt es ci r)"
    and pv_frame: "here p r \<Longrightarrow> on_states (frame r) (pv p t c i lt r)"
    and rv_frame: "here p r \<Longrightarrow> on_states (frame r) (rv p t c i lt r)"
    and is_frame: "here p r \<Longrightarrow> on_states (frame r) (isn p t l i lt bs r)"
    and rv_granted: "here p r \<Longrightarrow> rv p t c i lt r = Ret r' (t', True) \<Longrightarrow>
          t' = currentTerm (store r') \<and> votedFor (store r') = c \<and> persisted (store r') (fdisk r')"
    and tick_candidates: "here p r \<Longrightarrow> room r \<Longrightarrow> on_states (candidates r) (tick p r)"
begin

text \<open>A vote of the term cannot be moved to another candidate.\<close>

lemma vote_final:
  assumes "here p r" and "rv p t c i lt r = Ret r' (t', True)"
    and "votedFor (store r) \<noteq> []" and "currentTerm (store r) = t'"
  shows "votedFor (store r) = c"
proof -
  have "advances (store r) (store r')"
    using rv_frame [OF assms(1), of t c i lt] assms(2) by (simp add: frame_def kept_def)
  then show ?thesis using rv_granted [OF assms(1,2)] assms(3,4) by (simp add: advances_def)
qed

text \<open>An answer never carries a term below the one the node had.\<close>

lemma granted_term:
  assumes "here p r" and "rv p t c i lt r = Ret r' (t', True)"
  shows "currentTerm (store r) \<le> t'"
  using rv_frame [OF assms(1), of t c i lt] rv_granted [OF assms] assms(2)
  by (simp add: frame_def kept_def advances_def)

end

definition follower_here :: "nat \<Rightarrow> ('l, 's) raft \<Rightarrow> bool" where
  "follower_here p r \<longleftrightarrow> role r = Some p \<and> (\<exists>f. heap r p = Some (Follower f))"

definition candidate_here :: "nat \<Rightarrow> ('l, 's) raft \<Rightarrow> bool" where
  "candidate_here p r \<longleftrightarrow> role r = Some p \<and> (\<exists>c. heap r p = Some (Candidate c))"

definition leader_here :: "nat \<Rightarrow> ('l, 's) raft \<Rightarrow> bool" where
  "leader_here p r \<longleftrightarrow> role r = Some p \<and> (\<exists>l. heap r p = Some (Leader l))"

lemma follower_here_leads: "follower_here p r \<Longrightarrow> \<not> leads r"
  by (auto simp: follower_here_def leads_def role_kind_of_def)

lemma Candidate_RequestVote_granted:
  "Candidate_HandleRequestVote E t c i lt r = Ret r' (t', True) \<Longrightarrow>
     t' = currentTerm (store r') \<and> votedFor (store r') = c \<and> persisted (store r') (fdisk r')"
  by (auto simp: Candidate_HandleRequestVote_def dest: Follower_RequestVote_granted split: if_splits)

lemma Leader_RequestVote_granted:
  "Leader_HandleRequestVote E t c i lt r = Ret r' (t', True) \<Longrightarrow>
     t' = currentTerm (store r') \<and> votedFor (store r') = c \<and> persisted (store r') (fdisk r')"
  by (auto simp: Leader_HandleRequestVote_def dest: Follower_RequestVote_granted split: if_splits)

interpretation follower_role: raft_role follower_here
  "\<lambda>p. Follower_HandleAppendEntries (stackDepth E) E p" "\<lambda>p. Follower_HandlePreVote E"
  "\<lambda>p. Follower_HandleRequestVote (stackDepth E) E p" "\<lambda>p. Follower_HandleInstallSnapshot E p"
  "Follower_Tick E" for E
  by unfold_locales
    (auto intro: frame_Follower_AppendEntries frame_Follower_PreVote frame_Follower_RequestVote
      frame_Follower_InstallSnapshot Follower_Tick_candidates dest: follower_here_leads Follower_RequestVote_granted)

interpretation candidate_role: raft_role candidate_here
  "\<lambda>p. Candidate_HandleAppendEntries E" "\<lambda>p. Candidate_HandlePreVote E"
  "\<lambda>p. Candidate_HandleRequestVote E" "\<lambda>p. Candidate_HandleInstallSnapshot E" "Candidate_Tick E" for E
  by unfold_locales
    (auto intro: frame_Candidate_handlers Candidate_Tick_candidates dest: Candidate_RequestVote_granted)

interpretation leader_role: raft_role leader_here
  "\<lambda>p. Leader_HandleAppendEntries E" "\<lambda>p. Leader_HandlePreVote"
  "\<lambda>p. Leader_HandleRequestVote E" "\<lambda>p. Leader_HandleInstallSnapshot E" "Leader_Tick E" for E
  by unfold_locales
    (auto intro: frame_Leader_AppendEntries frame_Leader_PreVote frame_Leader_RequestVote
      frame_Leader_InstallSnapshot on_states_mono [OF frame_Leader_Tick] simp: candidates_def
      dest: Leader_RequestVote_granted)

lemmas here_defs = follower_here_def candidate_here_def leader_here_def

lemma on_role_states:
  assumes "P r" and "\<And>p. follower_here p r \<Longrightarrow> on_states P (ff p r)"
    and "\<And>p. candidate_here p r \<Longrightarrow> on_states P (fc p r)"
    and "\<And>p. leader_here p r \<Longrightarrow> on_states P (fl p r)"
  shows "on_states P (on_role ff fc fl r)"
  using assms by (auto simp: on_role_def here_defs split: option.splits role_obj.splits)

section \<open>What the methods keep\<close>

lemma frame_HandleAppendEntries: "on_states (frame r) (HandleAppendEntries E t l pi pt es ci r)"
  unfolding HandleAppendEntries_def
  by (auto intro!: on_role_states follower_role.ae_frame candidate_role.ae_frame leader_role.ae_frame)

lemma frame_HandlePreVote: "on_states (frame r) (HandlePreVote E t c i lt r)"
  unfolding HandlePreVote_def
  by (auto intro!: on_role_states follower_role.pv_frame candidate_role.pv_frame leader_role.pv_frame)

lemma frame_HandleRequestVote: "on_states (frame r) (HandleRequestVote E t c i lt r)"
  unfolding HandleRequestVote_def
  by (auto intro!: on_role_states follower_role.rv_frame candidate_role.rv_frame leader_role.rv_frame)

lemma frame_HandleInstallSnapshot: "on_states (frame r) (HandleInstallSnapshot E t l i lt bs r)"
  unfolding HandleInstallSnapshot_def
  by (auto intro!: on_role_states follower_role.is_frame candidate_role.is_frame leader_role.is_frame)

lemma Tick_candidates: "room r \<Longrightarrow> on_states (candidates r) (Tick E r)"
  unfolding Tick_def
  by (auto intro!: on_role_states follower_role.tick_candidates candidate_role.tick_candidates
      leader_role.tick_candidates)

lemma HandleRequestVote_granted:
  assumes "HandleRequestVote E t c i lt r = Ret r' (t', True)"
  shows "t' = currentTerm (store r')" "votedFor (store r') = c" "persisted (store r') (fdisk r')"
    "currentTerm (store r) = t' \<Longrightarrow> votedFor (store r) \<noteq> [] \<Longrightarrow> votedFor (store r) = c"
proof -
  obtain p where "follower_here p r \<and> Follower_HandleRequestVote (stackDepth E) E p t c i lt r = Ret r' (t', True)
      \<or> candidate_here p r \<and> Candidate_HandleRequestVote E t c i lt r = Ret r' (t', True)
      \<or> leader_here p r \<and> Leader_HandleRequestVote E t c i lt r = Ret r' (t', True)"
    using assms by (auto simp: HandleRequestVote_def on_role_def here_defs split: if_splits option.splits role_obj.splits)
  then have "t' = currentTerm (store r') \<and> votedFor (store r') = c \<and> persisted (store r') (fdisk r')
      \<and> (currentTerm (store r) = t' \<longrightarrow> votedFor (store r) \<noteq> [] \<longrightarrow> votedFor (store r) = c)"
    using follower_role.rv_granted candidate_role.rv_granted leader_role.rv_granted
      follower_role.vote_final candidate_role.vote_final leader_role.vote_final by metis
  then show "t' = currentTerm (store r')" "votedFor (store r') = c" "persisted (store r') (fdisk r')"
    "currentTerm (store r) = t' \<Longrightarrow> votedFor (store r) \<noteq> [] \<Longrightarrow> votedFor (store r) = c"
    by simp_all
qed

lemma frame_HandlePropose: "on_states (frame r) (HandlePropose E p bs cid sn ep r)"
proof -
  have "on_states (frame r) (bindO (HandlePropose_begin E p bs cid sn ep r) (\<lambda>r a. Ret r (AtLeader a)))"
    by (rule frame.bind [OF frame_HandlePropose_begin]) simp
  then show ?thesis by (auto simp: HandlePropose_def split: option.splits role_obj.splits)
qed

lemma frame_Disable: "on_states (frame r) (Disable r)"
proof -
  have "on_states (frame r) (bindO (OnExit p (r\<lparr>enabled := False\<rparr>)) (\<lambda>r u. Ret (upd_store (SetLeaderId []) r) ()))" for p
    by (rule frame.via [OF frame_fields(1)], rule frame.bind [OF frame_OnExit]) simp
  then show ?thesis by (auto simp: Disable_def split: option.splits)
qed

lemma frame_Enable: "on_states (frame r) (Enable r)"
  unfolding Enable_def by (auto intro: frame.bind [OF frame_becomeFollower])

lemma frame_Shutdown: "on_states (frame r) (Shutdown r)"
proof -
  let ?r = "r\<lparr>shutdownClosed := True\<rparr>"
  have "on_states (frame ?r) (bindO (exit_role (?r\<lparr>enabled := False\<rparr>)) (\<lambda>r u. Ret (upd_store (SetLeaderId []) r) ()))"
    by (rule frame.via [OF frame_fields(1)], rule frame.bind [OF frame_exit_role]) simp
  from frame.via [OF frame_fields(11) this] show ?thesis unfolding Shutdown_def Let_def by simp
qed

end
