(* ===== verification/Replication.thy ===== *)
theory Replication
  imports Raft
begin

text \<open>
  Log replication: what a follower's log holds after \<open>appendEntries\<close>, what a leader puts into a
  request, and that a request keeps two logs matching. Logs are compared through their views, so
  the results hold for every write-ahead log that satisfies \<open>golog_laws\<close>; the results that say a
  log did grow need one whose writes and truncations succeed (\<open>reliable\<close>).
\<close>

section \<open>Entries\<close>

text \<open>What was read is written back byte by byte, also when data was taken for a session.\<close>

lemma Serialize_Deserialize:
  assumes "DeserializeLogEntry bs = Inr e"
  shows "Serialize e = bs"
proof -
  have "8 \<le> length bs" using assms Deserialize_ok_iff by blast
  then obtain rest where bs: "bs = PutUint64 (Uint64 bs) @ rest"
    by (metis PutUint64_Uint64 append_take_drop_id)
  let ?n = "unat (Uint32 rest)"
  show ?thesis
  proof (cases "looks_like_session rest")
    case True
    then have len: "4 \<le> length rest" "0 < ?n" "?n \<le> 1024" "12 + ?n \<le> length rest"
      by (auto simp: looks_like_session_def word_less_nat_alt word_le_nat_alt)
    have e: "e = \<lparr>Data = drop (12 + ?n) rest, Term = Uint64 bs, ClientId = take ?n (drop 4 rest),
              SequenceNumber = Uint64 (drop (4 + ?n) rest)\<rparr>"
      using assms True Deserialize_term_rest [of "Uint64 bs" rest] bs by simp
    have c: "take ?n (drop 4 rest) \<noteq> []" "length (take ?n (drop 4 rest)) = ?n" using len by auto
    have "PutUint32 (word_of_nat ?n) @ take ?n (drop 4 rest) @ PutUint64 (Uint64 (drop (4 + ?n) rest))
        @ drop (12 + ?n) rest = rest"
    proof -
      have "drop (4 + ?n) rest = take 8 (drop (4 + ?n) rest) @ drop (12 + ?n) rest"
        using append_take_drop_id [of 8 "drop (4 + ?n) rest"] by (simp add: add.commute)
      moreover have "drop 4 rest = take ?n (drop 4 rest) @ drop (4 + ?n) rest"
        using append_take_drop_id [of ?n "drop 4 rest"] by (simp add: add.commute)
      ultimately have "rest = take 4 rest @ take ?n (drop 4 rest) @ take 8 (drop (4 + ?n) rest) @ drop (12 + ?n) rest"
        using append_take_drop_id [of 4 rest] by simp
      with len show ?thesis by simp
    qed
    then show ?thesis using bs c unfolding e by (simp add: Serialize_def)
  next
    case False
    then have "e = \<lparr>Data = rest, Term = Uint64 bs, ClientId = [], SequenceNumber = 0\<rparr>"
      using assms Deserialize_term_rest [of "Uint64 bs" rest] bs by simp
    then show ?thesis using bs by (simp add: Serialize_def)
  qed
qed

section \<open>Views\<close>

lemma entry_of_length: "entry_of v i = Some bs \<Longrightarrow> bs \<in> set (snd v)"
  by (auto simp: entry_of_def last_of_def split: if_splits)

lemma entry_of_cut:
  assumes "fst v \<le> n" and "n \<le> last_of v"
  shows "entry_of (fst v, take (n - fst v) (snd v) @ bss) i =
     (if i \<le> n then entry_of v i else if i \<le> n + length bss then Some (bss ! (i - n - 1)) else None)"
proof -
  have "length (take (n - fst v) (snd v)) = n - fst v" using assms by (simp add: last_of_def)
  then show ?thesis using assms by (auto simp: entry_of_def last_of_def nth_append)
qed

lemma last_of_cut:
  assumes "fst v \<le> n" and "n \<le> last_of v"
  shows "last_of (fst v, take (n - fst v) (snd v) @ bss) = n + length bss"
  using assms by (auto simp: last_of_def min_def)

lemma term_at_Serialize: "entry_of v i = Some (Serialize e) \<Longrightarrow> term_at v i = Some (Term e)"
  by (rule Serialize_readable [of e]) (simp add: term_at_def)

lemma term_at_cong: "entry_of v i = entry_of w j \<Longrightarrow> term_at v i = term_at w j"
  by (simp add: term_at_def)

definition reliable :: "('l, 'z) golog_scheme \<Rightarrow> bool" where
  "reliable L \<longleftrightarrow> (\<forall>l bs. fst (gl_Write L l bs) \<noteq> None) \<and> (\<forall>l i. fst (gl_TruncateFrom L l i))"

lemma golog_write:
  assumes "golog_laws L view" and "last_of (view l) < 2 ^ 63" and "gl_Write L l bs = (res, l')"
  shows "view l' = (if res = None then view l else (fst (view l), snd (view l) @ [bs]))"
proof -
  note laws = assms(1) [unfolded golog_laws_def, THEN spec, THEN mp, OF assms(2)]
  show ?thesis
    using laws [THEN conjunct2, THEN conjunct2, THEN conjunct1, THEN spec, of bs] assms(3)
    by (cases res) simp_all
qed

lemma golog_truncate:
  assumes "golog_laws L view" and "last_of (view l) < 2 ^ 63" and "fst (view l) < i" "i < 2 ^ 63"
    and "gl_TruncateFrom L l (word_of_nat i) = (ok, l')"
  shows "view l' = (if ok then (fst (view l), take (i - 1 - fst (view l)) (snd (view l))) else view l)"
proof -
  have i: "unat (word_of_nat i :: u64) = i" using assms(4) by simp
  note laws = assms(1) [unfolded golog_laws_def, THEN spec, THEN mp, OF assms(2)]
  note cut = laws [THEN conjunct2, THEN conjunct2, THEN conjunct2, THEN conjunct2, THEN conjunct2,
      THEN conjunct1, THEN spec, THEN mp, of "word_of_nat i", unfolded i, OF assms(3)]
  show ?thesis using cut assms(5) by (cases ok) (simp_all add: diff_commute)
qed

section \<open>Appending\<close>

text \<open>
  \<open>agree_len v i es\<close>: how many of the entries, the first for index \<open>i\<close>, the log already holds with
  the same terms. \<open>append_spec v prev es\<close>: the log after a request, as Raft specifies it.
\<close>

primrec agree_len :: "logview \<Rightarrow> nat \<Rightarrow> LogEntry list \<Rightarrow> nat" where
  "agree_len v i [] = 0"
| "agree_len v i (e # es) = (if term_at v i = Some (Term e) then Suc (agree_len v (Suc i) es) else 0)"

definition cut_and_add :: "logview \<Rightarrow> nat \<Rightarrow> LogEntry list \<Rightarrow> logview" where
  "cut_and_add v n es = (fst v, take (n - fst v) (snd v) @ map Serialize es)"

definition append_spec :: "logview \<Rightarrow> nat \<Rightarrow> LogEntry list \<Rightarrow> logview" where
  "append_spec v prev es =
     (let m = agree_len v (Suc prev) es in
      if m = length es then v else cut_and_add v (prev + m) (drop m es))"

lemma agree_len_le: "agree_len v i es \<le> length es"
  by (induction es arbitrary: i) auto

lemma agree_len_terms: "k < agree_len v i es \<Longrightarrow> term_at v (i + k) = Some (Term (es ! k))"
proof (induction es arbitrary: i k)
  case (Cons e es)
  show ?case
  proof (cases k)
    case (Suc k')
    then show ?thesis using Cons.prems Cons.IH [of k' "Suc i"] by (auto split: if_splits)
  qed (use Cons.prems in \<open>auto split: if_splits\<close>)
qed simp

lemma agree_len_stop:
  "agree_len v i es < length es \<Longrightarrow> term_at v (i + agree_len v i es) \<noteq> Some (Term (es ! agree_len v i es))"
proof (induction es arbitrary: i)
  case (Cons e es)
  then show ?case using Cons.IH [of "Suc i"] by auto
qed simp

lemma agree_len_in_log: "i \<le> Suc (last_of v) \<Longrightarrow> i + agree_len v i es \<le> Suc (last_of v)"
  using agree_len_terms [of "agree_len v i es - 1" v i es] term_at_domain
  by (cases "agree_len v i es") fastforce+

lemma writeEntries_view:
  assumes "golog_laws L view" and "last_of (view l) + length es < 2 ^ 63"
    and "writeEntries L es l = (ok, l')"
  shows "\<exists>j\<le>length es. view l' = (fst (view l), snd (view l) @ map Serialize (take j es))
           \<and> (reliable L \<longrightarrow> ok \<and> j = length es)"
  using assms(2,3)
proof (induction es arbitrary: l)
  case (Cons e es)
  obtain o1 l1 where w: "gl_Write L l (Serialize e) = (o1, l1)" by (cases "gl_Write L l (Serialize e)")
  have small: "last_of (view l) < 2 ^ 63" using Cons.prems by simp
  show ?case
  proof (cases o1)
    case None
    then have "view l1 = view l" "\<not> reliable L"
      using golog_write [OF assms(1) small w] w by (auto simp: reliable_def) (metis fst_conv)
    then show ?thesis using Cons.prems w None by (intro exI [of _ 0]) auto
  next
    case (Some i)
    have v1: "view l1 = (fst (view l), snd (view l) @ [Serialize e])"
      using golog_write [OF assms(1) small w] Some by simp
    have "last_of (view l1) + length es < 2 ^ 63" "writeEntries L es l1 = (ok, l')"
      using Cons.prems w Some v1 by (auto simp: last_of_def)
    from Cons.IH [OF this] obtain j where "j \<le> length es"
      "view l' = (fst (view l1), snd (view l1) @ map Serialize (take j es))" "reliable L \<longrightarrow> ok \<and> j = length es"
      by blast
    then show ?thesis using v1 by (intro exI [of _ "Suc j"]) auto
  qed
qed simp

lemma write_and_commit_view:
  assumes "golog_laws L view" and "last_of (view l) + length es < 2 ^ 63"
  obtains j where "j \<le> length es" "view (write_and_commit L es l) = (fst (view l), snd (view l) @ map Serialize (take j es))"
    "reliable L \<longrightarrow> j = length es"
proof -
  obtain ok l' where w: "writeEntries L es l = (ok, l')" by (cases "writeEntries L es l")
  from writeEntries_view [OF assms w] obtain j where j: "j \<le> length es"
    "view l' = (fst (view l), snd (view l) @ map Serialize (take j es))" "reliable L \<longrightarrow> j = length es" by blast
  have "last_of (view l') < 2 ^ 63" using j(1,2) assms(2) by (auto simp: last_of_def min_def)
  then have "view (gl_Commit L l') = view l'" using assms(1) by (simp add: golog_laws_def)
  then show ?thesis using that [OF j(1)] j w by (cases ok) (auto simp: write_and_commit_def)
qed

text \<open>
  Whether or not the log's writes succeed, the result is the log as it was, or the log cut at the
  first disagreement with some of the request's entries after it.
\<close>

lemma append_from_view:
  assumes laws: "golog_laws L view" and "view_ok (view l)" and "fst (view l) < i" "i \<le> Suc (last_of (view l))"
    and "i + length es \<le> 2 ^ 63"
  defines "m \<equiv> agree_len (view l) i es"
  shows "(view (append_from L (word_of_nat i) es l) = view l \<and> (reliable L \<longrightarrow> m = length es))
     \<or> (m < length es \<and> (\<exists>j\<le>length es - m. view (append_from L (word_of_nat i) es l)
            = cut_and_add (view l) (i - 1 + m) (take j (drop m es)) \<and> (reliable L \<longrightarrow> j = length es - m)))"
  using assms(3-5) unfolding m_def
proof (induction es arbitrary: i)
  case (Cons e es)
  have small: "i < 2 ^ 63" using Cons.prems by simp
  note rd = golog_reads(2) [OF laws assms(2), of "word_of_nat i", unfolded unat_index [OF small]]
  show ?case
  proof (cases "i \<le> last_of (view l)")
    case False
    then have i: "i = Suc (last_of (view l))" using Cons.prems by simp
    then have no: "entry_of (view l) i = None" "term_at (view l) i = None"
      by (simp_all add: entry_of_def term_at_def)
    have "last_of (view l) + length (e # es) < 2 ^ 63" using Cons.prems i by simp
    then obtain j where j: "j \<le> length (e # es)" "reliable L \<longrightarrow> j = length (e # es)"
      "view (write_and_commit L (e # es) l) = (fst (view l), snd (view l) @ map Serialize (take j (e # es)))"
      by (rule write_and_commit_view [OF laws])
    have "take (last_of (view l) - fst (view l)) (snd (view l)) = snd (view l)" by (simp add: last_of_def)
    then show ?thesis using j no rd i by (auto simp: cut_and_add_def)
  next
    case True
    obtain bs x where x: "entry_of (view l) i = Some bs" "DeserializeLogEntry bs = Inr x"
      "term_at (view l) i = Some (Term x)"
      by (rule term_at_Some [OF assms(2) Cons.prems(1) True])
    show ?thesis
    proof (cases "Term x = Term e")
      case same: True
      have "append_from L (word_of_nat i) (e # es) l = append_from L (word_of_nat (Suc i)) es l"
        using x rd same by (simp add: add.commute)
      then show ?thesis
        using Cons.IH [of "Suc i"] Cons.prems True x(3) same by auto
    next
      case False
      obtain ok l1 where t: "gl_TruncateFrom L l (word_of_nat i) = (ok, l1)"
        by (cases "gl_TruncateFrom L l (word_of_nat i)")
      note tv = golog_truncate [OF laws _ Cons.prems(1) small t]
      have lv: "last_of (view l) < 2 ^ 63" using assms(2) by (simp add: view_ok_def)
      show ?thesis
      proof (cases ok)
        case no: False
        then have "\<not> reliable L" using t unfolding reliable_def by (metis fst_conv)
        then show ?thesis using x rd False t tv [OF lv] no by auto
      next
        case yes: True
        have "last_of (view l1) + length (e # es) < 2 ^ 63"
          using tv [OF lv] yes Cons.prems by (auto simp: last_of_def)
        then obtain j where j: "j \<le> length (e # es)" "reliable L \<longrightarrow> j = length (e # es)"
          "view (write_and_commit L (e # es) l1) = (fst (view l1), snd (view l1) @ map Serialize (take j (e # es)))"
          by (rule write_and_commit_view [OF laws])
        have "append_from L (word_of_nat i) (e # es) l = write_and_commit L (e # es) l1"
          using x rd False t yes by simp
        then show ?thesis using j tv [OF lv] yes False x(3) by (auto simp: cut_and_add_def)
      qed
    qed
  qed
qed simp


lemma appendEntries_view:
  assumes "golog_laws L view" and "view_ok (view l)" and "fst (view l) \<le> unat prev" "unat prev \<le> last_of (view l)"
    and "unat prev + length es < 2 ^ 63"
  defines "m \<equiv> agree_len (view l) (Suc (unat prev)) es"
  shows "(view (appendEntries L prev es l) = view l \<and> (reliable L \<longrightarrow> m = length es))
     \<or> (m < length es \<and> (\<exists>j\<le>length es - m. view (appendEntries L prev es l)
            = cut_and_add (view l) (unat prev + m) (take j (drop m es)) \<and> (reliable L \<longrightarrow> j = length es - m)))"
proof -
  have "prev + 1 = word_of_nat (Suc (unat prev))" by simp
  then show ?thesis
    using append_from_view [OF assms(1,2), of "Suc (unat prev)" es] assms(3-5)
    by (simp add: appendEntries_def m_def del: of_nat_Suc)
qed

lemma appendEntries_spec:
  assumes "golog_laws L view" and "view_ok (view l)" and "fst (view l) \<le> unat prev" "unat prev \<le> last_of (view l)"
    and "unat prev + length es < 2 ^ 63" and "reliable L"
  shows "view (appendEntries L prev es l) = append_spec (view l) (unat prev) es"
  using appendEntries_view [OF assms(1-5)] assms(6) by (auto simp: append_spec_def Let_def)

text \<open>
  The entries of a specified append: below the first disagreement the log is as it was, from there
  on it holds the request's entries.
\<close>

lemma append_spec_entries:
  fixes es :: "LogEntry list"
  assumes "fst v \<le> n" "n \<le> last_of v"
  defines "m \<equiv> agree_len v (Suc n) es"
  shows "i \<le> n + m \<Longrightarrow> entry_of (append_spec v n es) i = entry_of v i"
    and "n + m < i \<Longrightarrow> i \<le> n + length es \<Longrightarrow> entry_of (append_spec v n es) i = Some (Serialize (es ! (i - n - 1)))"
    and "n + length es \<le> last_of (append_spec v n es)" and "fst (append_spec v n es) = fst v"
    and "m < length es \<Longrightarrow> last_of (append_spec v n es) = n + length es"
proof -
  have m: "m \<le> length es" "n + m \<le> last_of v"
    using agree_len_le agree_len_in_log [of "Suc n" v es] assms(2) by (auto simp: m_def)
  have c: "fst v \<le> n + m" using assms(1) by simp
  note cut = entry_of_cut [OF c m(2), of "map Serialize (drop m es)"]
    last_of_cut [OF c m(2), of "map Serialize (drop m es)"]
  have d: "append_spec v n es = (if m = length es then v
      else (fst v, take (n + m - fst v) (snd v) @ map Serialize (drop m es)))"
    by (simp add: append_spec_def cut_and_add_def m_def Let_def)
  show "entry_of (append_spec v n es) i = entry_of v i" if "i \<le> n + m"
    using that cut(1) [of i] by (simp add: d)
  show "entry_of (append_spec v n es) i = Some (Serialize (es ! (i - n - 1)))"
    if "n + m < i" "i \<le> n + length es"
  proof -
    have "drop m es ! (i - (n + m) - 1) = es ! (i - n - 1)" "i - (n + m) - 1 < length (drop m es)"
      using that by (auto simp: nth_drop intro!: arg_cong [of _ _ "(!) es"])
    then show ?thesis using that m cut(1) [of i] by (simp add: d)
  qed
  show "n + length es \<le> last_of (append_spec v n es)" using m cut(2) by (simp add: d)
  show "fst (append_spec v n es) = fst v" by (simp add: d)
  show "last_of (append_spec v n es) = n + length es" if "m < length es" using that cut(2) by (simp add: d)
qed

lemma append_spec_terms:
  assumes "fst v \<le> n" "n \<le> last_of v" and "k < length es"
  shows "term_at (append_spec v n es) (n + k + 1) = Some (Term (es ! k))"
proof (cases "k < agree_len v (Suc n) es")
  case True
  then have "n + k + 1 \<le> n + agree_len v (Suc n) es" by simp
  from append_spec_entries(1) [OF assms(1,2) this] agree_len_terms [OF True]
  show ?thesis by (simp add: term_at_def)
next
  case False
  then show ?thesis
    using append_spec_entries(2) [OF assms(1,2), of es "n + k + 1"] assms(3) by (intro term_at_Serialize) simp
qed

section \<open>The follower's handler\<close>

text \<open>
  \<open>same_log r r'\<close>: the two states have the same log, snapshot position and commit index, and the
  same requests to send.
\<close>

definition same_log :: "('l, 's) raft \<Rightarrow> ('l, 's) raft \<Rightarrow> bool" where
  "same_log r r' \<longleftrightarrow> wal r' = wal r \<and> snapshotIndex r' = snapshotIndex r \<and> snapshotTerm r' = snapshotTerm r
     \<and> commitIndex (store r') = commitIndex (store r) \<and> spawned r' = spawned r \<and> nid r' = nid r"

interpretation same_log: step_preorder same_log
  by unfold_locales (auto simp: same_log_def)

lemma same_log_upd [simp]:
  "same_log r (upd_leader p g r)" "same_log r (upd_follower p h r)" "same_log r (r\<lparr>chans := cs\<rparr>)"
  "same_log r (r\<lparr>healthy := b, enabled := c\<rparr>)" "same_log r (upd_store (SetLeaderId x) r)"
  "same_log r (r\<lparr>role := ro\<rparr>)" "same_log r (r\<lparr>rgen := gg\<rparr>)" "same_log r (r\<lparr>roleEpoch := e\<rparr>)"
  by (auto simp: same_log_def upd_leader_def upd_follower_def upd_store_def SetLeaderId_def
      split: option.splits role_obj.splits)

lemma same_log_close_chans: "on_states (same_log r) (close_chans cs r)"
proof (induction cs arbitrary: r)
  case (Cons c cs)
  show ?case
    unfolding close_chans.simps
    by (rule same_log.bind [OF _ Cons.IH]) (auto simp: close_chan_def same_log_def split: option.splits)
qed (simp add: same_log_def)

lemma same_log_drain: "on_states (same_log r) (drain_pending p ws r)"
proof (induction ws arbitrary: r)
  case (Cons w ws)
  show ?case
    unfolding drain_pending.simps
    by (rule same_log.bind [OF same_log_close_chans same_log.via [OF same_log_upd(1) Cons.IH]])
qed (simp add: same_log_def)

lemma same_log_exit_role: "on_states (same_log r) (exit_role r)"
proof -
  have "on_states (same_log r) (stopApplier p r)" for p
    by (auto simp: stopApplier_def same_log.R_refl split: option.splits role_obj.splits)
  then have "on_states (same_log r) (OnExit p r)" for p
    by (auto simp: OnExit_def same_log.R_refl split: option.splits role_obj.splits
        intro: same_log.bind same_log_drain)
  then show ?thesis by (auto simp: exit_role_def same_log.R_refl split: option.splits)
qed

lemma same_log_on_store:
  "on_store (SetCurrentTermAndVotedFor t v) r = (err, r1) \<Longrightarrow> same_log r r1"
  by (auto simp: on_store_def same_log_def SetCurrentTermAndVotedFor_def Let_def split: prod.splits option.splits)

lemma same_log_markUnhealthy: "on_states (same_log r) (markUnhealthy r)"
  unfolding markUnhealthy_def by (rule same_log.via [OF same_log_upd(4) same_log_exit_role])

lemma same_log_becomeFollower: "on_states (same_log r) (becomeFollower t r)"
proof -
  have new: "on_states (same_log r) (NewFollowerRole r)" for r :: "('l, 's) raft"
    by (auto simp: NewFollowerRole_def alloc_def same_log_def split: option.splits)
  have enter: "on_states (same_log r) (Follower_OnEnter t r)" for r :: "('l, 's) raft"
    by (auto simp: Follower_OnEnter_def split: prod.splits option.splits
        intro: same_log.via [OF same_log_on_store same_log_markUnhealthy]
          same_log.R_trans [OF same_log_on_store same_log_upd(5)])
  show ?thesis
    unfolding becomeFollower_def
    by (intro same_log.bind [OF same_log_exit_role] same_log.bind [OF same_log.via [OF same_log_upd(8) new]]
        same_log.bind [OF same_log.via [OF same_log_upd(6) enter]] same_log.ret)
qed

lemma same_log_resetElectionTimer: "on_states (same_log r) (resetElectionTimer p r)"
  by (auto simp: resetElectionTimer_def same_log.R_refl split: option.splits
      intro: same_log.R_trans [OF same_log_upd(7) same_log_upd(2)])

lemma same_log_apply_command: "on_states (same_log r) (apply_command E e r)"
  by (auto simp: apply_command_def run_machine_def Let_def same_log_def split: outcome.splits prod.splits bool.splits)

lemma same_log_apply_loop: "on_states (same_log r) (apply_loop E n i r)"
proof (induction n arbitrary: i r)
  case (Suc n)
  have "same_log r (upd_store (\<lambda>s. s\<lparr>lastApplied := i\<rparr>) r)" for r :: "('l, 's) raft"
    by (simp add: same_log_def upd_store_def)
  then have "on_states (same_log r) (bindO (apply_command E e r)
      (\<lambda>r a. apply_loop E n (i + 1) (upd_store (\<lambda>s. s\<lparr>lastApplied := i\<rparr>) r)))" for e
    by (intro same_log.bind [OF same_log_apply_command] same_log.via [OF _ Suc.IH])
  then show ?case by (auto simp: same_log.R_refl split: option.splits sum.splits)
qed (simp add: same_log_def)

lemma same_log_apply: "on_states (same_log r) (applyToFiniteStateMachine_follower E r)"
  by (auto simp: applyToFiniteStateMachine_follower_def Let_def same_log.R_refl same_log_apply_loop)

text \<open>What a successful answer says.\<close>

lemma accept_append_success:
  assumes "accept_append E p leader prev pt es ci r = Ret r' (t', True, a, b)"
  shows "prev \<le> fst (gl_GetLastIndex E (wal r)) \<and> fst (checkLogConsistency E r prev pt)
    \<and> wal r' = appendEntries E prev es (wal r) \<and> snapshotIndex r' = snapshotIndex r \<and> snapshotTerm r' = snapshotTerm r
    \<and> commitIndex (store r') = commitIndex (store (setCommitIndex E ci (r\<lparr>wal := wal r'\<rparr>)))"
proof -
  obtain r1 where r1: "resetElectionTimer p r = Ret r1 ()"
    using assms by (cases "resetElectionTimer p r") (auto simp: accept_append_def Let_def)
  then have s1: "same_log r r1" using same_log_resetElectionTimer [of r p] by simp
  let ?r = "upd_store (SetLeaderId leader) r1"
  have check: "fst (checkLogConsistency E r1 prev pt)" "prev \<le> fst (gl_GetLastIndex E (wal r1))"
    and "\<exists>r3. applyToFiniteStateMachine_follower E
          (setCommitIndex E ci (?r\<lparr>wal := appendEntries E prev es (wal ?r)\<rparr>)) = Ret r3 () \<and> r' = r3"
    using assms r1 by (auto simp: accept_append_def Let_def not_less split: if_splits prod.splits bool.splits)
  then have "same_log (setCommitIndex E ci (?r\<lparr>wal := appendEntries E prev es (wal ?r)\<rparr>)) r'"
    using on_states_dest(1) [OF same_log_apply] by blast
  moreover have "checkLogConsistency E r1 prev pt = checkLogConsistency E r prev pt"
    using s1 unfolding checkLogConsistency_def same_log_def by (elim conjE) (simp only:)
  ultimately show ?thesis
    using check s1
    by (auto simp: same_log_def setCommitIndex_def upd_store_def SetLeaderId_def Let_def split: prod.splits if_splits)
qed


lemma Follower_append_success:
  "Follower_HandleAppendEntries n E p t leader prev pt es ci r = Ret r' (t', True, a, b) \<Longrightarrow>
     \<exists>r1 q. same_log r r1 \<and> accept_append E q leader prev pt es ci r1 = Ret r' (t', True, a, b)"
proof (induction n arbitrary: p r)
  case (Suc n)
  consider "t = currentTerm (store r)" | "currentTerm (store r) < t" | "t < currentTerm (store r)"
    by (rule linorder_cases) auto
  then show ?case
  proof cases
    case 2
    then obtain r1 q where r1: "becomeFollower t r = Ret r1 q"
      and h: "Follower_HandleAppendEntries n E q t leader prev pt es ci r1 = Ret r' (t', True, a, b)"
      using Suc.prems by (auto split: if_splits)
    have "same_log r r1" using same_log_becomeFollower [of r t] r1 by simp
    then show ?thesis using Suc.IH [OF h] same_log.R_trans by blast
  qed (use Suc.prems same_log.R_refl in \<open>auto split: if_splits\<close>)
qed simp

lemma append_success:
  assumes "HandleAppendEntries E t leader prev pt es ci r = Ret r' (t', True, a, b)"
  shows "\<exists>r1 q. same_log r r1 \<and> accept_append E q leader prev pt es ci r1 = Ret r' (t', True, a, b)"
proof -
  have via: "\<exists>r1 q. same_log r r1 \<and> accept_append E q leader prev pt es ci r1 = Ret r' (t', True, a, b)"
    if "bindO (becomeFollower t r)
          (\<lambda>r q. Follower_HandleAppendEntries (stackDepth E) E q t leader prev pt es ci r) = Ret r' (t', True, a, b)"
  proof -
    from that obtain r1 q where r1: "becomeFollower t r = Ret r1 q"
      and h: "Follower_HandleAppendEntries (stackDepth E) E q t leader prev pt es ci r1 = Ret r' (t', True, a, b)"
      by auto
    have "same_log r r1" using same_log_becomeFollower [of r t] r1 by simp
    then show ?thesis using Follower_append_success [OF h] same_log.R_trans by blast
  qed
  show ?thesis
    using assms Follower_append_success via
    by (auto simp: HandleAppendEntries_def on_role_def Candidate_HandleAppendEntries_def Leader_HandleAppendEntries_def
        split: if_splits option.splits role_obj.splits)
qed

text \<open>
  \<open>log_ok view r\<close>: the log of a node is readable, starts no later than its snapshot ends, and an
  entry still kept at the snapshot's last index has the snapshot's term.
\<close>

definition log_ok :: "('l \<Rightarrow> logview) \<Rightarrow> ('l, 's) raft \<Rightarrow> bool" where
  "log_ok view r \<longleftrightarrow>
     view_ok (view (wal r)) \<and> fst (view (wal r)) \<le> unat (snapshotIndex r)
     \<and> (\<forall>t. term_at (view (wal r)) (unat (snapshotIndex r)) = Some t \<longrightarrow> t = snapshotTerm r)"

lemma checkLogConsistency_ok:
  assumes "golog_laws E view" and "log_ok view r" and "fst (checkLogConsistency E r prev pt)"
  shows "prev = 0 \<or> snapshotIndex r \<le> prev \<and> (prev = snapshotIndex r \<and> pt = snapshotTerm r
            \<or> term_at (view (wal r)) (unat prev) = Some pt)"
  using assms(3) golog_reads(2) [OF assms(1), of "wal r" prev] assms(2)
  by (auto simp: checkLogConsistency_def log_ok_def term_at_def split: if_splits option.splits sum.splits)

lemma append_success_log:
  assumes "HandleAppendEntries E t leader prev pt es ci r = Ret r' (t', True, a, b)"
    and "golog_laws E view" and "log_ok view r" and "prev = 0 \<longrightarrow> fst (view (wal r)) = 0"
  shows "wal r' = appendEntries E prev es (wal r)"
    and "fst (view (wal r)) \<le> unat prev" "unat prev \<le> last_of (view (wal r))"
    and "prev = 0 \<or> snapshotIndex r \<le> prev \<and> (prev = snapshotIndex r \<and> pt = snapshotTerm r
            \<or> term_at (view (wal r)) (unat prev) = Some pt)"
    and "commitIndex (store r') = commitIndex (store (setCommitIndex E ci (r\<lparr>wal := wal r'\<rparr>)))"
proof -
  obtain r1 q where r1: "same_log r r1" and acc: "accept_append E q leader prev pt es ci r1 = Ret r' (t', True, a, b)"
    using append_success [OF assms(1)] by blast
  note s = accept_append_success [OF acc]
  have w: "wal r1 = wal r" "snapshotIndex r1 = snapshotIndex r" "snapshotTerm r1 = snapshotTerm r"
    "commitIndex (store r1) = commitIndex (store r)"
    using r1 by (simp_all add: same_log_def)
  have ok1: "log_ok view r1" using assms(3) by (simp add: log_ok_def w)
  have ok: "view_ok (view (wal r))" "fst (view (wal r)) \<le> unat (snapshotIndex r)"
    using assms(3) by (simp_all add: log_ok_def)
  show "wal r' = appendEntries E prev es (wal r)" using s by (simp add: w)
  show c: "prev = 0 \<or> snapshotIndex r \<le> prev \<and> (prev = snapshotIndex r \<and> pt = snapshotTerm r
            \<or> term_at (view (wal r)) (unat prev) = Some pt)"
    using checkLogConsistency_ok [OF assms(2) ok1] s by (simp add: w)
  then show "fst (view (wal r)) \<le> unat prev"
    using ok(2) assms(4) by (auto simp: word_le_nat_alt)
  show "unat prev \<le> last_of (view (wal r))"
    using s golog_reads(1) [OF assms(2) ok(1)] ok(1) by (simp add: w word_le_nat_alt view_ok_def)
  show "commitIndex (store r') = commitIndex (store (setCommitIndex E ci (r\<lparr>wal := wal r'\<rparr>)))"
    using s by (auto simp: setCommitIndex_def w upd_store_def Let_def split: prod.splits)
qed


section \<open>The leader's requests\<close>

lemma read_batch_slice:
  assumes "golog_laws L view" and "view_ok (view l)" and "fst (view l) < i" "i + n \<le> Suc (last_of (view l))"
  shows "length (read_batch L l n (word_of_nat i)) = n \<and>
     (\<forall>k<n. entry_of (view l) (i + k) = Some (Serialize (read_batch L l n (word_of_nat i) ! k)))"
  using assms(3,4)
proof (induction n arbitrary: i)
  case (Suc n)
  have in_log: "i \<le> last_of (view l)" "i < 2 ^ 63" using Suc.prems assms(2) by (auto simp: view_ok_def)
  obtain bs e where e: "entry_of (view l) i = Some bs" "DeserializeLogEntry bs = Inr e"
    by (rule term_at_Some [OF assms(2) Suc.prems(1) in_log(1)])
  have "gl_Read L l (word_of_nat i) = Some bs"
    using golog_reads(2) [OF assms(1,2), of "word_of_nat i"] in_log(2) e(1) by simp
  then have step: "read_batch L l (Suc n) (word_of_nat i) = e # read_batch L l n (word_of_nat (Suc i))"
    using e(2) by (simp add: add.commute)
  have "entry_of (view l) (i + k) = Some (Serialize ((e # read_batch L l n (word_of_nat (Suc i))) ! k))"
    if "k < Suc n" for k
    using that Suc.IH [of "Suc i"] Suc.prems e Serialize_Deserialize [OF e(2)] by (cases k) auto
  then show ?case using Suc.IH [of "Suc i"] Suc.prems unfolding step by simp
qed simp

lemma batch_slice:
  assumes "golog_laws E view" and "view_ok (view (wal r))" and "fst (view (wal r)) < unat next"
    and "0 < MaxBatchEntries (config r)" "MaxBatchEntries (config r) < 2 ^ 63"
  shows "length (batch E r next) = min (nat (MaxBatchEntries (config r))) (Suc (last_of (view (wal r))) - unat next)"
    and "k < length (batch E r next) \<Longrightarrow>
      entry_of (view (wal r)) (unat next + k) = Some (Serialize (batch E r next ! k))"
proof -
  define v n mx where "v = view (wal r)" and "n = unat next" and "mx = nat (MaxBatchEntries (config r))"
  have last: "fst (gl_GetLastIndex E (wal r)) = word_of_nat (last_of v)" "last_of v < 2 ^ 63"
    using golog_reads(1) [OF assms(1,2)] assms(2) by (simp_all add: v_def view_ok_def)
  have nx: "next = word_of_nat n" by (simp add: n_def)
  have mx: "0 < mx" "mx < 2 ^ 63" "(word_of_int (MaxBatchEntries (config r)) :: u64) = word_of_nat mx"
    using assms(4,5) by (auto simp: mx_def of_nat_nat)
  have le: "next \<le> word_of_nat (last_of v) \<longleftrightarrow> n \<le> last_of v"
    using last(2) by (simp add: word_le_nat_alt n_def)
  have "batch E r next = read_batch E (wal r) (min mx (Suc (last_of v) - n)) (word_of_nat n)"
  proof (cases "n \<le> last_of v")
    case True
    obtain c where c: "c = Suc (last_of v - n)" by simp
    have cnt: "word_of_nat (last_of v) - next + 1 = (word_of_nat c :: u64)" "c < 2 ^ 63 + 1"
      using True last(2) by (simp_all add: nx c of_nat_diff)
    have mxn: "next + word_of_nat mx - 1 - next + 1 = (word_of_nat mx :: u64)" by simp
    have c64: "unat (word_of_nat c :: u64) = c" "unat (word_of_nat mx :: u64) = mx"
      using cnt(2) mx(2) by (simp_all add: unat_of_nat take_bit_nat_eq_self)
    have "batch E r next = read_batch E (wal r)
        (unat (if word_of_nat mx < (word_of_nat c :: u64) then word_of_nat mx else word_of_nat c :: u64)) next"
      using True by (simp add: batch_def last(1) le mx(3) Let_def cnt(1) mxn)
    also have "unat (if word_of_nat mx < (word_of_nat c :: u64) then word_of_nat mx else word_of_nat c :: u64)
        = min mx (Suc (last_of v) - n)"
    proof -
      have "Suc (last_of v) - n = c" using True c by simp
      then show ?thesis by (simp add: word_less_nat_alt c64)
    qed
    finally show ?thesis by (simp add: nx)
  qed (simp add: batch_def last le Let_def)
  then have b: "batch E r next = read_batch E (wal r) (min mx (Suc (last_of v) - n)) (word_of_nat n)" .
  have "length (batch E r next) = min mx (Suc (last_of v) - n)
      \<and> (\<forall>k<min mx (Suc (last_of v) - n). entry_of v (n + k) = Some (Serialize (batch E r next ! k)))"
  proof (cases "n \<le> Suc (last_of v)")
    case True
    then have "n + min mx (Suc (last_of v) - n) \<le> Suc (last_of v)" by simp
    then show ?thesis
      using read_batch_slice [OF assms(1,2), of n "min mx (Suc (last_of v) - n)"] assms(3)
      unfolding b by (simp add: v_def n_def)
  qed (simp add: b)
  then show "length (batch E r next) = min mx (Suc (last_of v) - n)"
    and "k < length (batch E r next) \<Longrightarrow> entry_of v (n + k) = Some (Serialize (batch E r next ! k))"
    by simp_all
qed

lemma prev_term_value:
  assumes "golog_laws E view" and "log_ok view r"
    and "term_at (view (wal r)) (unat prev) = Some t"  "0 < prev"
  shows "prev_term E r prev = t"
  using assms golog_reads(2) [OF assms(1), of "wal r" prev]
  by (auto simp: prev_term_def log_ok_def term_at_def split: option.splits sum.splits)

lemma append_request_slice:
  assumes "golog_laws E view" and "log_ok view r" and "snapshotIndex r < next"
    and "unat next \<le> Suc (last_of (view (wal r)))"
    and "0 < MaxBatchEntries (config r)" "MaxBatchEntries (config r) < 2 ^ 63"
    and "append_request E p node t next r = SendAppendEntries p' node' t' leader prev pt es ci"
  shows "unat next = Suc (unat prev)"
    and "prev = 0 \<or> prev = snapshotIndex r \<and> pt = snapshotTerm r \<or> term_at (view (wal r)) (unat prev) = Some pt"
    and "length es = min (nat (MaxBatchEntries (config r))) (last_of (view (wal r)) - unat prev)"
    and "k < length es \<Longrightarrow> entry_of (view (wal r)) (unat next + k) = Some (Serialize (es ! k))"
proof -
  have ok: "view_ok (view (wal r))" "fst (view (wal r)) \<le> unat (snapshotIndex r)"
    using assms(2) by (simp_all add: log_ok_def)
  have pos: "0 < next" using assms(3) by (metis le_less_trans word_zero_le)
  have nz: "next \<noteq> 0" using pos by auto
  have n: "unat next = Suc (unat (next - 1))" "unat (snapshotIndex r) \<le> unat (next - 1)"
    using unat_minus_one [OF nz] assms(3) by (simp_all add: word_less_nat_alt)
  have st: "fst (view (wal r)) < unat next" using ok(2) n by simp
  have "next - 1 = 0 \<or> next - 1 = snapshotIndex r \<and> prev_term E r (next - 1) = snapshotTerm r
      \<or> term_at (view (wal r)) (unat (next - 1)) = Some (prev_term E r (next - 1))"
  proof (cases "next - 1 = 0 \<or> next - 1 = snapshotIndex r")
    case False
    then have "unat (snapshotIndex r) \<noteq> unat (next - 1)" by (auto simp: word_unat_eq_iff)
    with n(2) ok(2) have a: "fst (view (wal r)) < unat (next - 1)" by simp
    have b: "unat (next - 1) \<le> last_of (view (wal r))" using assms(4) n(1) by simp
    obtain e where "term_at (view (wal r)) (unat (next - 1)) = Some e"
      by (rule term_at_Some [OF ok(1) a b]) blast
    then show ?thesis using prev_term_value [OF assms(1,2)] False by (auto simp: word_gt_0)
  qed (auto simp: prev_term_def word_gt_0)
  moreover have "prev = next - 1" "pt = prev_term E r (next - 1)" "es = batch E r next"
    using assms(7) pos by (auto simp: append_request_def Let_def)
  ultimately show "unat next = Suc (unat prev)"
    and "prev = 0 \<or> prev = snapshotIndex r \<and> pt = snapshotTerm r \<or> term_at (view (wal r)) (unat prev) = Some pt"
    and "length es = min (nat (MaxBatchEntries (config r))) (last_of (view (wal r)) - unat prev)"
    and "k < length es \<Longrightarrow> entry_of (view (wal r)) (unat next + k) = Some (Serialize (es ! k))"
    using batch_slice [OF assms(1) ok(1) st assms(5,6)] n(1) by simp_all
qed

section \<open>Matching logs\<close>

text \<open>
  Two logs match when entries of the same index and term agree, and all entries before them that
  both logs still hold.
\<close>

definition matching :: "logview \<Rightarrow> logview \<Rightarrow> bool" where
  "matching v w \<longleftrightarrow>
     (\<forall>i t. term_at v i = Some t \<longrightarrow> term_at w i = Some t \<longrightarrow>
        (\<forall>j\<le>i. fst v < j \<longrightarrow> fst w < j \<longrightarrow> entry_of v j = entry_of w j))"

lemma matchingD:
  "matching v w \<Longrightarrow> term_at v i = Some t \<Longrightarrow> term_at w i = Some t \<Longrightarrow> j \<le> i \<Longrightarrow> fst v < j \<Longrightarrow> fst w < j \<Longrightarrow>
     entry_of v j = entry_of w j"
  unfolding matching_def by blast

lemma append_spec_matching:
  assumes "matching v w" and "fst w \<le> n" "n \<le> last_of w"
    and slice: "\<And>k. k < length es \<Longrightarrow> entry_of v (n + 1 + k) = Some (Serialize (es ! k))"
    and base: "\<And>j. j \<le> n \<Longrightarrow> fst v < j \<Longrightarrow> fst w < j \<Longrightarrow> entry_of v j = entry_of w j"
  shows "matching v (append_spec w n es)"
    and "n < i \<Longrightarrow> i \<le> n + length es \<Longrightarrow> entry_of (append_spec w n es) i = entry_of v i"
proof -
  define m where "m = agree_len w (Suc n) es"
  have ml: "m \<le> length es" by (simp add: m_def agree_len_le)
  note new = append_spec_entries [OF assms(2,3), where es = es, folded m_def]
  have below: "entry_of v j = entry_of w j" if "j \<le> n + m" "fst v < j" "fst w < j" for j
  proof (cases "m = 0")
    case False
    then have "term_at w (n + m) = Some (Term (es ! (m - 1)))"
      using agree_len_terms [of "m - 1" w "Suc n" es] by (simp add: m_def)
    moreover have "term_at v (n + m) = Some (Term (es ! (m - 1)))"
      using slice [of "m - 1"] False ml by (intro term_at_Serialize) simp
    ultimately show ?thesis using matchingD [OF assms(1)] that by blast
  qed (use that base in simp)
  have slice': "entry_of v i = Some (Serialize (es ! (i - n - 1)))" if "n < i" "i \<le> n + length es" for i
    using that slice [of "i - n - 1"] by simp
  have vstart: "fst v < i" if "n < i" "i \<le> n + length es" for i
    using slice' [OF that] by (auto simp: entry_of_def split: if_splits)
  show all: "entry_of (append_spec w n es) i = entry_of v i" if "n < i" "i \<le> n + length es" for i
    using that new(1,2) [of i] slice' [of i] below [of i] vstart [of i] assms(2) by (cases "i \<le> n + m") auto
  show "matching v (append_spec w n es)"
  proof (cases "m = length es")
    case True
    then show ?thesis using assms(1) by (simp add: append_spec_def m_def)
  next
    case False
    then have last: "last_of (append_spec w n es) = n + length es" using new(5) ml by simp
    show ?thesis
      unfolding matching_def
    proof (intro allI impI)
      fix i t j
      assume "term_at (append_spec w n es) i = Some t" "j \<le> i" "fst v < j" "fst (append_spec w n es) < j"
      then have j: "j \<le> n + length es" "fst v < j" "fst w < j"
        using term_at_domain last new(4) by fastforce+
      show "entry_of v j = entry_of (append_spec w n es) j"
        using all [of j] below [of j] new(1) [of j] j by (cases "n < j") auto
    qed
  qed
qed

end
