(* ===== verification/Election.thy ===== *)
theory Election
  imports Raft "HOL-Library.Multiset"
begin

text \<open>
  The invariant of one node that elections rest on. A set \<open>V\<close> records the votes seen so far, as
  triples of voter, term and candidate. For each of its candidates a node has counted only votes of
  \<open>V\<close>, of distinct voters and of one term, and the requests still open (unsent requests, and the
  answers \<open>T\<close> under way) are for that term and for voters not counted yet.
\<close>

section \<open>Majorities\<close>

locale quorum_system =
  fixes quorum :: "'n set \<Rightarrow> bool"
  assumes meet: "quorum A \<Longrightarrow> quorum B \<Longrightarrow> A \<inter> B \<noteq> {}"
begin

lemma unique_choice:
  assumes "\<And>n c c'. f n c \<Longrightarrow> f n c' \<Longrightarrow> c = c'"
    and "quorum A" "\<forall>n\<in>A. f n c" and "quorum B" "\<forall>n\<in>B. f n c'"
  shows "c = c'"
  using meet [OF assms(2,4)] assms(1,3,5) by blast

end

definition majority_of :: "gostring list \<Rightarrow> gostring set \<Rightarrow> bool" where
  "majority_of ns A \<longleftrightarrow> A \<subseteq> set ns \<and> length ns div 2 + 1 \<le> card A"

interpretation majority: quorum_system "majority_of ns" for ns
proof unfold_locales
  fix A B
  assume "majority_of ns A" and "majority_of ns B"
  then have sub: "A \<subseteq> set ns" "B \<subseteq> set ns" and big: "length ns < card A + card B"
    by (auto simp: majority_of_def)
  show "A \<inter> B \<noteq> {}"
  proof
    assume "A \<inter> B = {}"
    then have "card A + card B = card (A \<union> B)"
      using sub by (metis card_Un_disjoint finite_set finite_subset)
    also have "\<dots> \<le> card (set ns)" using sub by (simp add: card_mono)
    also have "\<dots> \<le> length ns" by (rule card_length)
    finally show False using big by simp
  qed
qed

section \<open>The invariant of a node\<close>

type_synonym votes = "(gostring \<times> u64 \<times> gostring) set"
type_synonym tickets = "(gostring \<times> u64) multiset"

fun req_ptr :: "goroutine \<Rightarrow> nat" where
  "req_ptr (SendRequestVote p n t c i lt) = p"
| "req_ptr _ = 0"

fun req_key :: "goroutine \<Rightarrow> gostring \<times> u64" where
  "req_key (SendRequestVote p n t c i lt) = (n, t)"
| "req_key _ = ([], 0)"

fun req_from :: "goroutine \<Rightarrow> gostring" where
  "req_from (SendRequestVote p n t c i lt) = c"
| "req_from _ = []"

definition unsent :: "goroutine list \<Rightarrow> nat \<Rightarrow> tickets" where
  "unsent gs p = image_mset req_key (mset (filter (\<lambda>g. req_ptr g = p) gs))"

text \<open>Candidate \<open>a\<close> has the votes of a majority for term \<open>t\<close>.\<close>

definition backed :: "gostring list \<Rightarrow> votes \<Rightarrow> u64 \<Rightarrow> gostring \<Rightarrow> bool" where
  "backed ns V t a \<longleftrightarrow> (\<exists>Q. majority_of ns Q \<and> (\<forall>b\<in>Q. (b, t, a) \<in> V))"

definition counted :: "gostring list \<Rightarrow> votes \<Rightarrow> gostring \<Rightarrow> bool \<Rightarrow> nat \<Rightarrow> tickets \<Rightarrow> bool" where
  "counted ns V a pv v M \<longleftrightarrow>
     (\<exists>t Q. Q \<subseteq> set ns \<and> card Q = v \<and> (\<forall>b\<in>Q. (b, t, a) \<in> V)
        \<and> (\<forall>k\<in>#M. snd k = t \<and> fst k \<in> set ns \<and> fst k \<notin> Q \<and> count M k = 1)
        \<and> (pv \<or> v = 0 \<longrightarrow> v = 0 \<and> M = {#}))"

definition good :: "gostring list \<Rightarrow> votes \<Rightarrow> gostring \<Rightarrow> (nat \<Rightarrow> tickets) \<Rightarrow> ('l, 's) raft \<Rightarrow> bool" where
  "good ns V a T r \<longleftrightarrow>
     nid r = a \<and> nodes r = ns \<and> on_disk r
     \<and> (\<forall>t v. (a, t, v) \<in> V \<longrightarrow> v \<noteq> [] \<and> t \<le> currentTerm (store r)
           \<and> (t = currentTerm (store r) \<longrightarrow> votedFor (store r) = v))
     \<and> (\<forall>g\<in>set (vote_requests r). req_from g = a \<and> req_ptr g < nextPtr r)
     \<and> (\<forall>p. T p \<noteq> {#} \<longrightarrow> p < nextPtr r)
     \<and> (leads r \<longrightarrow> backed ns V (currentTerm (store r)) a)
     \<and> (\<forall>p pv v m ms. candidacy r p = Some (pv, v, m, ms) \<longrightarrow>
           m = length ns div 2 + 1 \<and> ms = ns \<and> counted ns V a pv v (unsent (vote_requests r) p + T p))"

text \<open>The vote a node holds now.\<close>

definition stamp :: "('l, 's) raft \<Rightarrow> votes" where
  "stamp r = (if votedFor (store r) = [] then {} else {(nid r, currentTerm (store r), votedFor (store r))})"

lemma countedE:
  assumes "counted ns V a pv v M"
  obtains t Q where "Q \<subseteq> set ns" "card Q = v" "\<forall>b\<in>Q. (b, t, a) \<in> V"
    "\<forall>k\<in>#M. snd k = t \<and> fst k \<in> set ns \<and> fst k \<notin> Q \<and> count M k = 1"
    "pv \<or> v = 0 \<longrightarrow> v = 0 \<and> M = {#}"
  using assms unfolding counted_def by (elim exE conjE) (rule that)

lemma goodI:
  assumes "nid r = a" "nodes r = ns" "on_disk r"
    and "\<And>t v. (a, t, v) \<in> V \<Longrightarrow>
      v \<noteq> [] \<and> t \<le> currentTerm (store r) \<and> (t = currentTerm (store r) \<longrightarrow> votedFor (store r) = v)"
    and "\<And>g. g \<in> set (vote_requests r) \<Longrightarrow> req_from g = a \<and> req_ptr g < nextPtr r"
    and "\<And>p. T p \<noteq> {#} \<Longrightarrow> p < nextPtr r"
    and "leads r \<Longrightarrow> backed ns V (currentTerm (store r)) a"
    and "\<And>p pv v m ms. candidacy r p = Some (pv, v, m, ms) \<Longrightarrow>
      m = length ns div 2 + 1 \<and> ms = ns \<and> counted ns V a pv v (unsent (vote_requests r) p + T p)"
  shows "good ns V a T r"
  unfolding good_def using assms by blast

lemma goodD:
  assumes "good ns V a T r"
  shows "nid r = a" "nodes r = ns" "on_disk r"
    and "(a, t, v) \<in> V \<Longrightarrow>
      v \<noteq> [] \<and> t \<le> currentTerm (store r) \<and> (t = currentTerm (store r) \<longrightarrow> votedFor (store r) = v)"
    and "g \<in> set (vote_requests r) \<Longrightarrow> req_from g = a \<and> req_ptr g < nextPtr r"
    and "T p \<noteq> {#} \<Longrightarrow> p < nextPtr r"
    and "leads r \<Longrightarrow> backed ns V (currentTerm (store r)) a"
    and "candidacy r p = Some (pv, w, m, ms) \<Longrightarrow>
      m = length ns div 2 + 1 \<and> ms = ns \<and> counted ns V a pv w (unsent (vote_requests r) p + T p)"
  using assms unfolding good_def by blast+

section \<open>Growth of the set of votes\<close>

lemma backed_mono: "backed ns V t a \<Longrightarrow> V \<subseteq> V' \<Longrightarrow> backed ns V' t a"
  unfolding backed_def by blast

lemma counted_mono:
  "counted ns V a pv v M \<Longrightarrow> V \<subseteq> V' \<Longrightarrow> counted ns V' a pv v M"
  unfolding counted_def by (elim exE, intro exI) blast

lemma counted_subset:
  assumes "counted ns V a pv v M" and "N \<subseteq># M"
  shows "counted ns V a pv v N"
proof -
  have "count N k = 1" if "k \<in># N" "count M k = 1" for k
    using that mset_subset_eq_count [OF assms(2), of k] by (metis One_nat_def Suc_leI count_greater_zero_iff le_antisym)
  moreover have "k \<in># M" if "k \<in># N" for k using assms(2) that by (rule mset_subset_eqD)
  moreover have "M = {#} \<Longrightarrow> N = {#}" using assms(2) by simp
  ultimately show ?thesis using assms(1) unfolding counted_def by (metis (no_types, lifting))
qed

lemma good_mono:
  assumes "good ns V a T r" and "V \<subseteq> V'" and "\<And>t v. (a, t, v) \<in> V' \<Longrightarrow> (a, t, v) \<in> V"
  shows "good ns V' a T r"
  by (rule goodI [OF goodD(1-3) [OF assms(1)] goodD(4) [OF assms(1) assms(3)] goodD(5,6) [OF assms(1)]
        backed_mono [OF goodD(7) [OF assms(1)] assms(2)]])
    (use goodD(8) [OF assms(1)] counted_mono [OF _ assms(2)] in blast)+

text \<open>The votes of a node never contradict each other.\<close>

lemma stamp_advances:
  assumes "good ns V a T r" and "kept r r'"
  shows "(a, t, v) \<in> V \<union> stamp r' \<Longrightarrow>
           v \<noteq> [] \<and> t \<le> currentTerm (store r') \<and> (t = currentTerm (store r') \<longrightarrow> votedFor (store r') = v)"
proof -
  have adv: "advances (store r) (store r')" using assms(2) by (simp add: kept_def)
  assume "(a, t, v) \<in> V \<union> stamp r'"
  then consider "(a, t, v) \<in> V" | "(a, t, v) \<in> stamp r'" by blast
  then show ?thesis
  proof cases
    case 1
    then have *: "v \<noteq> []" "t \<le> currentTerm (store r)" "t = currentTerm (store r) \<longrightarrow> votedFor (store r) = v"
      using assms(1) by (auto simp: good_def)
    then show ?thesis using adv unfolding advances_def by (metis order_antisym order_trans)
  next
    case 2
    then show ?thesis by (auto simp: stamp_def split: if_splits)
  qed
qed

section \<open>Steps\<close>

lemma kept_basics:
  assumes "good ns V a T r" and "kept r r'"
  shows "nid r' = a" "nodes r' = ns" "on_disk r'"
    and "g \<in> set (vote_requests r) \<Longrightarrow> req_from g = a \<and> req_ptr g < nextPtr r'"
    and "T p \<noteq> {#} \<Longrightarrow> p < nextPtr r'"
proof -
  have "nid r' = nid r" "nodes r' = nodes r" "on_disk r \<longrightarrow> on_disk r'" "nextPtr r \<le> nextPtr r'"
    using assms(2) by (simp_all add: kept_def)
  note k = this
  show "nid r' = a" "nodes r' = ns" "on_disk r'" using goodD(1-3) [OF assms(1)] k by simp_all
  show "g \<in> set (vote_requests r) \<Longrightarrow> req_from g = a \<and> req_ptr g < nextPtr r'"
    using goodD(5) [OF assms(1)] k(4) less_le_trans by blast
  show "T p \<noteq> {#} \<Longrightarrow> p < nextPtr r'" using goodD(6) [OF assms(1)] k(4) less_le_trans by blast
qed

lemma good_frame:
  assumes g: "good ns V a T r" and f: "frame r r'"
  shows "good ns (V \<union> stamp r') a T r'"
proof -
  have k: "kept r r'" using f by (rule frame_kept)
  have req: "vote_requests r' = vote_requests r" using f by (simp add: frame_def)
  show ?thesis
  proof (rule goodI)
    show "leads r' \<Longrightarrow> backed ns (V \<union> stamp r') (currentTerm (store r')) a"
      using goodD(7) [OF g] f by (auto simp: frame_def intro: backed_mono)
    fix p pv v m ms
    assume "candidacy r' p = Some (pv, v, m, ms)"
    then have "candidacy r p = Some (pv, v, m, ms)" using f by (metis frame_def option.distinct(1))
    from goodD(8) [OF g this] show "m = length ns div 2 + 1 \<and> ms = ns \<and>
        counted ns (V \<union> stamp r') a pv v (unsent (vote_requests r') p + T p)"
      using counted_mono [OF _ Un_upper1] req by auto
  qed (use kept_basics [OF g k] stamp_advances [OF g k] req in auto)
qed

lemma unsent_fresh:
  assumes "good ns V a T r" and "nextPtr r \<le> p"
  shows "unsent (vote_requests r) p = {#}" "T p = {#}"
proof -
  have "\<forall>g\<in>set (vote_requests r). req_ptr g \<noteq> p"
    using assms by (auto simp: good_def)
  then have "filter (\<lambda>g. req_ptr g = p) (vote_requests r) = []" by (simp add: filter_empty_conv)
  then show "unsent (vote_requests r) p = {#}" by (simp add: unsent_def)
  show "T p = {#}" using assms by (auto simp: good_def)
qed

lemma counted_none: "counted ns V a pv 0 {#}"
  unfolding counted_def by (rule exI [of _ 0], rule exI [of _ "{}"]) simp

text \<open>A new candidate has no votes and no open requests.\<close>

lemma good_stands:
  assumes g: "good ns V a T r" and s: "stands r p b r0"
  shows "good ns V a T r0"
proof -
  have k: "kept r r0" and st: "store r0 = store r" and req: "vote_requests r0 = vote_requests r"
    and nl: "\<not> leads r0" and ptr: "nextPtr r \<le> p"
    and new: "candidacy r0 p = Some (b, 0, length (nodes r) div 2 + 1, nodes r)"
    and old: "\<And>q. q \<noteq> p \<Longrightarrow> candidacy r0 q = None \<or> candidacy r0 q = candidacy r q"
    using s by (auto simp: stands_def)
  show ?thesis
  proof (rule goodI)
    fix q pv v m ms
    assume c: "candidacy r0 q = Some (pv, v, m, ms)"
    show "m = length ns div 2 + 1 \<and> ms = ns \<and> counted ns V a pv v (unsent (vote_requests r0) q + T q)"
    proof (cases "q = p")
      case True
      then show ?thesis using c new req unsent_fresh [OF g ptr] goodD(2) [OF g] by (auto simp: counted_none)
    next
      case False
      then show ?thesis using c req old goodD(8) [OF g] by (metis option.distinct(1))
    qed
  qed (use kept_basics [OF g k] goodD(4) [OF g] st req nl in auto)
qed

lemma stands_open:
  assumes "good ns V a T r" and "stands r p b r0"
  shows "unsent (vote_requests r0) p + T p = {#}"
  using assms unsent_fresh [OF assms(1), of p] by (auto simp: stands_def)

lemma unsent_append: "unsent (xs @ ys) p = unsent xs p + unsent ys p"
  by (simp add: unsent_def)

lemma unsent_requests:
  "unsent (map (\<lambda>n. SendRequestVote p n t c i lt) ns) q = (if q = p then image_mset (\<lambda>n. (n, t)) (mset ns) else {#})"
  by (simp add: unsent_def filter_map o_def multiset.map_comp)

lemma counted_own:
  assumes "a \<in> set ns" "(a, t, a) \<in> V" "distinct ns"
  shows "counted ns V a False (Suc 0) (image_mset (\<lambda>n. (n, t)) (mset (peers a ns)))"
    and "counted ns V a False (Suc 0) {#}"
proof -
  have d: "distinct (peers a ns)" using assms(3) by (simp add: peers_def)
  have inj: "count (image_mset (\<lambda>n. (n, t)) (mset xs)) (b, t) = count (mset xs) b" for xs b
    by (induction xs) auto
  have "count (image_mset (\<lambda>n. (n, t)) (mset (peers a ns))) (b, t) = 1" if "b \<in> set (peers a ns)" for b
    using d that by (simp add: inj distinct_count_atmost_1)
  then show "counted ns V a False (Suc 0) (image_mset (\<lambda>n. (n, t)) (mset (peers a ns)))"
    unfolding counted_def using assms
    by (intro exI [of _ t] exI [of _ "{a}"]) (auto simp: peers_def)
  show "counted ns V a False (Suc 0) {#}"
    unfolding counted_def using assms by (intro exI [of _ t] exI [of _ "{a}"]) auto
qed

lemma good_campaign:
  assumes g: "good ns V a T r" and c: "campaign p r r'" and cand: "candidacy r p = Some (False, 0, m, ms)"
    and none: "unsent (vote_requests r) p + T p = {#}" and a: "a \<in> set ns" "a \<noteq> []" and d: "distinct ns"
    and ptr: "p < nextPtr r"
  shows "good ns (V \<union> stamp r') a T r'"
proof -
  have k: "kept r r'" and q: "\<And>q. q \<noteq> p \<Longrightarrow> candidacy r' q = None \<or> candidacy r' q = candidacy r q"
    using c by (auto simp: campaign_def)
  have base: "nid r' = a" "nodes r' = ns" "on_disk r'" "nextPtr r \<le> nextPtr r'" "m = length ns div 2 + 1" "ms = ns"
    using kept_basics [OF g k] k goodD(8) [OF g cand] by (auto simp: kept_def)
  have votes: "\<forall>t v. (a, t, v) \<in> V \<union> stamp r' \<longrightarrow> v \<noteq> [] \<and> t \<le> currentTerm (store r')
           \<and> (t = currentTerm (store r') \<longrightarrow> votedFor (store r') = v)"
    using stamp_advances [OF g k] by blast
  have old: "m' = length ns div 2 + 1 \<and> ms' = ns \<and> counted ns (V \<union> stamp r') a pv v (unsent (vote_requests r) q + T q)"
    if "candidacy r q = Some (pv, v, m', ms')" for q pv v m' ms'
    using goodD(8) [OF g that] counted_mono [OF _ Un_upper1] by metis
  have ptrs: "\<forall>q. T q \<noteq> {#} \<longrightarrow> q < nextPtr r'" "\<forall>g\<in>set (vote_requests r). req_from g = a \<and> req_ptr g < nextPtr r'"
    using kept_basics [OF g k] by blast+
  consider (quiet) "vote_requests r' = vote_requests r" "\<not> leads r'" "candidacy r' p = None \<or> candidacy r' p = candidacy r p"
    | (run) i lt where "candidacy r' p = None \<or> candidacy r' p = Some (False, Suc 0, m, ms)"
        "votedFor (store r') = a" "leads r' \<longrightarrow> m \<le> Suc 0"
        "vote_requests r' = vote_requests r \<or> vote_requests r' = vote_requests r
            @ map (\<lambda>n. SendRequestVote p n (currentTerm (store r')) a i lt) (peers a ns)"
    using c cand goodD(1) [OF g] base(6) unfolding campaign_def by (elim conjE disjE exE) auto
  then show ?thesis
  proof cases
    case quiet
    then have "candidacy r' q = None \<or> candidacy r' q = candidacy r q" for q using q by (cases "q = p") auto
    then have "\<forall>q pv v m' ms'. candidacy r' q = Some (pv, v, m', ms') \<longrightarrow>
        m' = length ns div 2 + 1 \<and> ms' = ns \<and> counted ns (V \<union> stamp r') a pv v (unsent (vote_requests r') q + T q)"
      using old quiet(1) by (metis option.distinct(1))
    then have "candidacy r' q = Some (pv, v, m', ms') \<Longrightarrow> m' = length ns div 2 + 1 \<and> ms' = ns \<and>
        counted ns (V \<union> stamp r') a pv v (unsent (vote_requests r') q + T q)" for q pv v m' ms'
      by blast
    note fin = goodI [OF base(1-3) votes [rule_format] ptrs(2) [rule_format] ptrs(1) [rule_format] _ this]
    show ?thesis by (rule fin) (use quiet in auto)
  next
    case run
    have own: "(a, currentTerm (store r'), a) \<in> V \<union> stamp r'"
      using run(2) a(2) base(1) by (simp add: stamp_def)
    note co = counted_own [OF a(1) own d]
    have "leads r' \<longrightarrow> backed ns (V \<union> stamp r') (currentTerm (store r')) a"
    proof
      assume "leads r'"
      then have "majority_of ns {a}" using run(3) base(5) a(1) by (simp add: majority_of_def)
      then show "backed ns (V \<union> stamp r') (currentTerm (store r')) a" using own unfolding backed_def by blast
    qed
    moreover have "m' = length ns div 2 + 1 \<and> ms' = ns \<and>
        counted ns (V \<union> stamp r') a pv v (unsent (vote_requests r') x + T x)"
      if "candidacy r' x = Some (pv, v, m', ms')" for x pv v m' ms'
    proof (cases "x = p")
      case True
      have z: "unsent (vote_requests r) p = {#}" "T p = {#}" using none by auto
      have "unsent (vote_requests r') p + T p = {#}
          \<or> unsent (vote_requests r') p + T p = image_mset (\<lambda>n. (n, currentTerm (store r'))) (mset (peers a ns))"
        using run(4) z by (auto simp: unsent_append unsent_requests)
      then show ?thesis using co that True run(1) base(5,6) by auto
    next
      case False
      have "unsent (vote_requests r') x = unsent (vote_requests r) x"
        using run(4) False by (auto simp: unsent_append unsent_requests)
      then show ?thesis using old q [OF False] that by (metis option.distinct(1))
    qed
    moreover have "\<forall>g\<in>set (vote_requests r'). req_from g = a \<and> req_ptr g < nextPtr r'"
      using run(4) ptrs(2) ptr base(4) by auto
    ultimately show ?thesis
      by (intro goodI [OF base(1-3) votes [rule_format] _ ptrs(1) [rule_format]]) blast+
  qed
qed

lemma good_candidates:
  assumes g: "good ns V a T r" and c: "candidates r r'" and a: "a \<in> set ns" "a \<noteq> []" and d: "distinct ns"
  shows "good ns (V \<union> stamp r') a T r'"
  using c unfolding candidates_def
proof (elim disjE exE conjE)
  assume "frame r r'"
  with g show ?thesis by (rule good_frame)
next
  fix p r0
  assume "stands r p True r0" and "frame r0 r'"
  with good_stands [OF g] show ?thesis by (auto intro: good_frame)
next
  fix p r0
  assume s: "stands r p False r0" and c: "campaign p r0 r'"
  then show ?thesis
    using good_campaign [OF good_stands [OF g s] c _ stands_open [OF g s] a d] by (simp add: stands_def)
qed

lemma good_nominated:
  assumes g: "good ns V a T r" and n: "nominated p r r0" and c: "campaign p r0 r'"
    and a: "a \<in> set ns" "a \<noteq> []" and d: "distinct ns" and ptr: "p < nextPtr r"
  shows "good ns (V \<union> stamp r') a T r'"
proof -
  obtain v m ms where cand: "candidacy r p = Some (True, v, m, ms)" "candidacy r0 p = Some (False, v, m, ms)"
    using n by (auto simp: nominated_def)
  have k: "kept r r0" "store r0 = store r" "vote_requests r0 = vote_requests r" "\<not> leads r0"
    "\<And>q. q \<noteq> p \<Longrightarrow> candidacy r0 q = candidacy r q" using n by (auto simp: nominated_def)
  have v: "v = 0" "unsent (vote_requests r) p + T p = {#}" "m = length ns div 2 + 1" "ms = ns"
    using goodD(8) [OF g cand(1)] unfolding counted_def by blast+
  have "m' = length ns div 2 + 1 \<and> ms' = ns \<and> counted ns V a pv w (unsent (vote_requests r0) q + T q)"
    if "candidacy r0 q = Some (pv, w, m', ms')" for q pv w m' ms'
  proof (cases "q = p")
    case True
    then show ?thesis using that cand(2) v k(3) counted_none by auto
  next
    case False
    then show ?thesis using that goodD(8) [OF g] k(3,5) by metis
  qed
  then have "good ns V a T r0"
    using goodI [of r0 a ns V T] kept_basics [OF g k(1)] goodD(4) [OF g] k(2-4) by metis
  from good_campaign [OF this c _ _ a d] show ?thesis
    using cand(2) v k(1,3) ptr by (auto simp: kept_def)
qed

lemma good_drop_ticket:
  assumes "good ns V a T r" and "\<And>p. T' p \<subseteq># T p"
  shows "good ns V a T' r"
proof -
  have "counted ns V a pv v (unsent (vote_requests r) p + T' p)"
    if "counted ns V a pv v (unsent (vote_requests r) p + T p)" for pv v p
    using counted_subset [OF that] assms(2) by simp
  moreover have "T' p \<noteq> {#} \<Longrightarrow> T p \<noteq> {#}" for p using assms(2) [of p] by auto
  ultimately show ?thesis by (intro goodI) (use goodD [OF assms(1)] in blast)+
qed

text \<open>Counting the vote of \<open>b\<close>, whose answer is then no longer under way.\<close>

lemma good_tally:
  assumes g: "good ns V a T r" and t: "tally p r r'" and nl: "\<not> leads r"
    and b: "(b, currentTerm (store r)) \<in># T p" "(b, currentTerm (store r), a) \<in> V"
  shows "good ns (V \<union> stamp r') a (T(p := T p - {#(b, currentTerm (store r))#})) r'"
proof -
  let ?t = "currentTerm (store r)"
  let ?M = "unsent (vote_requests r) p + T p"
  obtain pv v m ms where cand: "candidacy r p = Some (pv, v, m, ms)"
    and cand': "candidacy r' p = None \<or> candidacy r' p = Some (pv, Suc v, m, ms)"
    and lead: "leads r' \<longrightarrow> m \<le> Suc v \<and> currentTerm (store r') = ?t"
    using t by (auto simp: tally_def)
  have k: "kept r r'" "vote_requests r' = vote_requests r"
    "\<And>q. q \<noteq> p \<Longrightarrow> candidacy r' q = None \<or> candidacy r' q = candidacy r q" using t by (auto simp: tally_def)
  have m: "m = length ns div 2 + 1" "ms = ns" "counted ns V a pv v ?M"
    using goodD(8) [OF g cand] by blast+
  have inM: "(b, ?t) \<in># ?M" using b(1) by simp
  obtain \<tau> Q where Q: "Q \<subseteq> set ns" "card Q = v" "\<forall>x\<in>Q. (x, \<tau>, a) \<in> V"
    and tk: "\<forall>k\<in>#?M. snd k = \<tau> \<and> fst k \<in> set ns \<and> fst k \<notin> Q \<and> count ?M k = 1"
    and z: "pv \<or> v = 0 \<longrightarrow> v = 0 \<and> ?M = {#}"
    by (rule countedE [OF m(3)])
  have bt: "?t = \<tau>" "b \<in> set ns" "b \<notin> Q" "count ?M (b, ?t) = 1" using tk inM by force+
  have Q': "insert b Q \<subseteq> set ns" "card (insert b Q) = Suc v" "\<forall>x\<in>insert b Q. (x, \<tau>, a) \<in> V \<union> stamp r'"
    using Q bt b(2) finite_subset [OF Q(1)] by auto
  have "\<forall>k\<in>#?M - {#(b, ?t)#}. snd k = \<tau> \<and> fst k \<in> set ns \<and> fst k \<notin> insert b Q \<and> count (?M - {#(b, ?t)#}) k = 1"
  proof
    fix k
    assume k: "k \<in># ?M - {#(b, ?t)#}"
    then have "k \<in># ?M" by (rule in_diffD)
    note old = bspec [OF tk this]
    have "k \<noteq> (b, ?t)" using k bt(4) by (auto simp: in_diff_count)
    with old bt(1) show "snd k = \<tau> \<and> fst k \<in> set ns \<and> fst k \<notin> insert b Q \<and> count (?M - {#(b, ?t)#}) k = 1"
      by (cases k) auto
  qed
  note rest = this
  have new: "counted ns (V \<union> stamp r') a pv (Suc v) (?M - {#(b, ?t)#})"
    unfolding counted_def
  proof (intro exI conjI impI)
    have "?M \<noteq> {#}" using inM by (metis empty_not_add_mset insert_DiffM)
    then show "Suc v = 0" "?M - {#(b, ?t)#} = {#}" if "pv \<or> Suc v = 0" using z that by simp_all
  qed (fact Q' rest)+
  have diff: "?M - {#(b, ?t)#} = unsent (vote_requests r') p + (T p - {#(b, ?t)#})"
    unfolding k(2) by (rule diff_union_single_conv [OF b(1)])
  have cands: "m' = length ns div 2 + 1 \<and> ms' = ns \<and> counted ns (V \<union> stamp r') a pv' v'
      (unsent (vote_requests r') q + (T(p := T p - {#(b, ?t)#})) q)"
    if "candidacy r' q = Some (pv', v', m', ms')" for q pv' v' m' ms'
  proof (cases "q = p")
    case True
    then have "pv' = pv" "v' = Suc v" "m' = m" "ms' = ms" using that cand' by auto
    then show ?thesis using True new [unfolded diff] m(1,2) by (simp only: fun_upd_same simp_thms)
  next
    case False
    then have "candidacy r q = Some (pv', v', m', ms')" using that k(3) [OF False] by simp
    from goodD(8) [OF g this] show ?thesis
      unfolding k(2) fun_upd_other [OF False] using counted_mono [OF _ Un_upper1] by blast
  qed
  have "backed ns (V \<union> stamp r') (currentTerm (store r')) a" if "leads r'"
  proof -
    have "majority_of ns (insert b Q)" using lead that Q'(1,2) m(1) by (simp add: majority_of_def)
    moreover have "currentTerm (store r') = \<tau>" using lead that bt(1) by simp
    ultimately show ?thesis unfolding backed_def using Q'(3) by blast
  qed
  moreover have "(T(p := T p - {#(b, ?t)#})) q \<noteq> {#} \<Longrightarrow> q < nextPtr r'" for q
    using kept_basics(5) [OF g k(1), of q] b(1) by (cases "q = p") force+
  moreover have "x \<in> set (vote_requests r') \<Longrightarrow> req_from x = a \<and> req_ptr x < nextPtr r'" for x
    unfolding k(2) by (rule kept_basics(4) [OF g k(1)])
  ultimately show ?thesis
    by (intro goodI [OF kept_basics(1-3) [OF g k(1)] stamp_advances [OF g k(1)] _ _ _ cands]) blast+
qed

end
