(* ===== verification/Applier.thy ===== *)
theory Applier
  imports Leader
begin

text \<open>
  The applier of \<^verbatim>\<open>internal/leader_role.go\<close> step by step. Its goroutine takes the mutex of the node
  only to remove the waiting proposals of an entry; everything else runs beside the steps of the
  other goroutines. \<open>applier_pc\<close> is where the goroutine stands, with its local variables, and
  \<open>applier_step\<close> is what it does between two points where another goroutine may run: an atomic load
  or store, one call of the state machine, of the session table or of the log, which lock
  themselves, one operation on a channel, or one locked section. \<open>leader_apply_entry\<close> in \<open>Leader\<close> is
  a run of these steps that nothing interrupts (\<open>leader_apply_entry_path\<close>).
\<close>

section \<open>Points of the goroutine\<close>

text \<open>
  The outer \<^verbatim>\<open>select\<close>, the two loads, the head of the loop (\<open>ci\<close> is the loaded commit index, then the
  index), the check for a duplicate, the call of the state machine, the record of the result, the
  locked section, the send to the next waiter, closing its channel, and the inner \<^verbatim>\<open>select\<close>. With no
  waiter left, \<open>Answering\<close> stores the applied index.
\<close>

datatype applier_pc =
    Selecting
  | Passing
  | Loaded u64
  | Looping u64 u64
  | Looking u64 u64 LogEntry
  | Applying u64 u64 LogEntry
  | Recording u64 u64 LogEntry any
  | Taking u64 u64 LogEntry any
  | Answering u64 u64 any "nat list"
  | Closing u64 u64 any nat "nat list"
  | Rechecking
  | Stopped

fun applier_micro :: "('l, 's) env \<Rightarrow> nat \<Rightarrow> bool \<Rightarrow> applier_pc \<Rightarrow> ('l, 's, applier_pc) step" where
  "applier_micro E p stops Selecting r = with_leader p (\<lambda>l r.
     if l_applierStopped l \<and> (stops \<or> \<not> l_applierCh l) then Ret r Stopped
     else if l_applierCh l then Ret (upd_leader p (\<lambda>l. l\<lparr>l_applierCh := False\<rparr>) r) Passing
     else Ret r Selecting) r"
| "applier_micro E p stops Passing r = Ret r (Loaded (commitIndex (store r)))"
| "applier_micro E p stops (Loaded ci) r =
     (if ci \<le> lastApplied (store r) then Ret r Rechecking else Ret r (Looping ci (lastApplied (store r) + 1)))"
| "applier_micro E p stops (Looping ci idx) r =
     (if idx \<le> ci
      then case gl_Read E (wal r) idx of
             None \<Rightarrow> Ret r Rechecking
           | Some raw \<Rightarrow> (case DeserializeLogEntry raw of
                           Inl e \<Rightarrow> Ret r Rechecking
                         | Inr logEntry \<Rightarrow> Ret r (Looking ci idx logEntry))
      else Ret r Rechecking)"
| "applier_micro E p stops (Looking ci idx e) r =
     (if Data e = [] then Ret r (Taking ci idx e AnyNil)
      else if ClientId e \<noteq> []
      then (case IsDuplicate (sessions r) (ClientId e) (SequenceNumber e) of
              (True, cached) \<Rightarrow> Ret r (Taking ci idx e cached)
            | (False, _) \<Rightarrow> Ret r (Applying ci idx e))
      else Ret r (Applying ci idx e))"
| "applier_micro E p stops (Applying ci idx e) r =
     bindO (run_machine E (Data e) r) (\<lambda>r result.
       Ret r (if ClientId e \<noteq> [] then Recording ci idx e result else Taking ci idx e result))"
| "applier_micro E p stops (Recording ci idx e result) r =
     Ret (r\<lparr>sessions := Record (sessions r) (ClientId e) (SequenceNumber e) result\<rparr>) (Taking ci idx e result)"
| "applier_micro E p stops (Taking ci idx e result) r = with_leader p (\<lambda>l r.
     let waiters = pending_at l idx in
     Ret (if waiters \<noteq> [] then upd_leader p (del_pending idx) r else r)
       (Answering ci idx (if result = AnyNil \<and> Data e \<noteq> [] then AnyStruct else result) waiters)) r"
| "applier_micro E p stops (Answering ci idx a []) r =
     Ret (upd_store (\<lambda>s. s\<lparr>lastApplied := idx\<rparr>) r) (Looping ci (idx + 1))"
| "applier_micro E p stops (Answering ci idx a (c # ws)) r =
     bindO (send_chan c a r) (\<lambda>r u. Ret r (Closing ci idx a c ws))"
| "applier_micro E p stops (Closing ci idx a c ws) r =
     bindO (close_chan c r) (\<lambda>r u. Ret r (Answering ci idx a ws))"
| "applier_micro E p stops Rechecking r = with_leader p (\<lambda>l r.
     if l_applierCh l then Ret (upd_leader p (\<lambda>l. l\<lparr>l_applierCh := False\<rparr>) r) Passing else Ret r Selecting) r"
| "applier_micro E p stops Stopped r = Ret r Stopped"

text \<open>A panic is recovered: the node is marked unhealthy and the goroutine ends.\<close>

definition applier_step :: "('l, 's) env \<Rightarrow> nat \<Rightarrow> bool \<Rightarrow> applier_pc \<Rightarrow> ('l, 's, applier_pc) step" where
  "applier_step E p stops pc r =
     (case applier_micro E p stops pc r of
        Panic r' \<Rightarrow> bindO (markUnhealthy r') (\<lambda>r u. Ret r Stopped)
      | m \<Rightarrow> m)"

text \<open>
  The channels a goroutine has taken from the waiting proposals and will close: on those marked
  \<open>True\<close> it will send first.
\<close>

fun held :: "applier_pc \<Rightarrow> (nat \<times> bool) list" where
  "held (Answering ci idx a ws) = map (\<lambda>c. (c, True)) ws"
| "held (Closing ci idx a c ws) = (c, False) # map (\<lambda>c. (c, True)) ws"
| "held _ = []"

section \<open>Runs that nothing interrupts\<close>

definition applier_next :: "('l, 's) env \<Rightarrow> nat \<Rightarrow> applier_pc \<times> ('l, 's) raft \<Rightarrow> applier_pc \<times> ('l, 's) raft \<Rightarrow> bool" where
  "applier_next E p x y \<longleftrightarrow> (\<exists>stops. applier_step E p stops (fst x) (snd x) = Ret (snd y) (fst y))"

abbreviation applier_path :: "('l, 's) env \<Rightarrow> nat \<Rightarrow> applier_pc \<times> ('l, 's) raft \<Rightarrow> applier_pc \<times> ('l, 's) raft \<Rightarrow> bool" where
  "applier_path E p \<equiv> (applier_next E p)\<^sup>*\<^sup>*"

lemma path_micro:
  assumes "applier_micro E p stops pc r = Ret r1 pc1" and "applier_path E p (pc1, r1) y"
  shows "applier_path E p (pc, r) y"
proof (rule converse_rtranclp_into_rtranclp [OF _ assms(2)])
  have "applier_step E p stops pc r = Ret r1 pc1" by (simp add: applier_step_def assms(1))
  then show "applier_next E p (pc, r) (pc1, r1)" unfolding applier_next_def by auto
qed

lemma path_last: "applier_micro E p stops pc r = Ret r1 pc1 \<Longrightarrow> applier_path E p (pc, r) (pc1, r1)"
  by (rule path_micro) auto

lemma run_machine_path:
  assumes "run_machine E (Data e) r = Ret r1 a"
  shows "ClientId e = [] \<Longrightarrow> applier_path E p (Applying ci idx e, r) (Taking ci idx e a, r1)"
    and "ClientId e \<noteq> [] \<Longrightarrow> applier_path E p (Applying ci idx e, r)
           (Taking ci idx e a, r1\<lparr>sessions := Record (sessions r1) (ClientId e) (SequenceNumber e) a\<rparr>)"
  by (rule path_last, simp add: assms) (rule path_micro, simp add: assms, rule path_last, simp)

lemma apply_command_path:
  assumes "apply_command E e r = Ret r1 a"
  shows "applier_path E p (Looking ci idx e, r) (Taking ci idx e a, r1)"
proof (cases "applier_micro E p False (Looking ci idx e) r = Ret r (Applying ci idx e)")
  case True
  then have run: "apply_command E e r = (if ClientId e \<noteq> []
      then bindO (run_machine E (Data e) r) (\<lambda>r result.
             Ret (r\<lparr>sessions := Record (sessions r) (ClientId e) (SequenceNumber e) result\<rparr>) result)
      else run_machine E (Data e) r)"
    by (auto simp: apply_command_def split: if_splits prod.splits bool.splits)
  have "applier_path E p (Applying ci idx e, r) (Taking ci idx e a, r1)"
  proof (cases "ClientId e = []")
    case none: True
    then have "run_machine E (Data e) r = Ret r1 a" using run assms by simp
    from run_machine_path(1) [of E e r, OF this none] show ?thesis .
  next
    case client: False
    then obtain r0 where r0: "run_machine E (Data e) r = Ret r0 a"
      "r1 = r0\<lparr>sessions := Record (sessions r0) (ClientId e) (SequenceNumber e) a\<rparr>"
    proof -
      have "bindO (run_machine E (Data e) r) (\<lambda>r result.
          Ret (r\<lparr>sessions := Record (sessions r) (ClientId e) (SequenceNumber e) result\<rparr>) result) = Ret r1 a"
        using run assms client by simp
      then show thesis by (cases "run_machine E (Data e) r") (auto intro: that)
    qed
    from run_machine_path(2) [of E e r, OF r0(1) client] show ?thesis by (simp add: r0(2))
  qed
  then show ?thesis by (rule path_micro [OF True])
next
  case False
  then show ?thesis
    by (intro path_last [where stops = False]) (use assms in \<open>auto simp: apply_command_def split: if_splits prod.splits bool.splits\<close>)
qed

lemma answer_waiters_path:
  "answer_waiters a ws r = Ret r1 () \<Longrightarrow> applier_path E p (Answering ci idx a ws, r) (Answering ci idx a [], r1)"
proof (induction ws arbitrary: r)
  case (Cons c ws)
  then obtain r2 r3 where s: "send_chan c a r = Ret r2 ()" "close_chan c r2 = Ret r3 ()" "answer_waiters a ws r3 = Ret r1 ()"
    by auto
  have send: "applier_micro E p False (Answering ci idx a (c # ws)) r = Ret r2 (Closing ci idx a c ws)"
    and close: "applier_micro E p False (Closing ci idx a c ws) r2 = Ret r3 (Answering ci idx a ws)"
    using s(1,2) by simp_all
  show ?case by (rule path_micro [OF send path_micro [OF close Cons.IH [OF s(3)]]])
qed simp

text \<open>One iteration of the loop is the step \<open>leader_apply_entry\<close>.\<close>

lemma leader_apply_entry_path:
  assumes "leader_apply_entry E p idx r = Ret r' continues" and "idx \<le> ci"
  shows "applier_path E p (Looping ci idx, r) (if continues then Looping ci (idx + 1) else Rechecking, r')"
proof (cases "\<exists>raw e. gl_Read E (wal r) idx = Some raw \<and> DeserializeLogEntry raw = Inr e")
  case False
  then show ?thesis
    using assms by (intro path_last [where stops = False]) (auto simp: leader_apply_entry_def split: option.splits sum.splits)
next
  case True
  then obtain raw e where e: "gl_Read E (wal r) idx = Some raw" "DeserializeLogEntry raw = Inr e" by blast
  obtain r1 a l r2 where run: "apply_command E e r = Ret r1 a" "heap r1 p = Some (Leader l)"
    "answer_waiters (if a = AnyNil \<and> Data e \<noteq> [] then AnyStruct else a) (pending_at l idx)
       (if pending_at l idx \<noteq> [] then upd_leader p (del_pending idx) r1 else r1) = Ret r2 ()"
    "r' = upd_store (\<lambda>s. s\<lparr>lastApplied := idx\<rparr>) r2" "continues"
  proof -
    obtain r1 a r2 where s: "apply_command E e r = Ret r1 a" "r' = upd_store (\<lambda>s. s\<lparr>lastApplied := idx\<rparr>) r2" "continues"
      "with_leader p (\<lambda>l r. let waiters = pending_at l idx;
          r1 = (if waiters \<noteq> [] then upd_leader p (del_pending idx) r else r);
          answer = (if a = AnyNil \<and> Data e \<noteq> [] then AnyStruct else a) in answer_waiters answer waiters r1) r1 = Ret r2 ()"
      using assms(1) e unfolding leader_apply_entry_def by auto
    from s(4) obtain l where l: "heap r1 p = Some (Leader l)" by (auto simp: with_leader_def split: option.splits role_obj.splits)
    show thesis by (rule that [OF s(1) l _ s(2,3)]) (use s(4) l in \<open>simp add: with_leader_def Let_def\<close>)
  qed
  have read: "applier_micro E p False (Looping ci idx) r = Ret r (Looking ci idx e)" using assms(2) e by simp
  have take_ws: "applier_micro E p False (Taking ci idx e a) r1 =
      Ret (if pending_at l idx \<noteq> [] then upd_leader p (del_pending idx) r1 else r1)
        (Answering ci idx (if a = AnyNil \<and> Data e \<noteq> [] then AnyStruct else a) (pending_at l idx))"
    using run(2) by (simp add: with_leader_def Let_def)
  have store_it: "applier_micro E p False (Answering ci idx b []) r2 = Ret r' (Looping ci (idx + 1))" for b
    by (simp add: run(4))
  have "applier_path E p (Looping ci idx, r) (Taking ci idx e a, r1)"
    by (rule path_micro [OF read apply_command_path [OF run(1)]])
  also have "applier_path E p (Taking ci idx e a, r1)
      (Answering ci idx (if a = AnyNil \<and> Data e \<noteq> [] then AnyStruct else a) [], r2)"
    by (rule path_micro [OF take_ws answer_waiters_path [OF run(3)]])
  also have "applier_path E p (Answering ci idx b [], r2) (Looping ci (idx + 1), r')" for b
    by (rule path_last [OF store_it])
  finally show ?thesis using run(5) by simp
qed

lemma unat_next: "a < b \<Longrightarrow> unat (a + 1) = Suc (unat a)" for a b :: u64
  using unsigned_less [of b, where ?'a = nat] by (simp add: unat_word_ariths word_less_nat_alt)

lemma leader_apply_loop_path:
  assumes "leader_apply_loop E p n idx r = Ret r' ()" and "unat idx + n = Suc (unat ci)" "ci \<noteq> - 1"
  shows "applier_path E p (Looping ci idx, r) (Rechecking, r')"
  using assms(1,2)
proof (induction n arbitrary: idx r)
  case 0
  then have "\<not> idx \<le> ci" by (simp add: word_le_nat_alt)
  then show ?case using 0 by (intro path_last [where stops = False]) simp
next
  case (Suc n)
  have le: "idx \<le> ci" using Suc.prems(2) by (simp add: word_le_nat_alt)
  then have "idx < - 1" using assms(3) word_order.not_eq_extremum [of ci] by simp
  then have next_idx: "unat (idx + 1) = Suc (unat idx)" by (rule unat_next)
  obtain r1 b where s: "leader_apply_entry E p idx r = Ret r1 b"
    "(if b then leader_apply_loop E p n (idx + 1) r1 else Ret r1 ()) = Ret r' ()"
    using Suc.prems(1) by auto
  note path = leader_apply_entry_path [OF s(1) le]
  show ?case
  proof (cases b)
    case True
    have "applier_path E p (Looping ci (idx + 1), r1) (Rechecking, r')"
      by (rule Suc.IH) (use s(2) True Suc.prems(2) next_idx in simp_all)
    with path True show ?thesis by (simp add: rtranclp_trans)
  qed (use path s(2) in simp)
qed

text \<open>A pass of the applier.\<close>

lemma leader_apply_path:
  assumes "applyToFiniteStateMachine_leader E p r = Ret r' ()" and "commitIndex (store r) \<noteq> - 1"
  shows "applier_path E p (Passing, r) (Rechecking, r')"
proof -
  let ?ci = "commitIndex (store r)" and ?la = "lastApplied (store r)"
  have load: "applier_micro E p False Passing r = Ret r (Loaded ?ci)" by simp
  have loop: "leader_apply_loop E p (unat ?ci - unat ?la) (?la + 1) r = Ret r' ()"
    using assms(1) by (simp add: applyToFiniteStateMachine_leader_def leader_apply_range_def)
  show ?thesis
  proof (cases "?ci \<le> ?la")
    case True
    then have "r' = r" using loop by (simp add: word_le_nat_alt)
    then show ?thesis
      by (intro path_micro [OF load] path_last [where stops = False]) (use True in simp)
  next
    case False
    have micro: "applier_micro E p False (Loaded ?ci) r = Ret r (Looping ?ci (?la + 1))" using False by simp
    have "unat (?la + 1) = Suc (unat ?la)" using False by (intro unat_next [of _ ?ci]) simp
    then have "applier_path E p (Looping ?ci (?la + 1), r) (Rechecking, r')"
      by (intro leader_apply_loop_path [OF loop _ assms(2)]) (use False in \<open>simp add: word_le_nat_alt\<close>)
    then show ?thesis by (intro path_micro [OF load path_micro [OF micro]])
  qed
qed

section \<open>What the steps keep\<close>

lemma micro_states:
  assumes refl: "P r" and upd: "\<And>g. P (upd_leader p g r)" and ses: "\<And>ss. P (r\<lparr>sessions := ss\<rparr>)"
    and fsm: "\<And>m. P (r\<lparr>fsm := m\<rparr>)" and applied: "\<And>i. P (upd_store (\<lambda>s. s\<lparr>lastApplied := i\<rparr>) r)"
    and cs: "\<And>cs. P (r\<lparr>chans := cs\<rparr>)"
  shows "on_states P (applier_micro E p stops pc r)"
  using assms
  by (cases "(E, p, stops, pc, r)" rule: applier_micro.cases)
    (auto simp: with_leader_def run_machine_def send_chan_def close_chan_def Let_def
      split: option.splits role_obj.splits outcome.splits sum.splits prod.splits bool.splits)

lemma frame_applier_step: "on_states (frame r) (applier_step E p stops pc r)"
proof -
  have micro: "on_states (frame r) (applier_micro E p stops pc r)" by (rule micro_states) simp_all
  have un: "on_states (frame r) (bindO (markUnhealthy r) (\<lambda>r u. Ret r Stopped))" for r :: "('a, 'b) raft"
    by (rule frame.bind [OF frame_markUnhealthy]) simp
  show ?thesis
    unfolding applier_step_def using on_states_dest [OF micro]
    by (auto split: outcome.splits intro: frame.via [OF _ un])
qed

end
