(* ===== verification/Cluster.thy ===== *)
theory Cluster
  imports Election Applier
begin

text \<open>
  A cluster of nodes and the safety of its elections. \<open>node_step\<close> is any step of one node: its
  methods, its timers, its applier, and its answers to the calls it made, with any arguments, so
  that messages may be lost, repeated, reordered or made up (\<open>local_step\<close> leaves out the two that
  take part in the replication of the log). The exception are the answers to vote
  requests, which carry what the voter answered to that request: \<open>cluster_step\<close> follows those
  from the candidate to the voter and back; \<open>any_step\<close> adds them with any arguments. The applier and
  the phases of a snapshot run beside the other steps, at any point of theirs and any number of
  them at once. Processes crash between steps and start again from their disk.
\<close>

section \<open>Steps of one node\<close>

definition ends :: "('r, 'a) outcome \<Rightarrow> 'r \<Rightarrow> bool" where
  "ends m r' \<longleftrightarrow> (\<exists>a. m = Ret r' a) \<or> m = Panic r'"

text \<open>A channel on which a proposal of some leader object waits.\<close>

definition pending_on :: "('l, 's) raft \<Rightarrow> nat \<Rightarrow> bool" where
  "pending_on r c \<longleftrightarrow> (\<exists>p l iw. heap r p = Some (Leader l) \<and> iw \<in> set (l_pending l) \<and> c \<in> set (snd iw))"

inductive local_step :: "('l, 's) env \<Rightarrow> ('l, 's) raft \<Rightarrow> ('l, 's) raft \<Rightarrow> bool" for E where
  tick: "room r \<Longrightarrow> ends (Tick E r) r' \<Longrightarrow> local_step E r r'"
| pre_vote: "ends (HandlePreVote E t c i lt r) r' \<Longrightarrow> local_step E r r'"
| request_vote: "ends (HandleRequestVote E t c i lt r) r' \<Longrightarrow> local_step E r r'"
| install_snapshot: "ends (HandleInstallSnapshot E t l i lt bs r) r' \<Longrightarrow> local_step E r r'"
| propose: "ends (HandlePropose E p bs cid sn ep r) r' \<Longrightarrow> local_step E r r'"
| propose_receive: "HandlePropose_receive ch r = Some (x, r') \<Longrightarrow> local_step E r r'"
| propose_cancel: "ends (HandlePropose_cancel p i ch r) r' \<Longrightarrow> local_step E r r'"
| apply_entry: "ends (leader_apply_entry E p idx r) r' \<Longrightarrow> local_step E r r'"
| applier: "ends (applier_round E p stops r) r' \<Longrightarrow> local_step E r r'"
| applier_at: "(\<And>c b. (c, b) \<in> set (held pc) \<Longrightarrow> \<not> pending_on r c) \<Longrightarrow>
     ends (applier_step E p stops pc r) r' \<Longrightarrow> local_step E r r'"
| snapshot_load: "r' = snd (sendInstallSnapshot_load p n r) \<Longrightarrow> local_step E r r'"
| snapshot_answer: "ends (InstallSnapshot_reply E p n snap t r) r' \<Longrightarrow> local_step E r r'"
| pre_vote_answer: "room r \<Longrightarrow> p < nextPtr r \<Longrightarrow> ends (PreVote_reply E p t reply r) r' \<Longrightarrow> local_step E r r'"
| take_snapshot: "r' = snd (TakeSnapshot E r) \<Longrightarrow> local_step E r r'"
| save_snapshot: "SaveSnapshot (snapshotPath r) snap (fdisk r) = (e, d) \<Longrightarrow> local_step E r (r\<lparr>fdisk := d\<rparr>)"
| finish_snapshot: "r' = TakeSnapshot_finish E snap r \<Longrightarrow> local_step E r r'"
| disable: "ends (Disable r) r' \<Longrightarrow> local_step E r r'"
| enable: "ends (Enable r) r' \<Longrightarrow> local_step E r r'"
| shutdown: "ends (Shutdown r) r' \<Longrightarrow> local_step E r r'"
| send_other: "\<not> is_vote_request g \<Longrightarrow> local_step E r (r\<lparr>spawned := remove1 g (spawned r)\<rparr>)"

inductive node_step :: "('l, 's) env \<Rightarrow> ('l, 's) raft \<Rightarrow> ('l, 's) raft \<Rightarrow> bool" for E where
  own: "local_step E r r' \<Longrightarrow> node_step E r r'"
| append_entries: "ends (HandleAppendEntries E t l pi pt es ci r) r' \<Longrightarrow> node_step E r r'"
| append_answer: "ends (AppendEntries_reply E p n t pi es reply r) r' \<Longrightarrow> node_step E r r'"

text \<open>The two together with the answers to vote requests.\<close>

inductive any_step :: "('l, 's) env \<Rightarrow> ('l, 's) raft \<Rightarrow> ('l, 's) raft \<Rightarrow> bool" for E where
  node: "node_step E r r' \<Longrightarrow> any_step E r r'"
| vote_answer: "ends (RequestVote_reply E p t reply r) r' \<Longrightarrow> any_step E r r'"

lemma ends_states: "ends m r' \<Longrightarrow> on_states P m \<Longrightarrow> P r'"
  by (auto simp: ends_def)

lemma frame_unspawn: "\<not> is_vote_request g \<Longrightarrow> frame r (r\<lparr>spawned := remove1 g (spawned r)\<rparr>)"
proof -
  assume "\<not> is_vote_request g"
  then have "filter is_vote_request (remove1 g gs) = filter is_vote_request gs" for gs
    by (induction gs) auto
  then show ?thesis
    by (auto simp: frame_def kept_def vote_requests_def candidacy_def leads_def role_kind_of_def on_disk_def
        snapshotPath_def split: option.splits)
qed

lemma frame_receive: "HandlePropose_receive ch r = Some (x, r') \<Longrightarrow> frame r r'"
  by (auto simp: HandlePropose_receive_def split: option.splits list.splits if_splits)

lemma local_step_effect:
  assumes "local_step E r r'"
  shows "candidates r r' \<or> (\<exists>p r0. p < nextPtr r \<and> nominated p r r0 \<and> campaign p r0 r')"
proof -
  have fr: "frame r r' \<Longrightarrow> ?thesis" by (simp add: candidates_def)
  show ?thesis
    using assms
  proof cases
    case tick
    then show ?thesis using ends_states [OF _ Tick_candidates] by blast
  next
    case (pre_vote_answer p t reply)
    then show ?thesis using ends_states [OF pre_vote_answer(3) PreVote_reply_effect [OF pre_vote_answer(1)]] fr by blast
  next
    case (save_snapshot snap e d)
    then show ?thesis using frame_SaveSnapshot fr by blast
  next
    case (send_other g)
    then show ?thesis using frame_unspawn fr by blast
  next
    case (propose_receive ch x)
    then show ?thesis using frame_receive fr by blast
  qed (rule fr, simp add: frame_snapshot_load frame_TakeSnapshot frame_TakeSnapshot_finish
        ends_states [OF _ frame_HandlePreVote]
        ends_states [OF _ frame_HandleRequestVote] ends_states [OF _ frame_HandleInstallSnapshot]
        ends_states [OF _ frame_HandlePropose] ends_states [OF _ frame_HandlePropose_cancel]
        ends_states [OF _ frame_leader_apply_entry] ends_states [OF _ frame_applier_round]
        ends_states [OF _ frame_applier_step]
        ends_states [OF _ frame_InstallSnapshot_reply]
        ends_states [OF _ frame_Disable] ends_states [OF _ frame_Enable] ends_states [OF _ frame_Shutdown])+
qed

lemma node_step_effect:
  assumes "node_step E r r'"
  shows "candidates r r' \<or> (\<exists>p r0. p < nextPtr r \<and> nominated p r r0 \<and> campaign p r0 r')"
  using assms
proof cases
  case own
  then show ?thesis by (rule local_step_effect)
qed (simp_all add: candidates_def ends_states [OF _ frame_HandleAppendEntries] ends_states [OF _ frame_AppendEntries_reply])

lemma node_step_good:
  assumes "good ns V a T r" and "node_step E r r'" and "a \<in> set ns" "a \<noteq> []" "distinct ns"
  shows "good ns (V \<union> stamp r') a T r'"
  using node_step_effect [OF assms(2)] good_candidates [OF assms(1) _ assms(3-5)]
    good_nominated [OF assms(1) _ _ assms(3-5)] by blast

text \<open>Every step keeps the term, the vote and the commit index from going back.\<close>

lemma candidates_kept: "candidates r r' \<Longrightarrow> kept r r'"
  unfolding candidates_def stands_def campaign_def using frame_kept kept_trans by blast

lemma node_step_kept: "node_step E r r' \<Longrightarrow> kept r r'"
  using node_step_effect candidates_kept kept_trans unfolding nominated_def campaign_def by blast

lemma kept_RequestVote_reply: "ends (RequestVote_reply E p t reply r) r' \<Longrightarrow> kept r r'"
  using ends_states [OF _ RequestVote_reply_effect] by (fastforce simp: frame_def tally_def)

lemma any_step_kept: "any_step E r r' \<Longrightarrow> kept r r'"
  by (erule any_step.cases) (auto intro: node_step_kept kept_RequestVote_reply)

section \<open>The cluster\<close>

text \<open>
  An open call of a candidate: the candidate, its role object, the voter, the term, and the answer
  that is under way.
\<close>

type_synonym vote_call = "gostring \<times> nat \<times> gostring \<times> u64 \<times> vote_reply"

record ('l, 's) cluster =
  cnode :: "gostring \<Rightarrow> ('l, 's) raft"
  up :: "gostring \<Rightarrow> bool"
  calls :: "vote_call list"

definition set_node :: "gostring \<Rightarrow> ('l, 's) raft \<Rightarrow> ('l, 's) cluster \<Rightarrow> ('l, 's) cluster" where
  "set_node a r c = c\<lparr>cnode := (cnode c)(a := r)\<rparr>"

text \<open>The process of a node starts: the log and the store are loaded and the node is built.\<close>

definition boot ::
  "('l, 's) env \<Rightarrow> rng \<Rightarrow> 's \<Rightarrow> ('l, 's) raft \<Rightarrow> (('l, 's) raft, nat) outcome option" where
  "boot E g machine r =
     (case NewStore (storeName (store r)) (fdisk r) of
        (Inl e, d) \<Rightarrow> None
      | (Inr s, d) \<Rightarrow> Some (NewRaft E g d (nid r) (dataDir r) (nodes r) (gl_Load E (wal r)) s machine (config r)))"

text \<open>\<open>S a\<close> are the steps that node \<open>a\<close> may take on its own.\<close>

inductive moves ::
  "(gostring \<Rightarrow> ('l, 's) raft \<Rightarrow> ('l, 's) raft \<Rightarrow> bool) \<Rightarrow> ('l, 's) env \<Rightarrow> gostring list
     \<Rightarrow> ('l, 's) cluster \<Rightarrow> ('l, 's) cluster \<Rightarrow> bool" for S E ns where
  local: "a \<in> set ns \<Longrightarrow> up c a \<Longrightarrow> S a (cnode c a) r' \<Longrightarrow> moves S E ns c (set_node a r' c)"
| ask: "a \<in> set ns \<Longrightarrow> b \<in> set ns \<Longrightarrow> a \<noteq> b \<Longrightarrow> up c a \<Longrightarrow> up c b \<Longrightarrow>
     SendRequestVote p b t me i lt \<in> set (spawned (cnode c a)) \<Longrightarrow>
     HandleRequestVote E t me i lt (cnode c b) = Ret r' (t', granted) \<Longrightarrow>
     moves S E ns c
       ((set_node b r' (set_node a ((cnode c a)\<lparr>spawned :=
            remove1 (SendRequestVote p b t me i lt) (spawned (cnode c a))\<rparr>) c))
          \<lparr>calls := (a, p, b, t, Transport_RequestVote t (Decoded \<lparr>rvr_Term = t', rvr_VoteGranted = granted\<rparr>)) # calls c\<rparr>)"
| unanswered: "a \<in> set ns \<Longrightarrow> up c a \<Longrightarrow> SendRequestVote p b t me i lt \<in> set (spawned (cnode c a)) \<Longrightarrow>
     moves S E ns c
       ((set_node a ((cnode c a)\<lparr>spawned :=
            remove1 (SendRequestVote p b t me i lt) (spawned (cnode c a))\<rparr>) c)
          \<lparr>calls := (a, p, b, t, Transport_RequestVote t DoError) # calls c\<rparr>)"
| lost: "(a, p, b, t, reply) \<in> set (calls c) \<Longrightarrow>
     moves S E ns c
       (c\<lparr>calls := (a, p, b, t, Transport_RequestVote t DoError) # remove1 (a, p, b, t, reply) (calls c)\<rparr>)"
| answer: "a \<in> set ns \<Longrightarrow> up c a \<Longrightarrow> (a, p, b, t, reply) \<in> set (calls c) \<Longrightarrow>
     ends (RequestVote_reply E p t reply (cnode c a)) r' \<Longrightarrow>
     moves S E ns c ((set_node a r' c)\<lparr>calls := remove1 (a, p, b, t, reply) (calls c)\<rparr>)"
| crash: "a \<in> set ns \<Longrightarrow>
     moves S E ns c
       (c\<lparr>up := (up c)(a := False), calls := filter (\<lambda>k. fst k \<noteq> a) (calls c)\<rparr>)"
| start: "a \<in> set ns \<Longrightarrow> \<not> up c a \<Longrightarrow> vote_ok (votedFor (store (cnode c a))) \<Longrightarrow>
     boot E g machine (cnode c a) = Some (Ret r' p) \<Longrightarrow>
     moves S E ns c ((set_node a r' c)\<lparr>up := (up c)(a := True)\<rparr>)"

abbreviation cluster_step ::
  "('l, 's) env \<Rightarrow> gostring list \<Rightarrow> ('l, 's) cluster \<Rightarrow> ('l, 's) cluster \<Rightarrow> bool" where
  "cluster_step E \<equiv> moves (\<lambda>a. node_step E) E"

text \<open>At first every process is down and has never run; its store's file may not exist.\<close>

definition fresh :: "gostring list \<Rightarrow> ('l, 's) cluster \<Rightarrow> bool" where
  "fresh ns c \<longleftrightarrow>
     calls c = []
     \<and> (\<forall>a\<in>set ns. \<not> up c a \<and> nid (cnode c a) = a \<and> nodes (cnode c a) = ns \<and> on_disk (cnode c a)
          \<and> heap (cnode c a) = (\<lambda>_. None) \<and> spawned (cnode c a) = [])"

definition stamps :: "gostring list \<Rightarrow> ('l, 's) cluster \<Rightarrow> votes" where
  "stamps ns c = (\<Union>a\<in>set ns. stamp (cnode c a))"

definition leaders :: "gostring list \<Rightarrow> ('l, 's) cluster \<Rightarrow> (u64 \<times> gostring) set" where
  "leaders ns c = {(currentTerm (store (cnode c a)), a) | a. a \<in> set ns \<and> leads (cnode c a)}"

text \<open>\<open>run E ns c V W\<close>: a run reaches \<open>c\<close>; \<open>V\<close> are the votes and \<open>W\<close> the leaderships on the way.\<close>

inductive run ::
  "('l, 's) env \<Rightarrow> gostring list \<Rightarrow> ('l, 's) cluster \<Rightarrow> votes \<Rightarrow> (u64 \<times> gostring) set \<Rightarrow> bool" for E ns where
  run_start: "fresh ns c \<Longrightarrow> run E ns c (stamps ns c) (leaders ns c)"
| run_step: "run E ns c V W \<Longrightarrow> cluster_step E ns c c' \<Longrightarrow>
     run E ns c' (V \<union> stamps ns c') (W \<union> leaders ns c')"


section \<open>The invariant of the cluster\<close>

definition open_calls :: "vote_call list \<Rightarrow> gostring \<Rightarrow> nat \<Rightarrow> tickets" where
  "open_calls ks a p = image_mset (\<lambda>(a, p, b, t, reply). (b, t)) (mset (filter (\<lambda>k. fst k = a \<and> fst (snd k) = p) ks))"

definition call_ok :: "votes \<Rightarrow> vote_call \<Rightarrow> bool" where
  "call_ok V k \<longleftrightarrow> (case k of (a, p, b, t, t', granted) \<Rightarrow> granted \<longrightarrow> (b, t', a) \<in> V)"

definition valid :: "gostring list \<Rightarrow> ('l, 's) cluster \<Rightarrow> votes \<Rightarrow> (u64 \<times> gostring) set \<Rightarrow> bool" where
  "valid ns c V W \<longleftrightarrow>
     (\<forall>a\<in>set ns. good ns V a (open_calls (calls c) a) (cnode c a))
     \<and> (\<forall>a t v w. (a, t, v) \<in> V \<longrightarrow> (a, t, w) \<in> V \<longrightarrow> v = w)
     \<and> (\<forall>a\<in>set ns. stamp (cnode c a) \<subseteq> V)
     \<and> (\<forall>k\<in>set (calls c). call_ok V k)
     \<and> (\<forall>(t, a)\<in>W. backed ns V t a)"

lemma validD:
  assumes "valid ns c V W"
  shows "a \<in> set ns \<Longrightarrow> good ns V a (open_calls (calls c) a) (cnode c a)"
    and "(a, t, v) \<in> V \<Longrightarrow> (a, t, w) \<in> V \<Longrightarrow> v = w"
    and "a \<in> set ns \<Longrightarrow> stamp (cnode c a) \<subseteq> V"
    and "k \<in> set (calls c) \<Longrightarrow> call_ok V k"
    and "(t, a) \<in> W \<Longrightarrow> backed ns V t a"
  using assms unfolding valid_def by blast+

lemma stamp_nid: "x \<in> stamp r \<Longrightarrow> fst x = nid r"
  by (auto simp: stamp_def split: if_splits)

text \<open>A cluster whose nodes are good after a change of node \<open>a\<close> is valid again.\<close>

lemma valid_change:
  assumes v: "valid ns c V W"
    and a: "a \<in> set ns" and others: "\<And>b. b \<noteq> a \<Longrightarrow> cnode c' b = cnode c b"
    and good: "good ns (V \<union> stamp (cnode c' a)) a (open_calls (calls c') a) (cnode c' a)"
    and tix: "\<And>b p. b \<noteq> a \<Longrightarrow> open_calls (calls c') b p \<subseteq># open_calls (calls c) b p"
    and oks: "\<And>k. k \<in> set (calls c') \<Longrightarrow> call_ok (V \<union> stamp (cnode c' a)) k"
  shows "valid ns c' (V \<union> stamps ns c') (W \<union> leaders ns c')"
proof -
  define V' where "V' = V \<union> stamp (cnode c' a)"
  have na: "nid (cnode c' a) = a" using goodD(1) [OF good] .
  have st: "stamp (cnode c' b) \<subseteq> V'" if "b \<in> set ns" for b
  proof (cases "b = a")
    case False
    then show ?thesis using validD(3) [OF v that] others [OF False] by (simp add: V'_def le_supI1)
  qed (simp add: V'_def)
  then have "stamps ns c' \<subseteq> V'" unfolding stamps_def by (rule UN_least)
  moreover have "stamp (cnode c' a) \<subseteq> stamps ns c'" using a unfolding stamps_def by (rule UN_upper)
  ultimately have V': "V \<union> stamps ns c' = V'" unfolding V'_def by blast
  have only: "(b, t, w) \<in> V' \<Longrightarrow> b \<noteq> a \<Longrightarrow> (b, t, w) \<in> V" for b t w
    unfolding V'_def using stamp_nid na by fastforce
  have g: "good ns V' b (open_calls (calls c') b) (cnode c' b)" if b: "b \<in> set ns" for b
  proof (cases "b = a")
    case True
    then show ?thesis using good by (simp add: V'_def)
  next
    case False
    have "good ns V b (open_calls (calls c') b) (cnode c' b)"
      using good_drop_ticket [OF validD(1) [OF v b] tix [OF False]] others [OF False] by simp
    then show ?thesis by (rule good_mono) (use only False in \<open>auto simp: V'_def\<close>)
  qed
  have fn: "w = x" if "(b, t, w) \<in> V'" "(b, t, x) \<in> V'" for b t w x
  proof (cases "b = a")
    case True
    have stampt: "t = currentTerm (store (cnode c' a))" if "(a, t, y) \<in> stamp (cnode c' a)" for y
      using that by (auto simp: stamp_def split: if_splits)
    show ?thesis
    proof (cases "t = currentTerm (store (cnode c' a))")
      case t: True
      have "votedFor (store (cnode c' a)) = w" "votedFor (store (cnode c' a)) = x"
        using goodD(4) [OF good [folded V'_def]] that True t by blast+
      then show ?thesis by simp
    next
      case False
      then have "(a, t, w) \<in> V" "(a, t, x) \<in> V" using that True stampt unfolding V'_def by blast+
      then show ?thesis using validD(2) [OF v] by blast
    qed
  next
    case False
    then show ?thesis using only that validD(2) [OF v] by blast
  qed
  have bk: "backed ns V' t b" if "(t, b) \<in> W \<union> leaders ns c'" for t b
    using that
  proof
    assume "(t, b) \<in> W"
    from validD(5) [OF v this] show ?thesis by (rule backed_mono) (simp add: V'_def)
  next
    assume "(t, b) \<in> leaders ns c'"
    then show ?thesis using goodD(7) [OF g] by (auto simp: leaders_def)
  qed
  show ?thesis
    unfolding valid_def V' using g fn st bk oks [folded V'_def] by auto
qed

section \<open>Every step keeps the invariant\<close>

lemma valid_fewer: "valid ns c V W \<Longrightarrow> W' \<subseteq> W \<Longrightarrow> valid ns c V W'"
  unfolding valid_def by blast

lemma absorbed: "valid ns c V W \<Longrightarrow> a \<in> set ns \<Longrightarrow> V \<union> stamp (cnode c a) = V"
  using validD(3) [of ns c V W a] by blast

lemma cnode_set [simp]:
  "cnode (set_node a r c) b = (if b = a then r else cnode c b)" "calls (set_node a r c) = calls c"
  "up (set_node a r c) = up c"
  by (simp_all add: set_node_def)

lemma open_calls_Cons:
  "open_calls ((a, p, b, t, reply) # ks) a' q =
     (if a' = a \<and> q = p then add_mset (b, t) (open_calls ks a' q) else open_calls ks a' q)"
  by (simp add: open_calls_def)

lemma open_calls_mset:
  "mset ks = mset ks' \<Longrightarrow> open_calls ks a q = open_calls ks' a q"
  by (simp add: open_calls_def)

lemma open_calls_remove1:
  assumes "(a, p, b, t, reply) \<in> set ks"
  shows "open_calls (remove1 (a, p, b, t, reply) ks) a' q =
     (if a' = a \<and> q = p then open_calls ks a' q - {#(b, t)#} else open_calls ks a' q)"
proof -
  have "open_calls ks a' q = open_calls ((a, p, b, t, reply) # remove1 (a, p, b, t, reply) ks) a' q"
    by (rule open_calls_mset) (use assms in simp)
  then show ?thesis by (auto simp: open_calls_Cons split: if_splits)
qed

lemma open_calls_member: "(a, p, b, t, reply) \<in> set ks \<Longrightarrow> (b, t) \<in># open_calls ks a p"
  unfolding open_calls_def in_image_mset by (rule image_eqI [where x = "(a, p, b, t, reply)"]) auto

lemma unsent_Cons:
  "unsent (SendRequestVote p b t me i lt # gs) q = (if q = p then add_mset (b, t) (unsent gs q) else unsent gs q)"
  by (simp add: unsent_def)

lemma unsent_remove1:
  assumes "g = SendRequestVote p b t me i lt" and "g \<in> set gs"
  shows "unsent gs q = (if q = p then add_mset (b, t) (unsent (remove1 g gs) q) else unsent (remove1 g gs) q)"
proof -
  have "mset xs = mset ys \<Longrightarrow> unsent xs q = unsent ys q" for xs ys by (simp add: unsent_def)
  from this [of gs "g # remove1 g gs"] have "unsent gs q = unsent (g # remove1 g gs) q" using assms(2) by simp
  then show ?thesis by (simp add: assms(1) unsent_Cons)
qed

lemma good_send:
  assumes g: "good ns V a T r" and q: "SendRequestVote p b t me i lt \<in> set (spawned r)"
  shows "me = a"
    and "good ns V a (T(p := add_mset (b, t) (T p)))
           (r\<lparr>spawned := remove1 (SendRequestVote p b t me i lt) (spawned r)\<rparr>)"
proof -
  let ?g = "SendRequestVote p b t me i lt"
  let ?r = "r\<lparr>spawned := remove1 ?g (spawned r)\<rparr>"
  have inr: "?g \<in> set (vote_requests r)" using q by (simp add: vote_requests_def)
  have ptr: "p < nextPtr r" and "req_from ?g = a" using goodD(5) [OF g inr] by auto
  then show "me = a" by simp
  have req: "vote_requests ?r = remove1 ?g (vote_requests r)"
    by (simp add: vote_requests_def filter_remove1)
  have same: "candidacy ?r x = candidacy r x" "leads ?r = leads r" "on_disk ?r = on_disk r" for x
    by (auto simp: candidacy_def leads_def role_kind_of_def on_disk_def snapshotPath_def split: option.splits)
  have m: "unsent (vote_requests ?r) x + (T(p := add_mset (b, t) (T p))) x = unsent (vote_requests r) x + T x" for x
    unfolding req unsent_remove1 [OF refl inr, of x] by simp
  show "good ns V a (T(p := add_mset (b, t) (T p))) ?r"
  proof (rule goodI)
    show "nid ?r = a" "nodes ?r = ns" "on_disk ?r" using goodD(1-3) [OF g] same by simp_all
    show "x \<in> set (vote_requests ?r) \<Longrightarrow> req_from x = a \<and> req_ptr x < nextPtr ?r" for x
      using goodD(5) [OF g, of x] set_remove1_subset [of ?g "vote_requests r"] unfolding req by auto
    show "(T(p := add_mset (b, t) (T p))) x \<noteq> {#} \<Longrightarrow> x < nextPtr ?r" for x
      using goodD(6) [OF g, of x] ptr by (cases "x = p") simp_all
    show "leads ?r \<Longrightarrow> backed ns V (currentTerm (store ?r)) a" using goodD(7) [OF g] same by simp
    show "candidacy ?r x = Some (pv, v, m, ms) \<Longrightarrow> m = length ns div 2 + 1 \<and> ms = ns \<and>
        counted ns V a pv v (unsent (vote_requests ?r) x + (T(p := add_mset (b, t) (T p))) x)" for x pv v m ms
      unfolding m same by (rule goodD(8) [OF g])
  qed (use goodD(4) [OF g] in auto)
qed

lemma valid_send:
  assumes v: "valid ns c V W" and a: "a \<in> set ns"
    and q: "SendRequestVote p b t me i lt \<in> set (spawned (cnode c a))"
  shows "valid ns ((set_node a ((cnode c a)\<lparr>spawned :=
            remove1 (SendRequestVote p b t me i lt) (spawned (cnode c a))\<rparr>) c)
          \<lparr>calls := (a, p, b, t, t, False) # calls c\<rparr>) V W"
    (is "valid ns ?c V W")
proof -
  have st: "stamp (cnode ?c x) = stamp (cnode c x)" for x by (simp add: stamp_def)
  have V: "V \<union> stamps ns ?c = V"
    unfolding stamps_def st using validD(3) [OF v] by blast
  have "open_calls (calls ?c) a = (open_calls (calls c) a)(p := add_mset (b, t) (open_calls (calls c) a p))"
    by (rule ext) (simp add: open_calls_Cons)
  then have "good ns V a (open_calls (calls ?c) a) (cnode ?c a)"
    using good_send(2) [OF validD(1) [OF v a] q] by simp
  moreover have "call_ok V k" if "k \<in> set (calls ?c)" for k
    using that validD(4) [OF v] by (auto simp: call_ok_def)
  ultimately have "valid ns ?c (V \<union> stamps ns ?c) (W \<union> leaders ns ?c)"
    unfolding st [symmetric] by (intro valid_change [OF v a]) (unfold st absorbed [OF v a], simp_all add: open_calls_Cons)
  then show ?thesis unfolding V by (rule valid_fewer) simp
qed

lemma valid_local:
  assumes v: "valid ns c V W" and a: "a \<in> set ns" and ns: "distinct ns" "[] \<notin> set ns"
    and s: "node_step E (cnode c a) r'"
  shows "valid ns (set_node a r' c) (V \<union> stamps ns (set_node a r' c)) (W \<union> leaders ns (set_node a r' c))"
proof (rule valid_change [OF v a])
  have "a \<noteq> []" using a ns(2) by blast
  then show "good ns (V \<union> stamp (cnode (set_node a r' c) a)) a (open_calls (calls (set_node a r' c)) a) (cnode (set_node a r' c) a)"
    using node_step_good [OF validD(1) [OF v a] s a _ ns(1)] by simp
  show "call_ok (V \<union> stamp (cnode (set_node a r' c) a)) k" if "k \<in> set (calls (set_node a r' c))" for k
    using that validD(4) [OF v] by (auto simp: call_ok_def)
qed simp_all

lemma valid_ask:
  assumes v: "valid ns c V W" and ab: "a \<in> set ns" "b \<in> set ns" "a \<noteq> b" and ns: "distinct ns" "[] \<notin> set ns"
    and q: "SendRequestVote p b t me i lt \<in> set (spawned (cnode c a))"
    and h: "HandleRequestVote E t me i lt (cnode c b) = Ret r' (t', granted)"
  shows "valid ns ((set_node b r' (set_node a ((cnode c a)\<lparr>spawned :=
            remove1 (SendRequestVote p b t me i lt) (spawned (cnode c a))\<rparr>) c))
          \<lparr>calls := (a, p, b, t, t', granted) # calls c\<rparr>)
      (V \<union> stamps ns ((set_node b r' (set_node a ((cnode c a)\<lparr>spawned :=
            remove1 (SendRequestVote p b t me i lt) (spawned (cnode c a))\<rparr>) c))
          \<lparr>calls := (a, p, b, t, t', granted) # calls c\<rparr>))
      (W \<union> leaders ns ((set_node b r' (set_node a ((cnode c a)\<lparr>spawned :=
            remove1 (SendRequestVote p b t me i lt) (spawned (cnode c a))\<rparr>) c))
          \<lparr>calls := (a, p, b, t, t', granted) # calls c\<rparr>))"
    (is "valid ns ?c _ _")
proof -
  let ?c1 = "(set_node a ((cnode c a)\<lparr>spawned :=
            remove1 (SendRequestVote p b t me i lt) (spawned (cnode c a))\<rparr>) c)\<lparr>calls := (a, p, b, t, t, False) # calls c\<rparr>"
  have v1: "valid ns ?c1 V W" by (rule valid_send [OF v ab(1) q])
  have nb: "cnode ?c1 b = cnode c b" using ab(3) by simp
  have me: "me = a" by (rule good_send(1) [OF validD(1) [OF v ab(1)] q])
  have f: "frame (cnode c b) r'" using frame_HandleRequestVote [of "cnode c b" E t me i lt] h by simp
  have t: "open_calls (calls ?c) x y = open_calls (calls ?c1) x y" for x y by (simp add: open_calls_Cons)
  have gb: "good ns (V \<union> stamp r') b (open_calls (calls ?c) b) r'"
  proof -
    have "open_calls (calls ?c) b = open_calls (calls ?c1) b" by (rule ext) (rule t)
    then show ?thesis using good_frame [OF _ f] validD(1) [OF v1 ab(2)] nb by simp
  qed
  have ok: "call_ok (V \<union> stamp r') k" if "k \<in> set (calls ?c)" for k
  proof (cases "k = (a, p, b, t, t', granted)")
    case True
    have "(b, t', a) \<in> stamp r'" if "granted"
    proof -
      have "t' = currentTerm (store r')" "votedFor (store r') = a"
        using HandleRequestVote_granted [of E t me i lt "cnode c b" r' t'] h that me by simp_all
      moreover have "nid r' = b" using goodD(1) [OF gb] .
      moreover have "a \<noteq> []" using ab(1) ns(2) by blast
      ultimately show ?thesis by (simp add: stamp_def)
    qed
    then show ?thesis using True by (simp add: call_ok_def)
  next
    case False
    then have "k \<in> set (calls c)" using that by simp
    from validD(4) [OF v this] show ?thesis by (auto simp: call_ok_def)
  qed
  show ?thesis
    by (rule valid_change [OF v1 ab(2)]) (use gb ok t ab(3) in auto)
qed

lemma valid_answer:
  assumes v: "valid ns c V W" and a: "a \<in> set ns"
    and k: "(a, p, b, t, reply) \<in> set (calls c)"
    and s: "ends (RequestVote_reply E p t reply (cnode c a)) r'"
  shows "valid ns ((set_node a r' c)\<lparr>calls := remove1 (a, p, b, t, reply) (calls c)\<rparr>)
      (V \<union> stamps ns ((set_node a r' c)\<lparr>calls := remove1 (a, p, b, t, reply) (calls c)\<rparr>))
      (W \<union> leaders ns ((set_node a r' c)\<lparr>calls := remove1 (a, p, b, t, reply) (calls c)\<rparr>))"
    (is "valid ns ?c _ _")
proof -
  let ?T = "open_calls (calls c) a"
  have g: "good ns V a ?T (cnode c a)" by (rule validD(1) [OF v a])
  have T: "open_calls (calls ?c) a = ?T(p := ?T p - {#(b, t)#})"
    by (rule ext) (simp add: open_calls_remove1 [OF k])
  have tix: "open_calls (calls ?c) x y \<subseteq># open_calls (calls c) x y" for x y
    by (simp add: open_calls_remove1 [OF k])
  have "good ns (V \<union> stamp r') a (open_calls (calls ?c) a) r'"
    using ends_states [OF s RequestVote_reply_effect]
  proof (elim disjE conjE)
    assume "frame (cnode c a) r'"
    from good_frame [OF g this] show ?thesis by (rule good_drop_ticket) (rule tix)
  next
    assume r: "reply = (t, True)" and ct: "currentTerm (store (cnode c a)) = t" and nl: "\<not> leads (cnode c a)"
      and ta: "tally p (cnode c a) r'"
    have "(b, t, a) \<in> V" using validD(4) [OF v k] r by (simp add: call_ok_def)
    then show ?thesis
      unfolding T using good_tally [OF g ta nl, of b] open_calls_member [OF k] ct by simp
  qed
  moreover have "call_ok (V \<union> stamp r') x" if "x \<in> set (calls ?c)" for x
    using that validD(4) [OF v, of x] set_remove1_subset [of "(a, p, b, t, reply)" "calls c"]
    by (auto simp: call_ok_def)
  ultimately show ?thesis
    by (intro valid_change [OF v a]) (use tix in auto)
qed

lemma valid_calls:
  assumes v: "valid ns c V W" and tix: "\<And>x y. open_calls ks x y \<subseteq># open_calls (calls c) x y"
    and oks: "\<And>k. k \<in> set ks \<Longrightarrow> call_ok V k"
  shows "valid ns (c\<lparr>up := u, calls := ks\<rparr>) V W"
  unfolding valid_def using good_drop_ticket [OF validD(1) [OF v] tix] validD(2,3,5) [OF v] oks by auto

lemma stamps_absorbed:
  assumes "valid ns c V W" and "cnode c' = cnode c"
  shows "valid ns c' V W \<Longrightarrow> valid ns c' (V \<union> stamps ns c') (W \<union> leaders ns c')"
proof -
  assume v: "valid ns c' V W"
  have "stamps ns c' \<subseteq> V" using validD(3) [OF v] unfolding stamps_def by blast
  then have V: "V \<union> stamps ns c' = V" by blast
  have "backed ns V t a" if "(t, a) \<in> leaders ns c'" for t a
    using that goodD(7) [OF validD(1) [OF v]] by (auto simp: leaders_def)
  then show ?thesis using v unfolding V valid_def by blast
qed

lemma valid_crash:
  assumes v: "valid ns c V W"
  shows "valid ns (c\<lparr>up := (up c)(a := False), calls := filter (\<lambda>k. fst k \<noteq> a) (calls c)\<rparr>) V W"
proof (rule valid_calls [OF v])
  show "open_calls (filter (\<lambda>k. fst k \<noteq> a) (calls c)) x y \<subseteq># open_calls (calls c) x y" for x y
    unfolding open_calls_def mset_filter [symmetric]
    by (intro image_mset_subseteq_mono) (auto intro!: mset_subset_eqI simp: count_filter_mset)
qed (use validD(4) [OF v] in auto)

lemma valid_lost:
  assumes v: "valid ns c V W" and k: "(a, p, b, t, reply) \<in> set (calls c)"
  shows "valid ns (c\<lparr>calls := (a, p, b, t, t, False) # remove1 (a, p, b, t, reply) (calls c)\<rparr>) V W"
proof -
  let ?ks = "(a, p, b, t, t, False) # remove1 (a, p, b, t, reply) (calls c)"
  have "open_calls ?ks x y = open_calls (calls c) x y" for x y
    using open_calls_member [OF k] by (simp add: open_calls_Cons open_calls_remove1 [OF k])
  moreover have "call_ok V x" if "x \<in> set ?ks" for x
    using that validD(4) [OF v, of x] set_remove1_subset [of "(a, p, b, t, reply)" "calls c"]
    by (auto simp: call_ok_def)
  ultimately have "valid ns (c\<lparr>up := up c, calls := ?ks\<rparr>) V W" by (intro valid_calls [OF v]) simp_all
  then show ?thesis by simp
qed

text \<open>A process that starts again has the term and the vote it had.\<close>

lemma boot_frame:
  assumes od: "on_disk r" and vote: "vote_ok (votedFor (store r))" and b: "boot E gen machine r = Some (Ret r' p)"
  obtains r0 where "frame r0 r'" "heap r0 = (\<lambda>_. None)" "role r0 = None" "spawned r0 = []" "nid r0 = nid r"
    "nodes r0 = nodes r" "on_disk r0" "currentTerm (store r0) = currentTerm (store r)"
    "votedFor (store r0) = votedFor (store r)"
proof -
  obtain s d where st: "NewStore (storeName (store r)) (fdisk r) = (Inr s, d)"
    and new: "NewRaft E gen d (nid r) (dataDir r) (nodes r) (gl_Load E (wal r)) s machine (config r) = Ret r' p"
    using b by (auto simp: boot_def split: prod.splits sum.splits)
  note rd = NewStore_reads [OF st]
  have tv: "currentTerm s = currentTerm (store r)" "votedFor s = votedFor (store r)"
    using od rd(3) rd(4) [OF _ _ vote] unfolding on_disk_def persisted_def by force+
  define r0 where "r0 = \<lparr>config = config r, dataDir = dataDir r, enabled = True, fsm = machine, healthy = True,
      nid = nid r, wal = gl_Load E (wal r), nodes = nodes r, rgen = gen, role = None, roleEpoch = 0,
      snapshotIndex = 0, snapshotTerm = 0, sessions = NewSessionTable, store = s, shutdownClosed = False,
      heap = (\<lambda>_. None), nextPtr = 0, chans = (\<lambda>_. None), nextChan = 0, spawned = [], fdisk = d\<rparr>"
  have "on_disk r0"
    using od rd(1,2) tv by (auto simp: r0_def on_disk_def persisted_def snapshotPath_def)
  have rec: "frame r0 (recover_snapshot E r0)"
  proof -
    have rest: "frame r0 (upd_store (raise_to i) (r0\<lparr>fdisk := d', snapshotIndex := i, snapshotTerm := t, fsm := m\<rparr>))"
      if "frame r0 (r0\<lparr>fdisk := d'\<rparr>)" for d' i t m
      by (rule frame_trans [OF frame_trans [OF frame_trans [OF frame_trans [OF that frame_fields(8)] frame_fields(9)]
            frame_fields(4)] frame_upd_store(3)])
    show ?thesis
      unfolding recover_snapshot_def
      by (auto intro: frame_LoadSnapshot rest [OF frame_LoadSnapshot] split: prod.splits sum.splits)
  qed
  have "on_states (frame r0) (bindO (replay_log E (recover_snapshot E r0)) (\<lambda>r u. becomeFollower 0 r))"
    by (rule frame.via [OF rec], rule frame.bind)
      (auto simp: replay_log_def Let_def intro: frame_apply_loop frame_becomeFollower)
  then have "frame r0 r'" using new unfolding NewRaft_def Let_def r0_def [symmetric] by simp
  with \<open>on_disk r0\<close> tv show ?thesis by (intro that [of r0]) (simp_all add: r0_def)
qed

lemma boot_good:
  assumes g: "good ns V a T r" and "vote_ok (votedFor (store r))" and "boot E gen machine r = Some (Ret r' p)"
  shows "good ns (V \<union> stamp r') a (\<lambda>_. {#}) r'"
proof -
  obtain r0 where f: "frame r0 r'" and r0: "heap r0 = (\<lambda>_. None)" "role r0 = None" "spawned r0 = []" "nid r0 = nid r"
    "nodes r0 = nodes r" "on_disk r0" "currentTerm (store r0) = currentTerm (store r)"
    "votedFor (store r0) = votedFor (store r)"
    by (rule boot_frame [OF goodD(3) [OF g] assms(2,3)])
  have "good ns V a (\<lambda>_. {#}) r0"
    using goodD(1,2,4) [OF g] r0
    by (intro goodI) (auto simp: vote_requests_def leads_def role_kind_of_def candidacy_def)
  then show ?thesis by (rule good_frame [OF _ f])
qed

lemma valid_start:
  assumes v: "valid ns c V W" and a: "a \<in> set ns" and vote: "vote_ok (votedFor (store (cnode c a)))"
    and b: "boot E gen machine (cnode c a) = Some (Ret r' p)" and none: "\<forall>k\<in>set (calls c). fst k \<noteq> a"
  shows "valid ns ((set_node a r' c)\<lparr>up := u\<rparr>)
      (V \<union> stamps ns ((set_node a r' c)\<lparr>up := u\<rparr>)) (W \<union> leaders ns ((set_node a r' c)\<lparr>up := u\<rparr>))"
proof (rule valid_change [OF v a])
  have "open_calls (calls c) a = (\<lambda>_. {#})"
    using none by (auto simp: open_calls_def filter_empty_conv)
  then show "good ns (V \<union> stamp (cnode ((set_node a r' c)\<lparr>up := u\<rparr>) a)) a
      (open_calls (calls ((set_node a r' c)\<lparr>up := u\<rparr>)) a) (cnode ((set_node a r' c)\<lparr>up := u\<rparr>) a)"
    using boot_good [OF validD(1) [OF v a] vote b] by simp
  show "call_ok (V \<union> stamp (cnode ((set_node a r' c)\<lparr>up := u\<rparr>) a)) k"
    if "k \<in> set (calls ((set_node a r' c)\<lparr>up := u\<rparr>))" for k
    using that validD(4) [OF v] by (auto simp: call_ok_def)
qed simp_all

lemma valid_fresh:
  assumes "fresh ns c"
  shows "valid ns c (stamps ns c) (leaders ns c)"
proof -
  have n: "\<And>a. a \<in> set ns \<Longrightarrow> nid (cnode c a) = a \<and> nodes (cnode c a) = ns \<and> on_disk (cnode c a)
      \<and> heap (cnode c a) = (\<lambda>_. None) \<and> spawned (cnode c a) = []" and k: "calls c = []"
    using assms by (auto simp: fresh_def)
  have nl: "\<not> leads (cnode c a)" "candidacy (cnode c a) p = None" "vote_requests (cnode c a) = []" if "a \<in> set ns" for a p
    using n [OF that] by (auto simp: leads_def role_kind_of_def candidacy_def vote_requests_def split: option.splits)
  have st: "t = currentTerm (store (cnode c a)) \<and> v = votedFor (store (cnode c a)) \<and> v \<noteq> []"
    if "(a, t, v) \<in> stamps ns c" "a \<in> set ns" for a t v
    using that n by (auto simp: stamps_def stamp_def split: if_splits)
  have mem: "a \<in> set ns" if "(a, t, v) \<in> stamps ns c" for a t v
    using that n by (auto simp: stamps_def stamp_def split: if_splits)
  have "good ns (stamps ns c) a (open_calls (calls c) a) (cnode c a)" if "a \<in> set ns" for a
  proof (rule goodI)
    show "\<And>t v. (a, t, v) \<in> stamps ns c \<Longrightarrow> v \<noteq> [] \<and> t \<le> currentTerm (store (cnode c a))
       \<and> (t = currentTerm (store (cnode c a)) \<longrightarrow> votedFor (store (cnode c a)) = v)"
      using st that by blast
  qed (use n [OF that] nl [OF that] k in \<open>simp_all add: open_calls_def\<close>)
  moreover have "v = w" if "(a, t, v) \<in> stamps ns c" "(a, t, w) \<in> stamps ns c" for a t v w
    using st [OF that(1) mem [OF that(1)]] st [OF that(2) mem [OF that(1)]] by simp
  moreover have "leaders ns c = {}" using nl by (auto simp: leaders_def)
  ultimately show ?thesis unfolding valid_def using k by (auto simp: stamps_def)
qed

text \<open>The calls of a process that is down are gone.\<close>

definition calls_up :: "('l, 's) cluster \<Rightarrow> bool" where
  "calls_up c \<longleftrightarrow> (\<forall>k\<in>set (calls c). up c (fst k))"

lemma calls_up_step: "moves S E ns c c' \<Longrightarrow> calls_up c \<Longrightarrow> calls_up c'"
proof (induction rule: moves.induct)
  case (lost a p b t reply c)
  then show ?case using set_remove1_subset [of "(a, p, b, t, reply)" "calls c"] by (auto simp: calls_up_def)
next
  case (answer a c p b t reply r')
  then show ?case using set_remove1_subset [of "(a, p, b, t, reply)" "calls c"] by (auto simp: calls_up_def)
qed (auto simp: calls_up_def)

lemma cluster_step_valid:
  assumes "cluster_step E ns c c'" and v: "valid ns c V W" and u: "calls_up c" and ns: "distinct ns" "[] \<notin> set ns"
  shows "valid ns c' (V \<union> stamps ns c') (W \<union> leaders ns c')"
  using assms(1)
proof cases
  case (local a r')
  then show ?thesis using valid_local [OF v _ ns] by simp
next
  case (ask a b p t me i lt r' t' granted)
  then show ?thesis using valid_ask [OF v ask(2-4) ns ask(7,8)] by simp
next
  case (unanswered a p b t me i lt)
  then show ?thesis using valid_send [OF v unanswered(2,4)] by (simp add: stamps_absorbed [OF valid_send [OF v unanswered(2,4)] refl])
next
  case (lost a p b t reply)
  then show ?thesis using stamps_absorbed [OF v _ valid_lost [OF v lost(2)]] by simp
next
  case (answer a p b t reply r')
  then show ?thesis using valid_answer [OF v answer(2,4,5)] by simp
next
  case (crash a)
  then show ?thesis using stamps_absorbed [OF v _ valid_crash [OF v]] by simp
next
  case (start a g machine r' p)
  then have "\<forall>k\<in>set (calls c). fst k \<noteq> a" using u by (auto simp: calls_up_def)
  then show ?thesis using valid_start [OF v start(2,4,5)] start(1) by simp
qed

lemma run_valid:
  assumes "run E ns c V W" and "distinct ns" "[] \<notin> set ns"
  shows "valid ns c V W \<and> calls_up c"
  using assms(1)
proof (induction rule: run.induct)
  case (run_start c)
  then show ?case using valid_fresh by (auto simp: fresh_def calls_up_def)
next
  case (run_step c V W c')
  then show ?case using cluster_step_valid [OF _ _ _ assms(2,3)] calls_up_step by blast
qed

text \<open>Two majorities for the same term share a voter.\<close>

lemma unique_leader:
  assumes v: "valid ns c V W" and W: "(t, a) \<in> W" "(t, b) \<in> W"
  shows "a = b"
proof -
  obtain P Q where P: "majority_of ns P" "\<forall>n\<in>P. (n, t, a) \<in> V" and Q: "majority_of ns Q" "\<forall>n\<in>Q. (n, t, b) \<in> V"
    using validD(5) [OF v W(1)] validD(5) [OF v W(2)] by (auto simp: backed_def)
  show ?thesis
    by (rule majority.unique_choice [of "\<lambda>n c. (n, t, c) \<in> V", OF _ P Q]) (rule validD(2) [OF v])
qed

end
