(* ===== verification/Requests.thy ===== *)
theory Requests
  imports Replication Cluster
begin

text \<open>
  What each step of a node does to its log and which append requests it makes. Outside of
  snapshots there are three cases: the log stays and the new requests carry parts of it
  (\<open>sends\<close>), a leader appends one entry of its term (\<open>grows\<close>), or a follower accepts a request
  (\<open>accepts\<close>).
\<close>

section \<open>The part of a log in a request\<close>

definition plain :: "logview \<Rightarrow> bool" where
  "plain v \<longleftrightarrow> view_ok v \<and> fst v = 0"

definition part_of :: "logview \<Rightarrow> u64 \<Rightarrow> u64 \<Rightarrow> LogEntry list \<Rightarrow> bool" where
  "part_of v prev pt es \<longleftrightarrow>
     es = [] \<or> unat prev + length es \<le> last_of v
       \<and> (\<forall>k<length es. entry_of v (unat prev + 1 + k) = Some (Serialize (es ! k)))
       \<and> (prev = 0 \<or> term_at v (unat prev) = Some pt)"

lemma read_batch_part:
  assumes "golog_laws L view" and "view_ok (view l)" and "fst (view l) < i" "i \<le> 2 ^ 63"
  shows "(read_batch L l n (word_of_nat i) = [] \<or> i + length (read_batch L l n (word_of_nat i)) \<le> Suc (last_of (view l)))
     \<and> (\<forall>k<length (read_batch L l n (word_of_nat i)).
          entry_of (view l) (i + k) = Some (Serialize (read_batch L l n (word_of_nat i) ! k)))"
  using assms(3,4)
proof (induction n arbitrary: i)
  case (Suc n)
  have "unat (word_of_nat i :: u64) = i" using Suc.prems(2) by (simp add: unat_of_nat take_bit_nat_eq_self)
  then have rd: "gl_Read L l (word_of_nat i) = entry_of (view l) i"
    using golog_reads(2) [OF assms(1,2), of "word_of_nat i"] by simp
  show ?case
  proof (cases "i \<le> last_of (view l)")
    case True
    obtain bs e where e: "entry_of (view l) i = Some bs" "DeserializeLogEntry bs = Inr e"
      by (rule term_at_Some [OF assms(2) Suc.prems(1) True])
    have "Suc i \<le> 2 ^ 63" using True assms(2) by (simp add: view_ok_def)
    note ih = Suc.IH [OF _ this]
    have step: "read_batch L l (Suc n) (word_of_nat i) = e # read_batch L l n (word_of_nat (Suc i))"
      using e rd by (simp add: add.commute)
    have "entry_of (view l) (i + k) = Some (Serialize ((e # read_batch L l n (word_of_nat (Suc i))) ! k))"
      if "k < Suc (length (read_batch L l n (word_of_nat (Suc i))))" for k
      using that ih Suc.prems e Serialize_Deserialize [OF e(2)] by (cases k) auto
    then show ?thesis using ih Suc.prems True unfolding step by auto
  next
    case False
    then have "read_batch L l (Suc n) (word_of_nat i) = []" using rd by (simp add: entry_of_def)
    then show ?thesis by simp
  qed
qed simp

lemma append_request_part:
  assumes "golog_laws E view" and v: "plain (view (wal r))" and "snapshotIndex r = 0"
    and g: "append_request E p n t next r = SendAppendEntries p' n' t' leader prev pt es ci"
  shows "part_of (view (wal r)) prev pt es \<and> n' = n \<and> t' = t"
proof -
  have ok: "view_ok (view (wal r))" "fst (view (wal r)) = 0" using v by (simp_all add: plain_def)
  have eq: "prev = (if next > 0 then next - 1 else 0)" "pt = prev_term E r prev" "es = batch E r next" "n' = n" "t' = t"
    using g by (auto simp: append_request_def Let_def)
  have part: "part_of (view (wal r)) prev pt es" if ne: "es \<noteq> []"
  proof -
    have l: "fst (gl_GetLastIndex E (wal r)) = word_of_nat (last_of (view (wal r)))" "last_of (view (wal r)) < 2 ^ 63"
      using golog_reads(1) [OF assms(1) ok(1)] ok(1) by (simp_all add: view_ok_def)
    obtain k where b: "es = read_batch E (wal r) k next" and le: "unat next \<le> last_of (view (wal r))"
      using ne l by (auto simp: eq(3) batch_def Let_def word_le_nat_alt split: if_splits)
    have nz: "next \<noteq> 0"
    proof
      assume "next = 0"
      then have "gl_Read E (wal r) next = None" using golog_reads(2) [OF assms(1) ok(1)] by (simp add: entry_of_def)
      then show False using ne b by (cases k) simp_all
    qed
    then have prev: "unat next = Suc (unat prev)" using eq(1) by (simp add: unat_minus_one word_gt_0) (metis Suc_pred unat_gt_0)
    have "fst (view (wal r)) < unat next" "unat next \<le> 2 ^ 63" using ok(2) prev le l(2) by simp_all
    from read_batch_part [OF assms(1) ok(1) this, of k]
    have sl: "unat next + length es \<le> Suc (last_of (view (wal r)))"
      "\<forall>k<length es. entry_of (view (wal r)) (unat next + k) = Some (Serialize (es ! k))"
      using ne by (simp_all add: b)
    have "prev = 0 \<or> term_at (view (wal r)) (unat prev) = Some pt"
    proof (cases "prev = 0")
      case False
      then have in_log: "fst (view (wal r)) < unat prev" "unat prev \<le> last_of (view (wal r))"
        using ok(2) le prev by (simp_all add: unat_gt_0)
      obtain x where x: "term_at (view (wal r)) (unat prev) = Some x"
        by (rule term_at_Some [OF ok(1) in_log]) blast
      have lo: "log_ok view r" using ok assms(3) by (simp add: log_ok_def term_at_def entry_of_def)
      have "prev_term E r prev = x" by (rule prev_term_value [OF assms(1) lo x]) (use False in \<open>simp add: word_gt_0\<close>)
      then show ?thesis using x eq(2) by simp
    qed simp
    then show ?thesis using sl prev by (auto simp: part_of_def)
  qed
  then show ?thesis using eq(4,5) by (auto simp: part_of_def)
qed

section \<open>Steps that leave the log\<close>

text \<open>\<open>carries v T me g\<close>: an append request of \<open>me\<close> with a part of the log \<open>v\<close> and a term of \<open>T\<close>.\<close>

fun carries :: "logview \<Rightarrow> u64 set \<Rightarrow> gostring \<Rightarrow> goroutine \<Rightarrow> bool" where
  "carries v T me (SendAppendEntries p n t l prev pt es ci) \<longleftrightarrow> t \<in> T \<and> n \<noteq> me \<and> part_of v prev pt es"
| "carries v T me _ \<longleftrightarrow> True"

definition sends :: "('l \<Rightarrow> logview) \<Rightarrow> ('l, 's) env \<Rightarrow> u64 set \<Rightarrow> ('l, 's) raft \<Rightarrow> ('l, 's) raft \<Rightarrow> bool" where
  "sends view E T r r' \<longleftrightarrow>
     (snapshotIndex r' = 0 \<longrightarrow> snapshotIndex r = 0)
     \<and> (golog_laws E view \<longrightarrow> snapshotIndex r' = 0 \<longrightarrow> plain (view (wal r)) \<longrightarrow>
          view (wal r') = view (wal r) \<and> nid r' = nid r
          \<and> (\<forall>g\<in>set (spawned r'). g \<in> set (spawned r) \<or> carries (view (wal r)) T (nid r) g))"

lemma sends_trans: "sends view E T a b \<Longrightarrow> sends view E T b c \<Longrightarrow> sends view E T a c"
  unfolding sends_def by (auto; metis)

interpretation sends: step_preorder "sends view E T" for view E T
  by unfold_locales (simp add: sends_def, rule sends_trans)

lemma sends_same:
  "wal r' = wal r \<Longrightarrow> snapshotIndex r' = snapshotIndex r \<Longrightarrow> nid r' = nid r \<Longrightarrow> spawned r' = spawned r \<Longrightarrow> sends view E T r r'"
  by (simp add: sends_def)

lemma same_log_sends: "same_log r r' \<Longrightarrow> sends view E T r r'"
  by (auto simp: same_log_def intro: sends_same)

lemmas same_log_sendsI = on_states_mono [OF _ same_log_sends]

lemma carries_mono: "T \<subseteq> U \<Longrightarrow> carries v T me g \<Longrightarrow> carries v U me g"
  by (cases g) auto

lemma sends_mono: "T \<subseteq> U \<Longrightarrow> sends view E T r r' \<Longrightarrow> sends view E U r r'"
  unfolding sends_def using carries_mono [of T U] by blast

lemma sends_go:
  "(golog_laws E view \<Longrightarrow> snapshotIndex r = 0 \<Longrightarrow> plain (view (wal r)) \<Longrightarrow> carries (view (wal r)) T (nid r) g) \<Longrightarrow>
     sends view E T r (go g r)"
  by (auto simp: sends_def go_def)

lemma carries_append_request:
  "golog_laws E view \<Longrightarrow> plain (view (wal r)) \<Longrightarrow> snapshotIndex r = 0 \<Longrightarrow> n \<noteq> nid r \<Longrightarrow> t \<in> T \<Longrightarrow>
     carries (view (wal r)) T (nid r) (append_request E p n t next r)"
  using append_request_part [of E view r p n t "next"] by (cases "append_request E p n t next r") auto

lemma sends_upd: "sends view E T r (upd_leader p g r)"
  by (rule same_log_sends) simp

interpretation sends_leader: leader_preorder "sends view E T" E T for view E T
proof unfold_locales
  show "sends view E T r (upd_leader p g r)" for r p g by (rule sends_upd)
  show "sends view E T r (setCommitIndex E ci r)" for r ci
    by (rule sends_same) (simp_all add: setCommitIndex_def upd_store_def Let_def split: prod.splits)
  show "sends view E T r (go (SendInstallSnapshot p node t me) r)" for r p node t me
    by (rule sends_go) simp
  show "node \<noteq> nid r \<Longrightarrow> t \<in> T \<Longrightarrow> sends view E T r (go (append_request E p node t next r) r)" for r p node t "next"
    by (rule sends_go) (rule carries_append_request)
qed

section \<open>Steps that make no request\<close>

lemma same_log_OnExit: "on_states (same_log r) (OnExit p r)"
proof -
  have "on_states (same_log r) (stopApplier p r)" for p
    by (auto simp: stopApplier_def same_log.R_refl split: option.splits role_obj.splits)
  then show ?thesis
    by (auto simp: OnExit_def same_log.R_refl split: option.splits role_obj.splits
        intro: same_log.bind same_log_drain)
qed

lemma same_log_fields:
  "same_log r (r\<lparr>enabled := b\<rparr>)" "same_log r (r\<lparr>shutdownClosed := b\<rparr>)" "same_log r (r\<lparr>fdisk := d\<rparr>)"
  "same_log r (upd_store (\<lambda>s. s\<lparr>lastApplied := i\<rparr>) r)" "same_log r (upd_candidate p c r)"
  by (auto simp: same_log_def upd_store_def upd_candidate_def split: option.splits role_obj.splits)

lemma same_log_step_down: "on_states (same_log r) (bindO (becomeFollower t r) (\<lambda>r q. Ret r a))"
  by (rule same_log.bind [OF same_log_becomeFollower same_log.ret])

lemma same_log_switches:
  "on_states (same_log r) (Disable r)" "on_states (same_log r) (Enable r)" "on_states (same_log r) (Shutdown r)"
proof -
  have out: "on_states (same_log r) (bindO m (\<lambda>r. Ret (upd_store (SetLeaderId []) r)))"
    if "on_states (same_log r) m" for m :: "(('l, 's) raft, unit) outcome" and r :: "('l, 's) raft"
    by (rule same_log.bind [OF that]) simp
  show "on_states (same_log r) (Disable r)"
    unfolding Disable_def
    by (auto simp: same_log.R_refl same_log_fields intro!: out same_log.via [OF same_log_fields(1) same_log_OnExit]
        split: option.splits)
  show "on_states (same_log r) (Enable r)"
    unfolding Enable_def
    by (auto simp: same_log.R_refl same_log_fields intro!: same_log.bind [OF same_log_becomeFollower])
  have "same_log r (r\<lparr>shutdownClosed := True, enabled := False\<rparr>)" by (simp add: same_log_def)
  from out [OF same_log.via [OF this same_log_exit_role]] show "on_states (same_log r) (Shutdown r)"
    by (simp add: Shutdown_def Let_def same_log_fields)
qed

lemma same_log_SetVotedFor: "on_store (SetVotedFor v) r = (e, r') \<Longrightarrow> same_log r r'"
  by (auto simp: on_store_def SetVotedFor_def Let_def same_log_def split: prod.splits option.splits)

lemma same_log_decide_vote: "on_states (same_log r) (decide_vote E p c i lt r)"
proof -
  have "on_states (same_log r) (bindO (markUnhealthy r1) (\<lambda>r u. Ret r a))"
    "on_states (same_log r) (bindO (resetElectionTimer p r1) (\<lambda>r u. Ret r a))"
    if "on_store (SetVotedFor c) r = (e, r1)" for e r1 and a :: vote_reply
    by (rule same_log.via [OF same_log_SetVotedFor [OF that]],
        rule same_log.bind [OF same_log_markUnhealthy] same_log.bind [OF same_log_resetElectionTimer];
        simp add: same_log.R_refl)+
  then show ?thesis unfolding decide_vote_def Let_def by (auto simp: same_log.R_refl split: prod.splits option.splits)
qed

lemma same_log_Follower_RequestVote: "on_states (same_log r) (Follower_HandleRequestVote n E p t c i lt r)"
proof (induction n arbitrary: p r)
  case (Suc n)
  then show ?case
    by (auto simp: same_log.R_refl intro: same_log.bind [OF same_log_becomeFollower] same_log_decide_vote)
qed simp

lemma same_log_HandleRequestVote: "on_states (same_log r) (HandleRequestVote E t c i lt r)"
  unfolding HandleRequestVote_def Candidate_HandleRequestVote_def Leader_HandleRequestVote_def
  by (auto simp: same_log.R_refl intro!: on_role_states same_log_Follower_RequestVote
      same_log.bind [OF same_log_becomeFollower])

lemma same_log_HandlePreVote: "on_states (same_log r) (HandlePreVote E t c i lt r)"
  unfolding HandlePreVote_def Candidate_HandlePreVote_def Leader_HandlePreVote_def Follower_HandlePreVote_def
  by (auto simp: same_log.R_refl intro!: on_role_states)

lemma same_log_answer_waiters: "on_states (same_log r) (answer_waiters v cs r)"
proof (induction cs arbitrary: r)
  case (Cons c cs)
  have s: "on_states (same_log r) (send_chan c v r)" "on_states (same_log r) (close_chan c r)" for r :: "('l, 's) raft"
    by (auto simp: send_chan_def close_chan_def same_log.R_refl split: option.splits)
  show ?case by (simp, rule same_log.bind [OF s(1)], rule same_log.bind [OF s(2)], rule Cons.IH)
qed (simp add: same_log.R_refl)

lemma same_log_leader_apply_entry: "on_states (same_log r) (leader_apply_entry E p idx r)"
proof -
  have w: "on_states (same_log r) (with_leader p (\<lambda>l r. answer_waiters (a l) (pending_at l idx)
      (if pending_at l idx \<noteq> [] then upd_leader p (del_pending idx) r else r)) r)" for a and r :: "('l, 's) raft"
    by (rule with_leader_states)
      (auto simp: same_log.R_refl intro: same_log.via [OF same_log_upd(1) same_log_answer_waiters] same_log_answer_waiters)
  show ?thesis
    unfolding leader_apply_entry_def Let_def
    by (auto simp: same_log.R_refl same_log_fields intro!: same_log.bind [OF same_log_apply_command] same_log.bind [OF w]
        split: option.splits sum.splits)
qed

lemma same_log_leader_apply_loop: "on_states (same_log r) (leader_apply_loop E p n idx r)"
proof (induction n arbitrary: idx r)
  case (Suc n)
  then show ?case by (auto simp: same_log.R_refl intro: same_log.bind [OF same_log_leader_apply_entry])
qed (simp add: same_log.R_refl)

lemma same_log_applier_round: "on_states (same_log r) (applier_round E p stops r)"
proof -
  have un: "on_states (same_log r) (bindO (markUnhealthy r) (\<lambda>r u. Ret r False))" for r :: "('l, 's) raft"
    by (rule same_log.bind [OF same_log_markUnhealthy same_log.ret])
  have ap: "on_states (same_log r) (applyToFiniteStateMachine_leader E p (upd_leader p g r))" for g
    unfolding applyToFiniteStateMachine_leader_def case_prod_beta'
    by (rule same_log.via [OF same_log_upd(1) same_log_leader_apply_loop])
  note ret = on_states_dest(1) [OF ap] and panics = same_log.via [OF on_states_dest(2) [OF ap] un]
  show ?thesis
    unfolding applier_round_def
    by (rule with_leader_states) (auto simp: same_log.R_refl split: outcome.splits intro: ret panics)
qed

lemma same_log_applier_step: "on_states (same_log r) (applier_step E p stops pc r)"
proof -
  have micro: "on_states (same_log r) (applier_micro E p stops pc r)"
    by (rule micro_states) (simp_all add: same_log.R_refl same_log_fields same_log_upd, simp_all add: same_log_def)
  have un: "on_states (same_log r) (bindO (markUnhealthy r) (\<lambda>r u. Ret r Stopped))" for r :: "('a, 'b) raft"
    by (rule same_log.bind [OF same_log_markUnhealthy same_log.ret])
  show ?thesis
    unfolding applier_step_def using on_states_dest [OF micro]
    by (auto split: outcome.splits intro: same_log.via [OF _ un])
qed

lemma same_log_cancel: "on_states (same_log r) (HandlePropose_cancel p i ch r)"
  unfolding HandlePropose_cancel_def by (rule with_leader_states) (simp_all add: Let_def same_log.R_refl)

lemma same_log_receive: "HandlePropose_receive ch r = Some (x, r') \<Longrightarrow> same_log r r'"
  by (auto simp: HandlePropose_receive_def same_log.R_refl split: option.splits list.splits if_splits)

lemma same_log_snapshot_load: "same_log r (snd (sendInstallSnapshot_load p n r))"
  unfolding sendInstallSnapshot_load_def set_inflight_def
  by (auto simp: same_log_fields intro: same_log.R_trans [OF same_log_fields(3) same_log_upd(1)]
      split: prod.splits sum.splits)

section \<open>Steps of the leader\<close>

definition led :: "('l, 's) raft \<Rightarrow> u64 set" where
  "led r = (if leads r then {currentTerm (store r)} else {})"

lemma sends_Leader_Tick:
  assumes "leader_here p r"
  shows "on_states (sends view E (led r) r) (Leader_Tick E p r)"
proof -
  let ?r = "upd_leader p (\<lambda>l. l\<lparr>l_heartbeatTicks := l_heartbeatTicks l + 1, l_leaderTicks := l_leaderTicks l + 1\<rparr>) r"
  have T: "currentTerm (store r) \<in> led r" using assms by (auto simp: led_def leader_here_def leads_def role_kind_of_def)
  have st: "currentTerm (store ?r) = currentTerm (store r)"
    by (simp add: upd_leader_def split: option.splits role_obj.splits)
  have send: "on_states (sends view E (led r) ?r) (with_leader p (\<lambda>l r. if l_heartbeatTicks l \<ge> l_heartbeatDeadline l
      then sendAppendEntriesToAllNodes E p r else Ret r ()) ?r)"
    by (rule with_leader_states) (use T st in \<open>auto simp: sends.R_refl intro: sends_leader.send_all\<close>)
  show ?thesis
    unfolding Leader_Tick_def Let_def
    by (rule sends.via [OF sends_upd], rule sends.bind [OF send], rule with_leader_states)
      (auto simp: sends.R_refl intro: same_log_sendsI [OF same_log_step_down])
qed

lemma nid_upd_leader [simp]: "nid (upd_leader p g r) = nid r"
  by (simp add: upd_leader_def split: option.splits role_obj.splits)

lemma sends_recover: "on_states (sends view E T r) m \<Longrightarrow> on_states (sends view E T r) (recover_send p node m)"
  unfolding recover_send_def set_inflight_def
  by (cases m) (auto intro: sends_trans sends_upd)

lemma sends_AppendEntries_reply:
  assumes "n \<noteq> nid r"
  shows "on_states (sends view E {t} r) (AppendEntries_reply E p n t pi es reply r)"
proof -
  have adv: "on_states (sends view E {t} r) (bindO (tryToAdvanceCommitIndex E p r) (\<lambda>r u.
      with_leader p (\<lambda>l r. if l_nextIndex l n \<le> fst (gl_GetLastIndex E (wal r))
         then retrySendAppendEntriesToNode E p n t r else Ret r ()) r))" if "n \<noteq> nid r" for r t
  proof (rule sends.bind [OF sends_leader.tryAdvance], rule with_leader_states, goal_cases)
    case (2 r1 u l)
    have "frame r r1" using frame_tryAdvance [of r E p] 2(2) by simp
    then have "n \<noteq> nid r1" using that by (simp add: frame_def kept_def)
    then show ?case by (auto simp: sends.R_refl intro: sends_leader.retry)
  qed (rule sends.R_refl)
  have retreat: "on_states (sends view E {t} r) (with_leader p (\<lambda>l r. if 1 < l_nextIndex l n
      then retrySendAppendEntriesToNode E p n t (upd_leader p (g r) r) else Ret r ()) r)" if "n \<noteq> nid r" for g r t
    by (rule with_leader_states)
      (use that in \<open>auto simp: sends.R_refl intro: sends.via [OF sends_upd sends_leader.retry]\<close>)
  show ?thesis
    unfolding AppendEntries_reply_def Let_def case_prod_beta'
    by (rule sends_recover, rule sends.via [OF sends_upd [folded set_inflight_def]])
      (use assms in \<open>auto simp: set_inflight_def sends.R_refl intro: same_log_sendsI [OF same_log_step_down]
        sends.via [OF sends_upd adv] retreat\<close>)
qed

lemma sends_InstallSnapshot_reply: "on_states (sends view E T r) (InstallSnapshot_reply E p n snap t r)"
  unfolding InstallSnapshot_reply_def Let_def
  by (rule sends_recover, rule sends.via [OF sends_upd [folded set_inflight_def]])
    (auto simp: set_inflight_def sends.R_refl intro: same_log_sendsI [OF same_log_step_down]
      sends.via [OF sends_upd sends_leader.tryAdvance])

section \<open>A leader appends an entry\<close>

text \<open>\<open>leading\<close>: the role and the term stay.\<close>

definition leading :: "('l, 's) raft \<Rightarrow> ('l, 's) raft \<Rightarrow> bool" where
  "leading r r' \<longleftrightarrow> role_kind_of r' = role_kind_of r \<and> currentTerm (store r') = currentTerm (store r)"

interpretation leading: step_preorder leading
  by unfold_locales (simp_all add: leading_def)

lemma leading_upd: "leading r (upd_leader p g r)" "leading r (go x r)" "leading r (setCommitIndex E ci r)"
  by (auto simp: leading_def role_kind_of_def upd_leader_def go_def setCommitIndex_def upd_store_def Let_def
      split: option.splits role_obj.splits prod.splits)

interpretation leading_leader: leader_preorder leading E UNIV for E
  by unfold_locales (simp_all add: leading_upd)

definition grows :: "('l \<Rightarrow> logview) \<Rightarrow> ('l, 's) raft \<Rightarrow> ('l, 's) raft \<Rightarrow> bool" where
  "grows view r r' \<longleftrightarrow>
     leads r' \<and> nid r' = nid r \<and> snapshotIndex r = 0
     \<and> (\<exists>e. view (wal r') = (0, snd (view (wal r)) @ [Serialize e]) \<and> Term e = currentTerm (store r'))
     \<and> (\<forall>g\<in>set (spawned r').
          g \<in> set (spawned r) \<or> carries (view (wal r')) {currentTerm (store r')} (nid r) g)"

text \<open>\<open>replicates\<close>: the step leaves the log or appends one entry to it as a leader.\<close>

definition replicates :: "('l \<Rightarrow> logview) \<Rightarrow> ('l, 's) env \<Rightarrow> u64 set \<Rightarrow> ('l, 's) raft \<Rightarrow> ('l, 's) raft \<Rightarrow> bool" where
  "replicates view E T r r' \<longleftrightarrow>
     sends view E T r r'
     \<or> (golog_laws E view \<longrightarrow> snapshotIndex r' = 0 \<longrightarrow> plain (view (wal r)) \<longrightarrow> Suc (last_of (view (wal r))) < 2 ^ 63
          \<longrightarrow> grows view r r')"

lemma sends_replicates: "sends view E T r r' \<Longrightarrow> replicates view E T r r'"
  by (simp add: replicates_def)

lemma plain_snoc:
  assumes "plain v" and "Suc (last_of v) < 2 ^ 63"
  shows "plain (0, snd v @ [Serialize e])"
proof -
  have "8 \<le> length (Serialize e)" by (simp add: Serialize_def)
  then show ?thesis using assms by (auto simp: plain_def view_ok_def last_of_def)
qed

text \<open>The entry is written, the followers are sent it, and the node still leads.\<close>

lemma grows_after:
  assumes laws: "golog_laws E view" and v: "plain (view (wal r))" and roomy: "Suc (last_of (view (wal r))) < 2 ^ 63"
    and w: "view (wal r1) = (0, snd (view (wal r)) @ [Serialize e])" and e: "Term e = currentTerm (store r1)"
    and r1: "leads r1" "nid r1 = nid r" "snapshotIndex r1 = snapshotIndex r" "spawned r1 = spawned r"
    and s: "sends view E {currentTerm (store r1)} r1 r'" "leading r1 r'" and sn: "snapshotIndex r' = 0"
  shows "grows view r r'"
proof -
  have "plain (view (wal r1))" using plain_snoc [OF v roomy] w by simp
  then have *: "view (wal r') = view (wal r1)" "nid r' = nid r1" "snapshotIndex r1 = 0"
    "\<forall>g\<in>set (spawned r'). g \<in> set (spawned r1) \<or> carries (view (wal r1)) {currentTerm (store r1)} (nid r1) g"
    using s(1) laws sn by (simp_all add: sends_def)
  have "leads r'" "currentTerm (store r') = currentTerm (store r1)"
    using s(2) r1(1) by (simp_all add: leading_def leads_def)
  then show ?thesis unfolding grows_def using * w e r1 by auto
qed

lemma on_states_all: "(\<And>r. P r) \<Longrightarrow> on_states P m"
  by (cases m) auto

lemma on_states_conj: "on_states P m \<Longrightarrow> on_states Q m \<Longrightarrow> on_states (\<lambda>r. P r \<and> Q r) m"
  by (cases m) auto

lemma replicates_trivial:
  "\<not> (golog_laws E view \<and> plain (view (wal r)) \<and> Suc (last_of (view (wal r))) < 2 ^ 63) \<Longrightarrow> on_states (replicates view E T r) m"
  by (rule on_states_all) (auto simp: replicates_def)

lemma replicates_after:
  assumes "golog_laws E view" and "plain (view (wal r))" and "Suc (last_of (view (wal r))) < 2 ^ 63"
    and "view (wal r1) = (0, snd (view (wal r)) @ [Serialize e])" and "Term e = currentTerm (store r1)"
    and "leads r1" "nid r1 = nid r" "snapshotIndex r1 = snapshotIndex r" "spawned r1 = spawned r"
    and "on_states (sends view E {currentTerm (store r1)} r1) m" and "on_states (leading r1) m"
  shows "on_states (replicates view E T r) m"
proof (rule on_states_mono [OF on_states_conj [OF assms(10,11)]])
  fix r'
  assume "sends view E {currentTerm (store r1)} r1 r' \<and> leading r1 r'"
  then show "replicates view E T r r'"
    unfolding replicates_def using grows_after [OF assms(1-9), of r'] by blast
qed

text \<open>A step that left the log as it was, followed by one that replicates.\<close>

lemma replicates_via:
  assumes "same_log r r1" and "replicates view E T r1 r'"
  shows "replicates view E T r r'"
proof -
  have eq: "wal r1 = wal r" "nid r1 = nid r" "snapshotIndex r1 = snapshotIndex r" "spawned r1 = spawned r"
    using assms(1) by (simp_all add: same_log_def)
  have "grows view r1 r' = grows view r r'" by (simp add: grows_def eq)
  then show ?thesis
    using assms(2) sends_trans [OF same_log_sends [OF assms(1)]] unfolding replicates_def eq by auto
qed

lemma replicates_Leader_OnEnter:
  assumes "leads r"
  shows "on_states (replicates view E T r) (Leader_OnEnter E p t r)"
proof (cases "golog_laws E view \<and> plain (view (wal r)) \<and> Suc (last_of (view (wal r))) < 2 ^ 63")
  case True
  then have laws: "golog_laws E view" and v: "plain (view (wal r))" and roomy: "Suc (last_of (view (wal r))) < 2 ^ 63"
    by blast+
  define r2 where "r2 = upd_leader p (init_progress (nid r) (nodes r) (fst (gl_GetLastIndex E (wal r))))
     (upd_store (SetLeaderId (nid r)) r)"
  have s2: "same_log r r2" unfolding r2_def by (rule same_log.R_trans [OF same_log_upd(5) same_log_upd(1)])
  then have r2: "wal r2 = wal r" "nid r2 = nid r" "snapshotIndex r2 = snapshotIndex r" "spawned r2 = spawned r"
    by (simp_all add: same_log_def)
  have "leading r (upd_store (SetLeaderId (nid r)) r)"
    by (simp add: leading_def role_kind_of_def upd_store_def SetLeaderId_def split: option.splits)
  then have l2: "leading r r2" unfolding r2_def by (rule leading.R_trans [OF _ leading_upd(1)])
  have quit: "on_states (replicates view E T r) (bindO (becomeFollower t r1) (\<lambda>r q. Ret r ()))"
    if "sends view E T r r1" for r1
    by (rule on_states_mono [OF same_log_step_down]) (use that same_log_sends sends_trans in \<open>blast intro: sends_replicates\<close>)
  define e where "e = \<lparr>Data = [], Term = t, ClientId = [], SequenceNumber = 0\<rparr>"
  obtain o1 l' where wr: "gl_Write E (wal r) (Serialize e) = (o1, l')" by (cases "gl_Write E (wal r) (Serialize e)")
  have small: "last_of (view (wal r)) < 2 ^ 63" using roomy by simp
  note lv = golog_write [OF laws small wr]
  have fail: "sends view E T r (r2\<lparr>wal := l'\<rparr>)" if "o1 = None"
    using lv that r2 by (simp add: sends_def)
  define r3 where "r3 = r2\<lparr>wal := gl_Commit E l'\<rparr>"
  have ok: "on_states (replicates view E T r) (bindO (sendAppendEntriesToAllNodes E p r4) (\<lambda>r u.
        bindO (tryToAdvanceCommitIndex E p r) (\<lambda>r. Ret (go (RunApplier p) r))))"
    and idx: "snd (gl_GetLastIndex E (gl_Commit E l'))"
    if "o1 = Some i" "currentTerm (store r) = t" "r4 = upd_leader p h r3" for i r4 h
  proof -
    have vl: "view l' = (0, snd (view (wal r)) @ [Serialize e])" using lv that(1) v by (simp add: plain_def)
    then have lst: "last_of (view l') < 2 ^ 63" using roomy v by (simp add: last_of_def plain_def)
    then have vc: "view (gl_Commit E l') = view l'" using laws by (simp add: golog_laws_def)
    with lst show "snd (gl_GetLastIndex E (gl_Commit E l'))" using laws by (simp add: golog_laws_def)
    have w4: "view (wal r4) = (0, snd (view (wal r)) @ [Serialize e])" "nid r4 = nid r"
      "snapshotIndex r4 = snapshotIndex r" "spawned r4 = spawned r"
      using vl vc same_log_upd(1) [of r3 p h] r2 unfolding that(3) by (simp_all add: same_log_def r3_def)
    have "leading r2 r3" by (simp add: leading_def r3_def role_kind_of_def split: option.splits)
    then have l4: "leads r4" "currentTerm (store r4) = t"
      using leading.R_trans [OF l2 leading.R_trans [OF _ leading_upd(1)]] assms that(2,3)
      by (auto simp: leading_def leads_def)
    let ?m = "bindO (sendAppendEntriesToAllNodes E p r4) (\<lambda>r u. bindO (tryToAdvanceCommitIndex E p r) (\<lambda>r. Ret (go (RunApplier p) r)))"
    have "on_states (sends view E {t} r4) ?m"
      by (rule sends.bind [OF sends_leader.send_all], simp add: l4, rule sends.bind [OF sends_leader.tryAdvance])
        (simp add: sends_go)
    moreover have "on_states (leading r4) ?m"
      by (rule leading.bind [OF leading_leader.send_all [OF UNIV_I]], rule leading.bind [OF leading_leader.tryAdvance])
        (simp add: leading_upd)
    ultimately show "on_states (replicates view E T r) ?m"
      by (intro replicates_after [OF laws v roomy w4(1) _ l4(1) w4(2-4)]) (simp_all add: l4(2) e_def)
  qed
  have eq: "nid (upd_store (SetLeaderId i) r) = nid r" "nodes (upd_store (SetLeaderId i) r) = nodes r"
    "wal (upd_store (SetLeaderId i) r) = wal r" for i
    by (simp_all add: upd_store_def)
  note enter = Leader_OnEnter_def [of E p t r, unfolded Let_def eq, folded r2_def e_def, unfolded r2(1) wr]
  show ?thesis
  proof (cases "currentTerm (store r) = t")
    case False
    then show ?thesis using quit [OF sends.R_refl] by (simp add: enter)
  next
    case True
    show ?thesis
    proof (cases o1)
      case None
      then show ?thesis using quit [OF fail] True by (simp add: enter)
    next
      case (Some i)
      have "snd (gl_GetLastIndex E (wal r3))" using idx [OF Some True refl] by (simp add: r3_def)
      then have "Leader_OnEnter E p t r = (let r4 = upd_leader p (own_progress (nid r3) (fst (gl_GetLastIndex E (wal r3)))) r3 in
          bindO (sendAppendEntriesToAllNodes E p r4) (\<lambda>r u.
          bindO (tryToAdvanceCommitIndex E p r) (\<lambda>r. Ret (go (RunApplier p) r))))"
        using True Some by (simp add: enter r3_def Let_def case_prod_beta')
      then show ?thesis using ok [OF Some True refl] by (simp only: Let_def)
    qed
  qed
qed (rule replicates_trivial)

lemma replicates_viaS:
  "same_log r r1 \<Longrightarrow> on_states (replicates view E T r1) m \<Longrightarrow> on_states (replicates view E T r) m"
  using on_states_mono [OF _ replicates_via] .

lemma replicates_bind:
  assumes "on_states (same_log r) m" and "\<And>r1 a. same_log r r1 \<Longrightarrow> m = Ret r1 a \<Longrightarrow> on_states (replicates view E T r1) (f r1 a)"
  shows "on_states (replicates view E T r) (bindO m f)"
  using assms by (cases m) (auto intro: replicates_viaS sends_replicates same_log_sends)

lemma on_states_ret: "on_states P m \<Longrightarrow> on_states P (bindO m (\<lambda>r a. Ret r (h a)))"
  by (cases m) auto

lemma replicates_becomeLeader: "on_states (replicates view E T r) (becomeLeader E t r)"
  unfolding becomeLeader_def
proof (rule replicates_bind [OF same_log_exit_role], goal_cases)
  case (1 r1 u)
  define r2 where "r2 = (snd (alloc (Leader (NewLeaderRole (config r1))) (r1\<lparr>roleEpoch := roleEpoch r1 + 1\<rparr>)))
      \<lparr>role := Some (nextPtr r1)\<rparr>"
  have "same_log r1 r2" "leads r2" by (simp_all add: r2_def alloc_def same_log_def leads_def role_kind_of_def)
  then have "on_states (replicates view E T r1) (bindO (Leader_OnEnter E (nextPtr r1) t r2) (\<lambda>r u. Ret r (nextPtr r1)))"
    by (intro replicates_viaS [OF _ on_states_ret [OF replicates_Leader_OnEnter]])
  then show ?case by (simp add: r2_def alloc_def)
qed

lemma golog_write_commit:
  assumes "golog_laws L view" and "last_of (view l) < 2 ^ 63" and "gl_WriteCommit L l bs = (res, l')"
  shows "view l' = (if res = None then view l else (fst (view l), snd (view l) @ [bs]))"
proof -
  note laws = assms(1) [unfolded golog_laws_def, THEN spec, THEN mp, OF assms(2)]
  show ?thesis
    using laws [THEN conjunct2, THEN conjunct2, THEN conjunct2, THEN conjunct1, THEN spec, of bs] assms(3)
    by (cases res) simp_all
qed

lemma replicates_HandlePropose_begin: "on_states (replicates view E T r) (HandlePropose_begin E p bs cid sn ep r)"
  unfolding HandlePropose_begin_def
proof (rule with_leader_states, goal_cases)
  case 1
  show ?case by (simp add: replicates_def sends.R_refl)
next
  case (2 l)
  show ?case
  proof (cases "golog_laws E view \<and> plain (view (wal r)) \<and> Suc (last_of (view (wal r))) < 2 ^ 63 \<and> leads r")
    case True
    then have laws: "golog_laws E view" and v: "plain (view (wal r))" and roomy: "Suc (last_of (view (wal r))) < 2 ^ 63"
      and ld: "leads r" by blast+
    define e where "e = \<lparr>Data = bs, Term = currentTerm (store r), ClientId = cid, SequenceNumber = sn\<rparr>"
    obtain o1 l' where wr: "gl_WriteCommit E (wal r) (Serialize e) = (o1, l')" by (cases "gl_WriteCommit E (wal r) (Serialize e)")
    have small: "last_of (view (wal r)) < 2 ^ 63" using roomy by simp
    note lv = golog_write_commit [OF laws small wr]
    have wrote: "on_states (replicates view E T r) (bindO (sendAppendEntriesToAllNodes E p r2)
        (\<lambda>r u. Ret (upd_leader p (raise_own (nid r) i) r) (Waiting i ch)))"
      if "o1 = Some i" "r2 = upd_leader p h (snd (make_chan (r\<lparr>wal := l'\<rparr>)))" for i ch r2 h
    proof (rule replicates_after [OF laws v roomy, where e = e and ?r1.0 = r2])
      have s: "same_log (r\<lparr>wal := l'\<rparr>) r2"
        unfolding that(2) by (rule same_log.R_trans [OF _ same_log_upd(1)]) (simp add: make_chan_def same_log_def)
      then show "nid r2 = nid r" "snapshotIndex r2 = snapshotIndex r" "spawned r2 = spawned r"
        by (simp_all add: same_log_def)
      show "view (wal r2) = (0, snd (view (wal r)) @ [Serialize e])"
        using s lv that(1) v by (simp add: same_log_def plain_def)
      have "leading r (snd (make_chan (r\<lparr>wal := l'\<rparr>)))"
        by (simp add: leading_def make_chan_def role_kind_of_def split: option.splits)
      then have "leading r r2" unfolding that(2) by (rule leading.R_trans [OF _ leading_upd(1)])
      then show "leads r2" "Term e = currentTerm (store r2)" using ld by (simp_all add: leading_def leads_def e_def)
      show "on_states (sends view E {currentTerm (store r2)} r2) (bindO (sendAppendEntriesToAllNodes E p r2)
        (\<lambda>r u. Ret (upd_leader p (raise_own (nid r) i) r) (Waiting i ch)))"
        by (rule sends.bind [OF sends_leader.send_all]) (simp_all add: sends_upd)
      show "on_states (leading r2) (bindO (sendAppendEntriesToAllNodes E p r2)
        (\<lambda>r u. Ret (upd_leader p (raise_own (nid r) i) r) (Waiting i ch)))"
        by (rule leading.bind [OF leading_leader.send_all [OF UNIV_I]]) (simp add: leading_upd)
    qed
    have "sends view E T r (r\<lparr>wal := l'\<rparr>)" if "o1 = None" using lv that by (simp add: sends_def)
    then show ?thesis
      using wrote wr sends_replicates [OF sends.R_refl [of view E T r]]
      by (cases o1) (auto simp: Let_def e_def [symmetric] case_prod_beta' intro: sends_replicates)
  next
    case False
    have "role_kind_of r \<noteq> Some KLeader" if "\<not> leads r" using that by (simp add: leads_def)
    then show ?thesis
      using False replicates_trivial [of E view r] sends_replicates [OF sends.R_refl [of view E T r]] by auto
  qed
qed

lemma replicates_HandlePropose: "on_states (replicates view E T r) (HandlePropose E p bs cid sn ep r)"
  unfolding HandlePropose_def
  by (auto intro: on_states_ret [OF replicates_HandlePropose_begin] sends_replicates [OF sends.R_refl]
      split: option.splits role_obj.splits)

section \<open>Elections\<close>

lemma with_candidate_states:
  "P r \<Longrightarrow> (\<And>c. heap r p = Some (Candidate c) \<Longrightarrow> on_states P (g c r)) \<Longrightarrow> on_states P (with_candidate p g r)"
  by (auto simp: with_candidate_def split: option.splits role_obj.splits)

lemma with_follower_states:
  "P r \<Longrightarrow> (\<And>f. heap r p = Some (Follower f) \<Longrightarrow> on_states P (g f r)) \<Longrightarrow> on_states P (with_follower p g r)"
  by (auto simp: with_follower_def split: option.splits role_obj.splits)

lemma same_log_replicates: "same_log r r' \<Longrightarrow> replicates view E T r r'"
  by (intro sends_replicates same_log_sends)

lemmas replicates_refl = same_log_replicates [OF same_log.R_refl]

lemma replicates_go_all:
  "(\<And>g. g \<in> set gs \<Longrightarrow> carries v T (nid r) g \<and> v = view (wal r)) \<Longrightarrow> replicates view E T r (go_all gs r)"
  by (rule sends_replicates) (auto simp: sends_def go_all_eq)

lemma same_log_Increment: "on_store IncrementCurrentTerm r = (x, r') \<Longrightarrow> same_log r r'"
  by (auto simp: on_store_def IncrementCurrentTerm_def Let_def same_log_def split: prod.splits option.splits)

lemma replicates_startElection: "on_states (replicates view E T r) (startElection E p r)"
proof -
  obtain ct e r1 where inc: "on_store IncrementCurrentTerm r = ((ct, e), r1)" by (metis prod.exhaust)
  obtain e2 r2 where sv: "on_store (SetVotedFor (nid r1)) r1 = (e2, r2)" by (metis prod.exhaust)
  have s1: "same_log r r1" by (rule same_log_Increment [OF inc])
  have s2: "same_log r r2" by (rule same_log.R_trans [OF s1 same_log_SetVotedFor [OF sv]])
  note un = same_log.via [OF s1 same_log_markUnhealthy] same_log.via [OF s2 same_log_markUnhealthy]
  have "on_states (replicates view E T r) (with_candidate p (\<lambda>c r.
        if c_votes c \<ge> c_majority c then bindO (becomeLeader E ct r) (\<lambda>r q. Ret r ())
        else case getLastLogEntryIndexAndTerm E r of (li, lt) \<Rightarrow>
          Ret (go_all (map (\<lambda>n. SendRequestVote p n ct (nid r) li lt) (peers (nid r) (c_nodes c))) r) ())
        (upd_candidate p (\<lambda>c. c\<lparr>c_votes := c_votes c + 1\<rparr>) r2))"
    by (rule replicates_viaS [OF same_log.R_trans [OF s2 same_log_fields(5)]], rule with_candidate_states)
      (auto simp: replicates_refl intro!: on_states_ret replicates_becomeLeader replicates_go_all split: prod.splits)
  then show ?thesis
    using inc sv un by (cases e; cases e2) (auto simp: startElection_def intro: on_states_mono same_log_replicates)
qed

lemma replicates_startPreElection: "on_states (replicates view E T r) (startPreElection E p r)"
  unfolding startPreElection_def Let_def
  by (rule replicates_viaS [OF same_log_fields(5)], rule with_candidate_states)
    (auto simp: replicates_refl intro!: replicates_viaS [OF same_log_fields(5) replicates_startElection] replicates_go_all
      split: prod.splits)

lemma replicates_becomeCandidate: "on_states (replicates view E T r) (becomeCandidate E r)"
proof -
  have new: "on_states (same_log r) (NewCandidateRole (r\<lparr>roleEpoch := x\<rparr>))" for x and r :: "('l, 's) raft"
    by (auto simp: NewCandidateRole_def alloc_def same_log_def split: option.splits)
  have "on_states (replicates view E T r) (Candidate_OnEnter E p r)" for p r
    unfolding Candidate_OnEnter_def
    by (rule with_candidate_states) (auto simp: replicates_refl replicates_startPreElection replicates_startElection)
  note enter = on_states_ret [OF replicates_viaS [OF same_log_upd(6) this]]
  show ?thesis
    unfolding becomeCandidate_def
    by (rule replicates_bind [OF same_log_exit_role], rule replicates_bind [OF new]) (rule enter)
qed

lemma replicates_Tick: "on_states (replicates view E (led r) r) (Tick E r)"
proof -
  have f: "on_states (replicates view E T r) (Follower_Tick E p r)" for p T
    unfolding Follower_Tick_def
    by (rule replicates_viaS [OF same_log_upd(2)], rule with_follower_states)
      (auto simp: replicates_refl intro: on_states_ret replicates_becomeCandidate)
  have c: "on_states (replicates view E T r) (Candidate_Tick E p r)" for p T
    unfolding Candidate_Tick_def
    by (rule replicates_viaS [OF same_log_fields(5)], rule with_candidate_states)
      (auto simp: replicates_refl intro: on_states_ret replicates_becomeCandidate)
  have l: "on_states (replicates view E (led r) r) (Leader_Tick E p r)" if "leader_here p r" for p
    by (rule on_states_mono [OF sends_Leader_Tick [OF that]]) (rule sends_replicates)
  show ?thesis
    unfolding Tick_def by (auto simp: replicates_refl intro: on_role_states f c l)
qed

lemma on_states_recover_vote: "on_states P m \<Longrightarrow> on_states P (recover_vote m)"
  by (cases m) (auto simp: recover_vote_def)

lemma replicates_PreVote_reply: "on_states (replicates view E T r) (PreVote_reply E p t reply r)"
proof -
  have "on_states (replicates view E T r) (startElection E p (upd_candidate p g (upd_candidate p h r)))" for g h
    by (rule replicates_viaS [OF same_log.R_trans [OF same_log_fields(5) same_log_fields(5)] replicates_startElection])
  then show ?thesis
    unfolding PreVote_reply_def Let_def case_prod_beta'
    by (intro on_states_recover_vote)
      (auto simp: replicates_refl same_log.R_refl same_log_fields intro!: with_candidate_states same_log_replicates
        intro: on_states_mono [OF same_log_step_down same_log_replicates])
qed

lemma replicates_RequestVote_reply: "on_states (replicates view E T r) (RequestVote_reply E p t reply r)"
proof -
  have "on_states (replicates view E T r) (bindO (becomeLeader E t (upd_candidate p g r)) (\<lambda>r q. Ret r ()))" for g t
    by (rule on_states_ret, rule replicates_viaS [OF same_log_fields(5) replicates_becomeLeader])
  then show ?thesis
    unfolding RequestVote_reply_def Let_def case_prod_beta'
    by (intro on_states_recover_vote)
      (auto simp: replicates_refl same_log.R_refl same_log_fields intro!: with_candidate_states same_log_replicates
        intro: on_states_mono [OF same_log_step_down same_log_replicates])
qed

section \<open>A follower accepts a request\<close>

definition accepts ::
  "('l, 's) env \<Rightarrow> u64 \<Rightarrow> u64 \<Rightarrow> u64 \<Rightarrow> LogEntry list \<Rightarrow> ('l, 's) raft \<Rightarrow> ('l, 's) raft \<Rightarrow> bool" where
  "accepts E t prev pt es r r' \<longleftrightarrow>
     currentTerm (store r') = t
     \<and> prev \<le> fst (gl_GetLastIndex E (wal r)) \<and> fst (checkLogConsistency E r prev pt)
     \<and> wal r' = appendEntries E prev es (wal r)
     \<and> snapshotIndex r' = snapshotIndex r \<and> nid r' = nid r \<and> spawned r' = spawned r"

lemma calm_apply_command: "on_states (calm r) (apply_command E e r)"
  by (auto simp: apply_command_def run_machine_def Let_def calm_def split: outcome.splits prod.splits bool.splits)

lemma calm_apply: "on_states (calm r) (applyToFiniteStateMachine_follower E r)"
proof -
  have "on_states (calm r) (apply_loop E n i r)" for n i r
  proof (induction n arbitrary: i r)
    case (Suc n)
    have "calm r (upd_store (\<lambda>s. s\<lparr>lastApplied := i\<rparr>) r)" for r
      by (simp add: calm_def upd_store_def)
    then have "on_states (calm r) (bindO (apply_command E e r)
        (\<lambda>r a. apply_loop E n (i + 1) (upd_store (\<lambda>s. s\<lparr>lastApplied := i\<rparr>) r)))" for e
      by (intro calm.bind [OF calm_apply_command] calm.via [OF _ Suc.IH])
    then show ?case by (auto simp: calm.R_refl split: option.splits sum.splits)
  qed (simp add: calm.R_refl)
  then show ?thesis by (auto simp: applyToFiniteStateMachine_follower_def Let_def calm.R_refl)
qed

text \<open>The state after a call: the log is the same, or the request was accepted.\<close>

abbreviation follows ::
  "('l, 's) env \<Rightarrow> u64 \<Rightarrow> u64 \<Rightarrow> u64 \<Rightarrow> LogEntry list \<Rightarrow> ('l, 's) raft \<Rightarrow> ('l, 's) raft \<Rightarrow> bool" where
  "follows E t prev pt es r r' \<equiv> same_log r r' \<or> accepts E t prev pt es r r'"

lemma check_same_log: "same_log r r1 \<Longrightarrow> checkLogConsistency E r1 prev pt = checkLogConsistency E r prev pt"
  unfolding checkLogConsistency_def same_log_def by (elim conjE) (simp only:)

lemma follows_via: "same_log r r1 \<Longrightarrow> follows E t prev pt es r1 r' \<Longrightarrow> follows E t prev pt es r r'"
  using same_log.R_trans [of r r1 r'] check_same_log [of r r1 E prev pt]
  unfolding accepts_def same_log_def [of r r1] by auto

lemma accept_append_follows:
  assumes "currentTerm (store r) = t"
  shows "on_states (follows E t prev pt es r) (accept_append E p l prev pt es ci r)"
proof -
  have "on_states (follows E t prev pt es r) (bindO (applyToFiniteStateMachine_follower E (setCommitIndex E ci
      ((upd_store (SetLeaderId l) r1)\<lparr>wal := appendEntries E prev es (wal (upd_store (SetLeaderId l) r1))\<rparr>)))
      (\<lambda>r u. Ret r a))"
    if r1: "same_log r r1" "calm r r1" and c: "fst (checkLogConsistency E r1 prev pt)" "prev \<le> fst (gl_GetLastIndex E (wal r1))"
    for r1 and a :: append_reply
  proof -
    define r3 where "r3 = setCommitIndex E ci
      ((upd_store (SetLeaderId l) r1)\<lparr>wal := appendEntries E prev es (wal (upd_store (SetLeaderId l) r1))\<rparr>)"
    have "accepts E t prev pt es r r'" if "same_log r3 r'" "calm r3 r'" for r'
      using that r1 c check_same_log [OF r1(1), of E prev pt] assms
      unfolding r3_def accepts_def same_log_def calm_def setCommitIndex_def upd_store_def SetLeaderId_def
      by (auto simp: Let_def split: prod.splits if_splits)
    then show ?thesis
      unfolding r3_def [symmetric]
      by (intro on_states_ret on_states_mono [OF on_states_conj [OF same_log_apply calm_apply]]) blast
  qed
  note acc = this
  have timer: "on_states (\<lambda>r'. same_log r r' \<and> calm r r') (resetElectionTimer p r)"
    using same_log_resetElectionTimer [of r p]
    by (auto simp: resetElectionTimer_def calm_def upd_follower_def split: option.splits role_obj.splits)
  show ?thesis
    unfolding accept_append_def Let_def
    by (rule on_states_bindO [OF timer]) (auto intro: acc simp: not_less split: prod.splits bool.splits)
qed

lemma Follower_append_follows: "on_states (follows E t prev pt es r) (Follower_HandleAppendEntries n E p t l prev pt es ci r)"
proof (induction n arbitrary: p r)
  case (Suc n)
  have "on_states (follows E t prev pt es r) (bindO (becomeFollower t r)
      (\<lambda>r p'. Follower_HandleAppendEntries n E p' t l prev pt es ci r))"
    by (rule on_states_bindO [OF same_log_becomeFollower]) (auto intro: on_states_mono [OF Suc.IH] dest: follows_via)
  then show ?case
    using accept_append_follows [of r t E prev pt es p l ci] by (auto simp: same_log.R_refl)
qed simp

lemma HandleAppendEntries_follows: "on_states (follows E t prev pt es r) (HandleAppendEntries E t l prev pt es ci r)"
proof -
  have "on_states (follows E t prev pt es r) (bindO (becomeFollower t r)
      (\<lambda>r q. Follower_HandleAppendEntries (stackDepth E) E q t l prev pt es ci r))"
    by (rule on_states_bindO [OF same_log_becomeFollower]) (auto intro: on_states_mono [OF Follower_append_follows] dest: follows_via)
  then show ?thesis
    unfolding HandleAppendEntries_def Candidate_HandleAppendEntries_def Leader_HandleAppendEntries_def
    by (auto simp: same_log.R_refl intro!: on_role_states Follower_append_follows)
qed

section \<open>Snapshots\<close>

text \<open>A snapshot that takes effect gives the node a snapshot index.\<close>

lemma sends_snapshot: "snapshotIndex r' \<noteq> 0 \<Longrightarrow> sends view E T r r'"
  by (simp add: sends_def)

lemma sends_finish_snapshot: "sends view E T r (TakeSnapshot_finish E snap r)"
proof (cases "LastIncludedIndex snap > snapshotIndex r")
  case True
  then have "LastIncludedIndex snap \<noteq> 0" by (auto simp: word_less_nat_alt)
  then show ?thesis using True by (intro sends_snapshot) (simp add: TakeSnapshot_finish_def Let_def)
qed (simp add: TakeSnapshot_finish_def sends.R_refl)

lemma sends_TakeSnapshot: "sends view E T r (snd (TakeSnapshot E r))"
  unfolding TakeSnapshot_def
  by (auto simp: sends.R_refl intro: same_log_sends [OF same_log_fields(3)]
      sends_trans [OF same_log_sends [OF same_log_fields(3)] sends_finish_snapshot]
      split: prod.splits option.splits sum.splits)

lemma sends_installSnapshot:
  assumes "snapshotIndex r < i"
  shows "sends view E T r (snd (installSnapshot E i lt bs r))"
proof -
  obtain e d where sv: "SaveSnapshot (snapshotPath r)
      \<lparr>LastIncludedIndex = i, LastIncludedTerm = lt, SnapData = bs\<rparr> (fdisk r) = (e, d)" by fastforce
  obtain ok m where rs: "fsmRestore E (fsm r) bs = (ok, m)" by fastforce
  have i: "i \<noteq> 0" using assms by (auto simp: word_less_nat_alt)
  show ?thesis
  proof (cases "e = None \<and> ok")
    case True
    then have "snapshotIndex (snd (installSnapshot E i lt bs r)) = i"
      using sv rs by (simp add: installSnapshot_def Let_def resetLog_def upd_store_def)
    then show ?thesis using i by (intro sends_snapshot) simp
  next
    case False
    then show ?thesis
      using sv rs by (cases e; cases ok) (auto simp: installSnapshot_def intro: sends_same)
  qed
qed

lemma sends_accept_snapshot: "on_states (sends view E T r) (accept_snapshot E p ct l i lt bs r)"
  unfolding accept_snapshot_def Let_def
  by (rule sends.bind [OF same_log_sendsI [OF same_log_resetElectionTimer]])
    (auto simp: not_le upd_store_def intro: same_log_sends [OF same_log_upd(5), unfolded upd_store_def]
      sends_trans [OF same_log_sends [OF same_log_upd(5), unfolded upd_store_def] sends_installSnapshot])

lemma sends_Follower_InstallSnapshot: "on_states (sends view E T r) (Follower_HandleInstallSnapshot E p t l i lt bs r)"
proof -
  have "on_states (sends view E T r) (bindO (markUnhealthy r1) (\<lambda>r u. Ret r ct))"
    "on_states (sends view E T r) (accept_snapshot E p ct l i lt bs r1)"
    if "on_store (SetCurrentTermAndVotedFor t []) r = (e, r1)" for e r1 ct
    using same_log_sends [OF same_log_on_store [OF that], of view E T]
    by (auto intro: sends.via [OF _ sends_accept_snapshot]
        sends.via [OF _ on_states_ret [OF same_log_sendsI [OF same_log_markUnhealthy]]])
  then show ?thesis
    unfolding Follower_HandleInstallSnapshot_def Let_def
    by (auto simp: sends.R_refl sends_accept_snapshot split: prod.splits option.splits)
qed

lemma sends_HandleInstallSnapshot: "on_states (sends view E T r) (HandleInstallSnapshot E t l i lt bs r)"
proof -
  have "on_states (sends view E T r) (bindO (becomeFollower t r) (\<lambda>r q. Follower_HandleInstallSnapshot E q t l i lt bs r))"
    by (rule sends.bind [OF same_log_sendsI [OF same_log_becomeFollower] sends_Follower_InstallSnapshot])
  then show ?thesis
    unfolding HandleInstallSnapshot_def Candidate_HandleInstallSnapshot_def Leader_HandleInstallSnapshot_def
    by (auto simp: sends.R_refl intro!: on_role_states sends_Follower_InstallSnapshot)
qed

section \<open>Every step\<close>

lemma local_step_replicates:
  assumes "local_step E r r'"
  shows "replicates view E (led r) r r'"
  using assms
proof cases
  case (propose_receive ch x)
  then show ?thesis by (intro same_log_replicates same_log_receive)
next
  case (snapshot_load p n)
  then show ?thesis by (simp add: same_log_replicates same_log_snapshot_load)
next
  case (save_snapshot snap e d)
  then show ?thesis by (simp add: same_log_replicates same_log_fields)
next
  case (send_other g)
  then show ?thesis
    using set_remove1_subset [of g "spawned r"] by (auto simp: sends_def intro!: sends_replicates)
qed (auto elim!: ends_states intro: replicates_Tick replicates_HandlePropose replicates_PreVote_reply
    on_states_mono [OF same_log_HandlePreVote same_log_replicates]
    on_states_mono [OF same_log_HandleRequestVote same_log_replicates]
    on_states_mono [OF sends_HandleInstallSnapshot sends_replicates]
    on_states_mono [OF same_log_cancel same_log_replicates]
    on_states_mono [OF same_log_leader_apply_entry same_log_replicates]
    on_states_mono [OF same_log_applier_round same_log_replicates]
    on_states_mono [OF same_log_applier_step same_log_replicates]
    on_states_mono [OF sends_InstallSnapshot_reply sends_replicates]
    on_states_mono [OF same_log_switches(1) same_log_replicates]
    on_states_mono [OF same_log_switches(2) same_log_replicates]
    on_states_mono [OF same_log_switches(3) same_log_replicates]
    sends_replicates sends_TakeSnapshot sends_finish_snapshot)

text \<open>A process that starts has the log it loaded and nothing to send.\<close>

lemma boot_log:
  assumes "boot E gen machine r = Some (Ret r' p)"
  shows "wal r' = gl_Load E (wal r)" "spawned r' = []" "nid r' = nid r"
proof -
  obtain s d where new: "NewRaft E gen d (nid r) (dataDir r) (nodes r) (gl_Load E (wal r)) s machine (config r) = Ret r' p"
    using assms by (auto simp: boot_def split: prod.splits sum.splits)
  define r0 where "r0 = \<lparr>config = config r, dataDir = dataDir r, enabled = True, fsm = machine, healthy = True,
      nid = nid r, wal = gl_Load E (wal r), nodes = nodes r, rgen = gen, role = None, roleEpoch = 0,
      snapshotIndex = 0, snapshotTerm = 0, sessions = NewSessionTable, store = s, shutdownClosed = False,
      heap = (\<lambda>_. None), nextPtr = 0, chans = (\<lambda>_. None), nextChan = 0, spawned = [], fdisk = d\<rparr>"
  have rec: "wal (recover_snapshot E r0) = wal r0 \<and> spawned (recover_snapshot E r0) = spawned r0 \<and> nid (recover_snapshot E r0) = nid r0"
    by (auto simp: recover_snapshot_def upd_store_def split: prod.splits sum.splits)
  have "on_states (same_log (recover_snapshot E r0)) (bindO (replay_log E (recover_snapshot E r0)) (\<lambda>r u. becomeFollower 0 r))"
    by (rule same_log.bind) (auto simp: replay_log_def Let_def same_log_apply_loop same_log_becomeFollower)
  then have "same_log (recover_snapshot E r0) r'" using new unfolding NewRaft_def Let_def r0_def [symmetric] by simp
  then show "wal r' = gl_Load E (wal r)" "spawned r' = []" "nid r' = nid r"
    using rec by (simp_all add: same_log_def r0_def)
qed

end
