(* ===== verification/History.thy ===== *)
theory History
  imports Requests "HOL-Library.Sublist"
begin

text \<open>
  The logs of a run, abstractly. \<open>G\<close> is the set of all logs, and prefixes of logs, that nodes ever
  had, \<open>W\<close> the leaderships so far, \<open>N\<close> the requests so far. \<open>history\<close> is the invariant: logs of
  \<open>G\<close> of the same length and last term are equal, because the entries of a term are made by its
  leader, whose log has them all while it can lead.
\<close>

section \<open>The invariant\<close>

definition last_term :: "bytes list \<Rightarrow> u64 option" where
  "last_term xs = term_at (0, xs) (length xs)"

fun request_ok :: "(u64 \<times> gostring) set \<Rightarrow> bytes list set \<Rightarrow> gostring \<times> goroutine \<Rightarrow> bool" where
  "request_ok W G (a, SendAppendEntries p n t l prev pt es ci) \<longleftrightarrow>
     (t, a) \<in> W \<and> n \<noteq> a \<and> (\<exists>xs\<in>G. part_of (0, xs) prev pt es)"
| "request_ok W G (a, _) \<longleftrightarrow> True"

definition history ::
  "gostring list \<Rightarrow> (gostring \<Rightarrow> bytes list) \<Rightarrow> (gostring \<Rightarrow> u64) \<Rightarrow> (gostring \<Rightarrow> bool)
     \<Rightarrow> (u64 \<times> gostring) set \<Rightarrow> (gostring \<times> goroutine) set \<Rightarrow> bytes list set \<Rightarrow> bool" where
  "history ns log cur live W N G \<longleftrightarrow>
     (\<forall>xs\<in>G. plain (0, xs) \<and> (\<forall>k. take k xs \<in> G))
     \<and> (\<forall>xs\<in>G. \<forall>ys\<in>G. length xs = length ys \<longrightarrow> last_term xs = last_term ys \<longrightarrow> xs = ys)
     \<and> (\<forall>a\<in>set ns. log a \<in> G)
     \<and> (\<forall>xs\<in>G. \<forall>t. last_term xs = Some t \<longrightarrow> (\<exists>a. (t, a) \<in> W))
     \<and> (\<forall>(t, a)\<in>W. a \<in> set ns \<and> t \<le> cur a)
     \<and> (\<forall>a\<in>set ns. (cur a, a) \<in> W \<longrightarrow> live a \<longrightarrow> (\<forall>xs\<in>G. last_term xs = Some (cur a) \<longrightarrow> prefix xs (log a)))
     \<and> (\<forall>x\<in>N. request_ok W G x)"

lemma historyI:
  assumes "\<And>xs. xs \<in> G \<Longrightarrow> plain (0, xs)" "\<And>xs k. xs \<in> G \<Longrightarrow> take k xs \<in> G"
    and "\<And>xs ys. xs \<in> G \<Longrightarrow> ys \<in> G \<Longrightarrow> length xs = length ys \<Longrightarrow> last_term xs = last_term ys \<Longrightarrow> xs = ys"
    and "\<And>a. a \<in> set ns \<Longrightarrow> log a \<in> G"
    and "\<And>xs t. xs \<in> G \<Longrightarrow> last_term xs = Some t \<Longrightarrow> \<exists>a. (t, a) \<in> W"
    and "\<And>t a. (t, a) \<in> W \<Longrightarrow> a \<in> set ns \<and> t \<le> cur a"
    and "\<And>a xs. a \<in> set ns \<Longrightarrow> (cur a, a) \<in> W \<Longrightarrow> live a \<Longrightarrow> xs \<in> G \<Longrightarrow> last_term xs = Some (cur a) \<Longrightarrow> prefix xs (log a)"
    and "\<And>x. x \<in> N \<Longrightarrow> request_ok W G x"
  shows "history ns log cur live W N G"
  unfolding history_def using assms by fast

lemma historyD:
  assumes "history ns log cur live W N G"
  shows "xs \<in> G \<Longrightarrow> plain (0, xs)" "xs \<in> G \<Longrightarrow> take k xs \<in> G"
    and "xs \<in> G \<Longrightarrow> ys \<in> G \<Longrightarrow> length xs = length ys \<Longrightarrow> last_term xs = last_term ys \<Longrightarrow> xs = ys"
    and "a \<in> set ns \<Longrightarrow> log a \<in> G"
    and "xs \<in> G \<Longrightarrow> last_term xs = Some t \<Longrightarrow> \<exists>a. (t, a) \<in> W"
    and "(t, a) \<in> W \<Longrightarrow> a \<in> set ns" "(t, a) \<in> W \<Longrightarrow> t \<le> cur a"
    and "a \<in> set ns \<Longrightarrow> (cur a, a) \<in> W \<Longrightarrow> live a \<Longrightarrow> xs \<in> G \<Longrightarrow> last_term xs = Some (cur a) \<Longrightarrow> prefix xs (log a)"
    and "x \<in> N \<Longrightarrow> request_ok W G x"
  using assms unfolding history_def by fast+

lemma request_ok_mono: "request_ok W G x \<Longrightarrow> W \<subseteq> W' \<Longrightarrow> G \<subseteq> G' \<Longrightarrow> request_ok W' G' x"
  by (cases "(W, G, x)" rule: request_ok.cases) auto

lemma last_term_take:
  assumes "i \<le> length xs"
  shows "last_term (take i xs) = term_at (0, xs) i"
  using assms by (cases i) (auto simp: last_term_def term_at_def entry_of_def last_of_def min_def)

section \<open>What it gives\<close>

lemma same_prefix:
  assumes h: "history ns log cur live W N G" and G: "xs \<in> G" "ys \<in> G"
    and t: "term_at (0, xs) i = Some t" "term_at (0, ys) i = Some t"
  shows "take i xs = take i ys"
proof -
  have i: "i \<le> length xs" "i \<le> length ys" using term_at_domain [OF t(1)] term_at_domain [OF t(2)] by (simp_all add: last_of_def)
  show ?thesis
    by (rule historyD(3) [OF h historyD(2) [OF h G(1)] historyD(2) [OF h G(2)]])
      (use i t in \<open>simp_all add: last_term_take\<close>)
qed

lemma history_matching:
  assumes h: "history ns log cur live W N G" and G: "xs \<in> G" "ys \<in> G"
  shows "matching (0, xs) (0, ys)"
  unfolding matching_def
proof (intro allI impI)
  fix i t j
  assume t: "term_at (0, xs) i = Some t" "term_at (0, ys) i = Some t" and j: "j \<le> i" "fst (0 :: nat, xs) < j"
  have i: "i \<le> length xs" "i \<le> length ys" using term_at_domain [OF t(1)] term_at_domain [OF t(2)] by (simp_all add: last_of_def)
  have "take i xs ! (j - 1) = take i ys ! (j - 1)" using same_prefix [OF h G t] by simp
  then show "entry_of (0, xs) j = entry_of (0, ys) j" using i j by (simp add: entry_of_def last_of_def)
qed

section \<open>How it is kept\<close>

text \<open>A node takes a log that is known, in a term it does not lead or with the log it had.\<close>

lemma history_known:
  assumes h: "history ns log cur live W N G" and a: "a \<in> set ns" and lg: "lg \<in> G" and ct: "cur a \<le> ct"
    and W: "W \<subseteq> W'" "W' \<subseteq> W \<union> {(ct, a)}" and one: "\<And>t b c. (t, b) \<in> W' \<Longrightarrow> (t, c) \<in> W' \<Longrightarrow> b = c"
    and own: "(ct, a) \<notin> W' \<or> \<not> lv \<or> lg = log a \<and> (live a \<or> cur a < ct)"
    and N: "\<And>x. x \<in> N' \<Longrightarrow> x \<in> N \<or> request_ok W' G x"
  shows "history ns (log(a := lg)) (cur(a := ct)) (live(a := lv)) W' N' G"
proof (rule historyI)
  show "\<exists>b. (t, b) \<in> W'" if "xs \<in> G" "last_term xs = Some t" for xs t
    using historyD(5) [OF h that] W(1) by blast
  show "b \<in> set ns \<and> t \<le> (cur(a := ct)) b" if "(t, b) \<in> W'" for t b
  proof (cases "(t, b) \<in> W")
    case True
    then show ?thesis using historyD(6,7) [OF h True] ct by (auto intro: order_trans)
  next
    case False
    then show ?thesis using that W(2) a by auto
  qed
  show "prefix xs ((log(a := lg)) b)" if b: "b \<in> set ns" "((cur(a := ct)) b, b) \<in> W'" "(live(a := lv)) b"
    and xs: "xs \<in> G" "last_term xs = Some ((cur(a := ct)) b)" for b xs
  proof (cases "b = a")
    case True
    then have lead: "(ct, a) \<in> W'" and keep: "lg = log a" "live a \<or> cur a < ct" using b own by auto
    obtain d where "(ct, d) \<in> W" using historyD(5) [OF h xs(1)] xs(2) True by auto
    then have old: "(ct, a) \<in> W" using one [OF lead, of d] W(1) by blast
    then have "ct = cur a" using historyD(7) [OF h old] ct by simp
    then show ?thesis using historyD(8) [OF h a _ _ xs(1)] old keep xs(2) True by simp
  next
    case False
    then have "(cur b, b) \<in> W" using b(2) W(2) by auto
    then show ?thesis using historyD(8) [OF h b(1) _ _ xs(1)] b(3) xs(2) False by simp
  qed
  show "request_ok W' G x" if "x \<in> N'" for x
    using N [OF that] historyD(9) [OF h, of x] request_ok_mono [OF _ W(1) subset_refl] by blast
qed (use historyD(1-4) [OF h] lg in auto)

text \<open>A leader appends an entry of its term.\<close>

lemma last_term_snoc: "last_term (xs @ [Serialize e]) = Some (Term e)"
  unfolding last_term_def by (rule term_at_Serialize) (simp add: entry_of_def last_of_def)

lemma history_grow:
  assumes h: "history ns log cur live W N G" and a: "a \<in> set ns" and lead: "(cur a, a) \<in> W" "live a"
    and one: "\<And>t b c. (t, b) \<in> W \<Longrightarrow> (t, c) \<in> W \<Longrightarrow> b = c"
    and e: "Term e = cur a" and pl: "plain (0, log a @ [Serialize e])"
    and N: "\<And>x. x \<in> N' \<Longrightarrow> x \<in> N \<or> request_ok W (insert (log a @ [Serialize e]) G) x"
  shows "history ns (log(a := log a @ [Serialize e])) cur live W N' (insert (log a @ [Serialize e]) G)"
proof -
  let ?new = "log a @ [Serialize e]"
  have lt: "last_term ?new = Some (cur a)" using e by (simp add: last_term_snoc)
  have mine: "prefix xs (log a)" if "xs \<in> G" "last_term xs = Some (cur a)" for xs
    using historyD(8) [OF h a lead that] .
  have uniq: "xs \<noteq> ?new \<longrightarrow> length xs \<noteq> length ?new" if "xs \<in> G" "last_term xs = Some (cur a)" for xs
    using prefix_length_le [OF mine [OF that]] by auto
  show ?thesis
  proof (rule historyI)
    show "take k xs \<in> insert ?new G" if "xs \<in> insert ?new G" for xs k
      using that historyD(2) [OF h historyD(4) [OF h a], of k] historyD(2) [OF h, of xs k]
      by (cases "k \<le> length (log a)") auto
    show "xs = ys" if "xs \<in> insert ?new G" "ys \<in> insert ?new G" "length xs = length ys" "last_term xs = last_term ys" for xs ys
      using that uniq lt historyD(3) [OF h] by (metis insert_iff)
    show "\<exists>b. (t, b) \<in> W" if "xs \<in> insert ?new G" "last_term xs = Some t" for xs t
      using that historyD(5) [OF h] lt lead(1) by auto
    show "prefix xs ((log(a := ?new)) b)" if b: "b \<in> set ns" "(cur b, b) \<in> W" "live b"
      and xs: "xs \<in> insert ?new G" "last_term xs = Some (cur b)" for b xs
    proof (cases "b = a")
      case True
      then show ?thesis using xs mine prefix_append by (auto simp: prefix_snoc)
    next
      case False
      then have "xs \<noteq> ?new" using one [OF lead(1)] b(2) xs(2) lt by auto
      then show ?thesis using historyD(8) [OF h b] xs False by auto
    qed
    show "request_ok W (insert ?new G) x" if "x \<in> N'" for x
      using N [OF that] historyD(9) [OF h, of x] request_ok_mono [OF _ subset_refl, of W G x "insert ?new G"] by blast
  qed (use historyD(1,4,6,7) [OF h] pl in auto)
qed

text \<open>A follower that accepts a request gets a log that is known.\<close>

lemma part_of_drop:
  assumes "part_of (0, ys) prev pt es"
  shows "map Serialize (take j (drop m es)) = take (min j (length es - m)) (drop (unat prev + m) ys)"
proof (cases "es = []")
  case False
  then have len: "unat prev + length es \<le> length ys"
    and nth: "\<And>k. k < length es \<Longrightarrow> ys ! (unat prev + k) = Serialize (es ! k)"
    using assms by (auto simp: part_of_def last_of_def entry_of_def)
  show ?thesis
  proof (rule nth_equalityI)
    show "map Serialize (take j (drop m es)) ! i = take (min j (length es - m)) (drop (unat prev + m) ys) ! i"
      if "i < length (map Serialize (take j (drop m es)))" for i
    proof -
      have i: "i < j" "m + i < length es" using that by auto
      then have "m \<le> length es" "unat prev + m \<le> length ys" using len by simp_all
      then show ?thesis using i nth [of "m + i"] by (simp add: add.assoc)
    qed
  qed (use len in auto)
qed simp

lemma append_known:
  assumes h: "history ns log cur live W N G" and G: "xs \<in> G" "ys \<in> G"
    and p: "part_of (0, ys) prev pt es" and m: "m = agree_len (0, xs) (Suc (unat prev)) es" "m < length es"
    and c: "prev = 0 \<or> term_at (0, xs) (unat prev) = Some pt" and j: "j \<le> length es - m"
  shows "cut_and_add (0, xs) (unat prev + m) (take j (drop m es)) = (0, take (unat prev + m + j) ys)"
proof -
  have ne: "es \<noteq> []" using m(2) by auto
  then have nth: "\<And>k. k < length es \<Longrightarrow> entry_of (0, ys) (unat prev + 1 + k) = Some (Serialize (es ! k))"
    and ct: "prev = 0 \<or> term_at (0, ys) (unat prev) = Some pt"
    using p by (auto simp: part_of_def)
  have "take (unat prev + m) xs = take (unat prev + m) ys"
  proof (cases m)
    case 0
    then show ?thesis using c ct same_prefix [OF h G] by auto
  next
    case (Suc k)
    then have "term_at (0, xs) (unat prev + m) = Some (Term (es ! k))"
      using agree_len_terms [of k "(0, xs)" "Suc (unat prev)" es] m(1) by simp
    moreover have "term_at (0, ys) (unat prev + m) = Some (Term (es ! k))"
      using nth [of k] Suc m(2) by (intro term_at_Serialize) simp
    ultimately show ?thesis by (rule same_prefix [OF h G])
  qed
  then show ?thesis
    using part_of_drop [OF p, of j m] j by (simp add: cut_and_add_def take_add min_absorb1)
qed

lemma accepts_known:
  assumes h: "history ns log cur live W N G" and G: "snd (view (wal r)) \<in> G" "ys \<in> G"
    and laws: "golog_laws E view" and v: "plain (view (wal r))" and sn: "snapshotIndex r = 0"
    and p: "part_of (0, ys) prev pt es" and acc: "accepts E t prev pt es r r'"
  shows "fst (view (wal r')) = 0 \<and> snd (view (wal r')) \<in> G"
proof -
  let ?v = "view (wal r)"
  have ok: "view_ok ?v" "fst ?v = 0" and vv: "?v = (0, snd ?v)" using v by (auto simp: plain_def prod_eq_iff)
  have w: "wal r' = appendEntries E prev es (wal r)" using acc by (simp add: accepts_def)
  show ?thesis
  proof (cases "es = []")
    case True
    then show ?thesis using w ok(2) G(1) by (simp add: appendEntries_def)
  next
    case False
    have le: "unat prev \<le> last_of ?v"
      using acc golog_reads(1) [OF laws ok(1)] ok(1) by (simp add: accepts_def word_le_nat_alt view_ok_def)
    have lo: "log_ok view r" using ok sn by (simp add: log_ok_def term_at_def entry_of_def)
    have "prev = 0 \<or> term_at ?v (unat prev) = Some pt"
      using checkLogConsistency_ok [OF laws lo] acc sn by (auto simp: accepts_def)
    then have c: "prev = 0 \<or> term_at (0, snd ?v) (unat prev) = Some pt" using vv by simp
    have "last_of (0 :: nat, ys) < 2 ^ 63" using historyD(1) [OF h G(2)] by (simp add: plain_def view_ok_def)
    then have big: "unat prev + length es < 2 ^ 63" using p False by (auto simp: part_of_def)
    define m where "m = agree_len ?v (Suc (unat prev)) es"
    have m: "m = agree_len (0, snd ?v) (Suc (unat prev)) es" unfolding m_def using vv by simp
    from appendEntries_view [OF laws ok(1) _ le big] ok(2) w
    consider "view (wal r') = ?v" | j where "m < length es" "j \<le> length es - m"
        "view (wal r') = cut_and_add ?v (unat prev + m) (take j (drop m es))"
      unfolding m_def by auto
    then show ?thesis
    proof cases
      case (2 j)
      then have "view (wal r') = (0, take (unat prev + m + j) ys)"
        using append_known [OF h G p m 2(1) c 2(2)] vv by simp
      then show ?thesis using historyD(2) [OF h G(2)] by simp
    qed (use ok(2) G(1) in simp)
  qed
qed

end
