(* ===== verification/Network.thy ===== *)
theory Network
  imports History
begin

text \<open>
  A cluster whose append requests travel over a network that may lose, delay, repeat and reorder
  them, but not make them up: \<open>N\<close> collects every request that was made. Processes crash, and may
  find only a part of their log when they start again. The logs of all nodes match at all times,
  as long as no snapshot takes effect.
\<close>

section \<open>The network\<close>

type_synonym network = "(gostring \<times> goroutine) set"

text \<open>\<open>net_step E N a\<close>: the steps of node \<open>a\<close> when \<open>N\<close> are the requests so far, with their senders.\<close>

inductive net_step :: "('l, 's) env \<Rightarrow> network \<Rightarrow> gostring \<Rightarrow> ('l, 's) raft \<Rightarrow> ('l, 's) raft \<Rightarrow> bool" for E N a where
  own: "local_step E r r' \<Longrightarrow> net_step E N a r r'"
| deliver: "(b, SendAppendEntries p a t l prev pt es ci) \<in> N \<Longrightarrow>
     ends (HandleAppendEntries E t l prev pt es ci r) r' \<Longrightarrow> net_step E N a r r'"
| answered: "(a, SendAppendEntries p n t l prev pt es ci) \<in> N \<Longrightarrow>
     ends (AppendEntries_reply E p n t prev es reply r) r' \<Longrightarrow> net_step E N a r r'"

definition made :: "gostring list \<Rightarrow> ('l, 's) cluster \<Rightarrow> network" where
  "made ns c = {(a, g). a \<in> set ns \<and> g \<in> set (spawned (cnode c a))}"

text \<open>No snapshot has taken effect, and there is an index for one more entry.\<close>

definition unsnapped :: "('l \<Rightarrow> logview) \<Rightarrow> gostring list \<Rightarrow> ('l, 's) cluster \<Rightarrow> bool" where
  "unsnapped view ns c \<longleftrightarrow>
     (\<forall>a\<in>set ns. snapshotIndex (cnode c a) = 0 \<and> Suc (last_of (view (wal (cnode c a)))) < 2 ^ 63)"

inductive net_run ::
  "('l, 's) env \<Rightarrow> ('l \<Rightarrow> logview) \<Rightarrow> gostring list \<Rightarrow> ('l, 's) cluster \<Rightarrow> votes \<Rightarrow> (u64 \<times> gostring) set \<Rightarrow> network \<Rightarrow> bool"
  for E view ns where
  net_start: "fresh ns c \<Longrightarrow> unsnapped view ns c \<Longrightarrow> \<forall>a\<in>set ns. view (wal (cnode c a)) = (0, []) \<Longrightarrow>
     net_run E view ns c (stamps ns c) (leaders ns c) (made ns c)"
| net_move: "net_run E view ns c V W N \<Longrightarrow> moves (net_step E N) E ns c c' \<Longrightarrow> unsnapped view ns c' \<Longrightarrow>
     net_run E view ns c' (V \<union> stamps ns c') (W \<union> leaders ns c') (N \<union> made ns c')"

text \<open>What is loaded is what was written, up to some entry.\<close>

definition loads_prefix :: "('l, 's) env \<Rightarrow> ('l \<Rightarrow> logview) \<Rightarrow> bool" where
  "loads_prefix E view \<longleftrightarrow>
     (\<forall>l. last_of (view l) < 2 ^ 63 \<longrightarrow> (\<exists>k. view (gl_Load E l) = (fst (view l), take k (snd (view l)))))"

lemma net_step_node_step: "net_step E N a r r' \<Longrightarrow> node_step E r r'"
  by (induction rule: net_step.induct) (auto intro: node_step.intros)

lemma moves_mono: "moves S E ns c c' \<Longrightarrow> (\<And>a r r'. S a r r' \<Longrightarrow> S' a r r') \<Longrightarrow> moves S' E ns c c'"
  by (induction rule: moves.induct) (blast intro: moves.intros)+

lemma net_run_run: "net_run E view ns c V W N \<Longrightarrow> run E ns c V W"
proof (induction rule: net_run.induct)
  case (net_move c V W N c')
  then show ?case by (auto intro: run.run_step moves_mono net_step_node_step)
qed (rule run.run_start)

lemma net_run_known:
  "net_run E view ns c V W N \<Longrightarrow> leaders ns c \<subseteq> W \<and> made ns c \<subseteq> N \<and> unsnapped view ns c"
  by (induction rule: net_run.induct) auto

section \<open>Nodes that may lead in their term\<close>

definition live :: "('l, 's) raft \<Rightarrow> bool" where
  "live r \<longleftrightarrow> leads r \<or> (\<exists>p pv v m ms. candidacy r p = Some (pv, v, m, ms) \<and> 0 < v)"

lemma liveI: "candidacy r p = Some (pv, v, m, ms) \<Longrightarrow> 0 < v \<Longrightarrow> live r"
  unfolding live_def by blast

lemma live_fewer:
  "(leads r' \<Longrightarrow> leads r) \<Longrightarrow> (\<And>p. candidacy r' p = None \<or> candidacy r' p = candidacy r p) \<Longrightarrow> live r' \<Longrightarrow> live r"
  unfolding live_def by (metis option.distinct(1))

lemma live_frame: "frame r r' \<Longrightarrow> live r' \<Longrightarrow> live r"
  by (rule live_fewer) (auto simp: frame_def)

lemma live_new:
  assumes "\<not> leads r0" "candidacy r0 p = Some (pv, 0, m, ms)"
    and "\<And>q. q \<noteq> p \<Longrightarrow> candidacy r0 q = None \<or> candidacy r0 q = candidacy r q" and "live r0"
  shows "live r"
proof -
  obtain q pv' v m' ms' where q: "candidacy r0 q = Some (pv', v, m', ms')" "0 < v" using assms(1,4) by (auto simp: live_def)
  then have "q \<noteq> p" using assms(2) by auto
  then have "candidacy r q = Some (pv', v, m', ms')" using assms(3) [of q] q by auto
  then show ?thesis using q(2) by (rule liveI)
qed

lemma live_campaign:
  assumes "campaign p r0 r'" and "\<not> leads r0" "candidacy r0 p = Some (pv, 0, m, ms)" and "live r'"
  shows "live r0 \<or> currentTerm (store r0) < currentTerm (store r')"
proof (cases "currentTerm (store r') = currentTerm (store r0) + 1")
  case True
  have "currentTerm (store r0) \<le> currentTerm (store r')" using assms(1) by (simp add: campaign_def kept_def advances_def)
  then show ?thesis using True by (simp add: order.strict_iff_order)
next
  case False
  then have "\<not> leads r'" "candidacy r' q = None \<or> candidacy r' q = candidacy r0 q" for q
    using assms(1) unfolding campaign_def by (blast, metis)
  then show ?thesis using live_fewer [of r' r0] assms(4) by blast
qed

lemma live_node_step:
  assumes g: "good ns V a T r" and s: "node_step E r r'" and l: "live r'"
  shows "live r \<or> currentTerm (store r) < currentTerm (store r')"
proof -
  have cam: ?thesis if "campaign p r0 r'" "store r0 = store r" "\<not> leads r0" "candidacy r0 p = Some (pv, 0, m, ms)"
    "\<And>q. q \<noteq> p \<Longrightarrow> candidacy r0 q = None \<or> candidacy r0 q = candidacy r q" for p r0 pv m ms
    using live_campaign [OF that(1,3,4) l] live_new [OF that(3-5)] that(2) by auto
  from node_step_effect [OF s] show ?thesis
  proof (elim disjE exE conjE)
    assume "candidates r r'"
    then consider "frame r r'" | p r0 where "stands r p True r0" "frame r0 r'"
      | p r0 where "stands r p False r0" "campaign p r0 r'"
      by (auto simp: candidates_def)
    then show ?thesis
    proof cases
      case 1
      then show ?thesis using live_frame l by blast
    next
      case (2 p r0)
      then have "live r0" using live_frame l by blast
      from live_new [OF _ _ _ this] 2(1) have "live r" unfolding stands_def by blast
      then show ?thesis ..
    next
      case (3 p r0)
      then show ?thesis using cam [OF 3(2)] unfolding stands_def by blast
    qed
  next
    fix p r0
    assume n: "nominated p r r0" and c: "campaign p r0 r'"
    then obtain v m ms where k: "candidacy r p = Some (True, v, m, ms)" "candidacy r0 p = Some (False, v, m, ms)"
      by (auto simp: nominated_def)
    have "counted ns V a True v (unsent (vote_requests r) p + T p)" using goodD(8) [OF g k(1)] by blast
    then have "v = 0" by (auto simp: counted_def)
    then have "candidacy r0 p = Some (False, 0, m, ms)" using k(2) by simp
    from cam [OF c _ _ this] n show ?thesis unfolding nominated_def by blast
  qed
qed

lemma live_answer:
  assumes g: "good ns V a T r" and t: "T p \<noteq> {#}" and s: "ends (RequestVote_reply E p t reply r) r'" and l: "live r'"
  shows "live r"
  using ends_states [OF s RequestVote_reply_effect]
proof (elim disjE conjE)
  assume "tally p r r'"
  then obtain pv v m ms where k: "candidacy r p = Some (pv, v, m, ms)" by (auto simp: tally_def)
  have "counted ns V a pv v (unsent (vote_requests r) p + T p)" using goodD(8) [OF g k] by blast
  then have "v \<noteq> 0" using t by (auto simp: counted_def)
  then show ?thesis using liveI [OF k] by simp
qed (use live_frame l in blast)

section \<open>The invariant of the network\<close>

definition matched ::
  "('l \<Rightarrow> logview) \<Rightarrow> gostring list \<Rightarrow> ('l, 's) cluster \<Rightarrow> (u64 \<times> gostring) set \<Rightarrow> network \<Rightarrow> bytes list set \<Rightarrow> bool" where
  "matched view ns c W N G \<longleftrightarrow>
     history ns (\<lambda>a. snd (view (wal (cnode c a)))) (\<lambda>a. currentTerm (store (cnode c a))) (\<lambda>a. live (cnode c a)) W N G
     \<and> (\<forall>a\<in>set ns. fst (view (wal (cnode c a))) = 0)"

lemma matched_plain:
  "matched view ns c W N G \<Longrightarrow> a \<in> set ns \<Longrightarrow> plain (view (wal (cnode c a))) \<and> snd (view (wal (cnode c a))) \<in> G"
proof -
  assume m: "matched view ns c W N G" and a: "a \<in> set ns"
  then have h: "history ns (\<lambda>a. snd (view (wal (cnode c a)))) (\<lambda>a. currentTerm (store (cnode c a))) (\<lambda>a. live (cnode c a)) W N G"
    and f: "fst (view (wal (cnode c a))) = 0" by (simp_all add: matched_def)
  have "snd (view (wal (cnode c a))) \<in> G" using historyD(4) [OF h a] .
  then show ?thesis using historyD(1) [OF h] f by (metis prod.collapse)
qed

text \<open>What a change of node \<open>a\<close> adds to the leaderships and the requests.\<close>

lemma leaders_change:
  assumes "\<And>b. b \<noteq> a \<Longrightarrow> cnode c' b = cnode c b" and "leaders ns c \<subseteq> W"
  shows "leaders ns c' \<subseteq> W \<union> {(currentTerm (store (cnode c' a)), a)}"
proof
  fix x
  assume "x \<in> leaders ns c'"
  then obtain b where b: "x = (currentTerm (store (cnode c' b)), b)" "b \<in> set ns" "leads (cnode c' b)"
    by (auto simp: leaders_def)
  show "x \<in> W \<union> {(currentTerm (store (cnode c' a)), a)}"
  proof (cases "b = a")
    case False
    then have "x \<in> leaders ns c" using b assms(1) by (auto simp: leaders_def)
    then show ?thesis using assms(2) by blast
  qed (simp add: b(1))
qed

lemma made_change:
  assumes "\<And>b. b \<noteq> a \<Longrightarrow> cnode c' b = cnode c b" and "made ns c \<subseteq> N" and "x \<in> N \<union> made ns c'"
  shows "x \<in> N \<or> (\<exists>g. x = (a, g) \<and> g \<in> set (spawned (cnode c' a)))"
proof (cases "fst x = a")
  case False
  then have "x \<in> made ns c' \<Longrightarrow> x \<in> made ns c" using assms(1) [of "fst x"] by (auto simp: made_def)
  then show ?thesis using assms(2,3) by blast
qed (use assms(3) in \<open>auto simp: made_def\<close>)

lemma matched_upd:
  assumes m: "matched view ns c W N G" and others: "\<And>b. b \<noteq> a \<Longrightarrow> cnode c' b = cnode c b"
    and lg: "fst (view (wal (cnode c' a))) = 0"
    and h: "history ns ((\<lambda>b. snd (view (wal (cnode c b))))(a := snd (view (wal (cnode c' a)))))
      ((\<lambda>b. currentTerm (store (cnode c b)))(a := currentTerm (store (cnode c' a))))
      ((\<lambda>b. live (cnode c b))(a := live (cnode c' a))) W' N' G'"
  shows "matched view ns c' W' N' G'"
proof -
  have upd: "(\<lambda>b. g (cnode c b))(a := g (cnode c' a)) = (\<lambda>b. g (cnode c' b))" for g :: "('a, 'b) raft \<Rightarrow> 'c"
    by (rule ext) (use others in auto)
  have "history ns (\<lambda>b. snd (view (wal (cnode c' b)))) (\<lambda>b. currentTerm (store (cnode c' b)))
      (\<lambda>b. live (cnode c' b)) W' N' G'"
    using h upd [of "\<lambda>r. snd (view (wal r))"] upd [of "\<lambda>r. currentTerm (store r)"] upd [of live] by (simp only:)
  moreover have "fst (view (wal (cnode c' b))) = 0" if "b \<in> set ns" for b
    using m that lg others by (cases "b = a") (auto simp: matched_def)
  ultimately show ?thesis by (simp add: matched_def)
qed

text \<open>
  A change of node \<open>a\<close> in a run: it stays the node it is, its term does not go back, and leaders of
  a term stay unique.
\<close>

definition changes ::
  "gostring list \<Rightarrow> gostring \<Rightarrow> ('l, 's) cluster \<Rightarrow> ('l, 's) cluster \<Rightarrow> (u64 \<times> gostring) set \<Rightarrow> network \<Rightarrow> bool" where
  "changes ns a c c' W N \<longleftrightarrow>
     a \<in> set ns \<and> nid (cnode c a) = a \<and> leaders ns c \<subseteq> W \<and> made ns c \<subseteq> N
     \<and> (\<forall>b. b \<noteq> a \<longrightarrow> cnode c' b = cnode c b)
     \<and> currentTerm (store (cnode c a)) \<le> currentTerm (store (cnode c' a))
     \<and> (\<forall>t b d. (t, b) \<in> W \<union> leaders ns c' \<longrightarrow> (t, d) \<in> W \<union> leaders ns c' \<longrightarrow> b = d)"

lemma changesD:
  assumes "changes ns a c c' W N"
  shows "a \<in> set ns" "nid (cnode c a) = a" "leaders ns c \<subseteq> W" "made ns c \<subseteq> N" "b \<noteq> a \<Longrightarrow> cnode c' b = cnode c b"
    and "currentTerm (store (cnode c a)) \<le> currentTerm (store (cnode c' a))"
    and "(t, b) \<in> W \<union> leaders ns c' \<Longrightarrow> (t, d) \<in> W \<union> leaders ns c' \<Longrightarrow> b = d"
    and "W \<union> leaders ns c' \<subseteq> W \<union> {(currentTerm (store (cnode c' a)), a)}"
  using assms leaders_change [of a c' c ns W] unfolding changes_def by blast+

lemma changes_requests:
  assumes "changes ns a c c' W N" and "x \<in> N \<union> made ns c'"
    and "\<And>g. g \<in> set (spawned (cnode c' a)) \<Longrightarrow> g \<in> set (spawned (cnode c a)) \<or> P (a, g)"
  shows "x \<in> N \<or> P x"
proof -
  have "(a, g) \<in> N" if "g \<in> set (spawned (cnode c a))" for g
    using that changesD(1,4) [OF assms(1)] by (auto simp: made_def)
  moreover have "x \<in> N \<or> (\<exists>g. x = (a, g) \<and> g \<in> set (spawned (cnode c' a)))"
    by (rule made_change [where a = a, OF _ changesD(4) [OF assms(1)] assms(2)]) (rule changesD(5) [OF assms(1)])
  ultimately show ?thesis using assms(3) by blast
qed

text \<open>The node's log becomes one that is known.\<close>

lemma matched_known:
  assumes m: "matched view ns c W N G" and ch: "changes ns a c c' W N"
    and lg: "fst (view (wal (cnode c' a))) = 0" "snd (view (wal (cnode c' a))) \<in> G"
    and own: "(currentTerm (store (cnode c' a)), a) \<notin> W \<union> leaders ns c' \<or> \<not> live (cnode c' a)
       \<or> view (wal (cnode c' a)) = view (wal (cnode c a))
         \<and> (live (cnode c a) \<or> currentTerm (store (cnode c a)) < currentTerm (store (cnode c' a)))"
    and req: "\<And>g. g \<in> set (spawned (cnode c' a)) \<Longrightarrow> g \<in> set (spawned (cnode c a)) \<or> request_ok (W \<union> leaders ns c') G (a, g)"
  shows "matched view ns c' (W \<union> leaders ns c') (N \<union> made ns c') G"
proof (rule matched_upd [OF m changesD(5) [OF ch] lg(1)])
  have h: "history ns (\<lambda>a. snd (view (wal (cnode c a)))) (\<lambda>a. currentTerm (store (cnode c a))) (\<lambda>a. live (cnode c a)) W N G"
    using m by (simp add: matched_def)
  show "history ns ((\<lambda>b. snd (view (wal (cnode c b))))(a := snd (view (wal (cnode c' a)))))
      ((\<lambda>b. currentTerm (store (cnode c b)))(a := currentTerm (store (cnode c' a))))
      ((\<lambda>b. live (cnode c b))(a := live (cnode c' a))) (W \<union> leaders ns c') (N \<union> made ns c') G"
    by (rule history_known [OF h changesD(1) [OF ch] lg(2) changesD(6) [OF ch] Un_upper1 changesD(8,7) [OF ch]])
      (use own changes_requests [OF ch _ req] in auto)
qed

text \<open>A leader appends to its log.\<close>

lemma matched_grows:
  assumes m: "matched view ns c W N G" and ch: "changes ns a c c' W N"
    and lv: "live (cnode c' a) \<Longrightarrow> live (cnode c a) \<or> currentTerm (store (cnode c a)) < currentTerm (store (cnode c' a))"
    and g: "grows view (cnode c a) (cnode c' a)" and roomy: "Suc (last_of (view (wal (cnode c a)))) < 2 ^ 63"
  shows "\<exists>G'. matched view ns c' (W \<union> leaders ns c') (N \<union> made ns c') G'"
proof -
  let ?r = "cnode c' a" and ?log = "snd (view (wal (cnode c a)))"
  obtain e where e: "view (wal ?r) = (0, ?log @ [Serialize e])" "Term e = currentTerm (store ?r)" and ld: "leads ?r"
    using g by (auto simp: grows_def)
  have h: "history ns (\<lambda>a. snd (view (wal (cnode c a)))) (\<lambda>a. currentTerm (store (cnode c a))) (\<lambda>a. live (cnode c a)) W N G"
    using m by (simp add: matched_def)
  note pl = matched_plain [OF m changesD(1) [OF ch]]
  have lead: "(currentTerm (store ?r), a) \<in> W \<union> leaders ns c'" using ld changesD(1) [OF ch] by (auto simp: leaders_def)
  have "history ns ((\<lambda>b. snd (view (wal (cnode c b))))(a := ?log))
      ((\<lambda>b. currentTerm (store (cnode c b)))(a := currentTerm (store ?r)))
      ((\<lambda>b. live (cnode c b))(a := live ?r)) (W \<union> leaders ns c') N G"
    by (rule history_known [OF h changesD(1) [OF ch] _ changesD(6) [OF ch] Un_upper1 changesD(8,7) [OF ch]])
      (use pl lv in auto)
  note grow = history_grow [OF this changesD(1) [OF ch] _ _ changesD(7) [OF ch], where e = e and N' = "N \<union> made ns c'"]
  have req: "x \<in> N \<or> request_ok (W \<union> leaders ns c') (insert (?log @ [Serialize e]) G) x" if "x \<in> N \<union> made ns c'" for x
  proof (rule changes_requests [OF ch that])
    fix q
    assume "q \<in> set (spawned ?r)"
    then have "q \<in> set (spawned (cnode c a)) \<or> carries (view (wal ?r)) {currentTerm (store ?r)} a q"
      using g changesD(2) [OF ch] by (auto simp: grows_def)
    then show "q \<in> set (spawned (cnode c a)) \<or> request_ok (W \<union> leaders ns c') (insert (?log @ [Serialize e]) G) (a, q)"
      using e(1) lead by (cases q) auto
  qed
  have "history ns ((\<lambda>b. snd (view (wal (cnode c b))))(a := snd (view (wal ?r))))
      ((\<lambda>b. currentTerm (store (cnode c b)))(a := currentTerm (store ?r)))
      ((\<lambda>b. live (cnode c b))(a := live ?r)) (W \<union> leaders ns c') (N \<union> made ns c') (insert (?log @ [Serialize e]) G)"
    using grow req e lead ld plain_snoc [OF conjunct1 [OF pl] roomy] by (simp add: live_def)
  then show ?thesis using matched_upd [OF m changesD(5) [OF ch]] e(1) by (metis fst_conv)
qed

lemma carries_ok:
  "carries v T a g \<Longrightarrow> fst v = 0 \<Longrightarrow> snd v \<in> G \<Longrightarrow> (\<And>t. t \<in> T \<Longrightarrow> (t, a) \<in> W) \<Longrightarrow> request_ok W G (a, g)"
  by (cases g) (auto intro!: bexI [of _ "snd v"], metis prod.collapse)

text \<open>The log stays, and the requests that are made carry parts of it.\<close>

lemma matched_sends:
  assumes m: "matched view ns c W N G" and ch: "changes ns a c c' W N" and laws: "golog_laws E view"
    and lv: "live (cnode c' a) \<Longrightarrow> live (cnode c a) \<or> currentTerm (store (cnode c a)) < currentTerm (store (cnode c' a))"
    and s: "sends view E T (cnode c a) (cnode c' a)" and sn: "snapshotIndex (cnode c' a) = 0"
    and T: "\<And>t. t \<in> T \<Longrightarrow> (t, a) \<in> W"
  shows "matched view ns c' (W \<union> leaders ns c') (N \<union> made ns c') G"
proof -
  note pl = matched_plain [OF m changesD(1) [OF ch]]
  have eff: "view (wal (cnode c' a)) = view (wal (cnode c a))"
    "\<forall>g\<in>set (spawned (cnode c' a)). g \<in> set (spawned (cnode c a)) \<or> carries (view (wal (cnode c a))) T a g"
    using s laws sn pl changesD(2) [OF ch] by (simp_all add: sends_def)
  show ?thesis
  proof (rule matched_known [OF m ch])
    fix g
    assume "g \<in> set (spawned (cnode c' a))"
    then show "g \<in> set (spawned (cnode c a)) \<or> request_ok (W \<union> leaders ns c') G (a, g)"
      using eff(2) carries_ok [of "view (wal (cnode c a))" T a g G "W \<union> leaders ns c'"] T pl by (auto simp: plain_def)
  qed (use eff(1) pl lv in \<open>auto simp: plain_def\<close>)
qed

lemma matched_replicates:
  assumes m: "matched view ns c W N G" and ch: "changes ns a c c' W N" and laws: "golog_laws E view"
    and lv: "live (cnode c' a) \<Longrightarrow> live (cnode c a) \<or> currentTerm (store (cnode c a)) < currentTerm (store (cnode c' a))"
    and s: "replicates view E T (cnode c a) (cnode c' a)" and u: "unsnapped view ns c" "unsnapped view ns c'"
    and T: "\<And>t. t \<in> T \<Longrightarrow> (t, a) \<in> W"
  shows "\<exists>G'. matched view ns c' (W \<union> leaders ns c') (N \<union> made ns c') G'"
proof -
  have sn: "snapshotIndex (cnode c' a) = 0" and roomy: "Suc (last_of (view (wal (cnode c a)))) < 2 ^ 63"
    using u changesD(1) [OF ch] by (simp_all add: unsnapped_def)
  note pl = matched_plain [OF m changesD(1) [OF ch]]
  from s consider "sends view E T (cnode c a) (cnode c' a)" | "grows view (cnode c a) (cnode c' a)"
    unfolding replicates_def using laws sn pl roomy by blast
  then show ?thesis
  proof cases
    case 1
    from matched_sends [OF m ch laws lv this sn T] show ?thesis by blast
  next
    case 2
    from matched_grows [OF m ch lv this roomy] show ?thesis by blast
  qed
qed

text \<open>A step of a node whose requests come from the network.\<close>

lemma matched_net_step:
  assumes m: "matched view ns c W N G" and ch: "changes ns a c c' W N" and laws: "golog_laws E view"
    and lv: "live (cnode c' a) \<Longrightarrow> live (cnode c a) \<or> currentTerm (store (cnode c a)) < currentTerm (store (cnode c' a))"
    and s: "net_step E N a (cnode c a) (cnode c' a)" and u: "unsnapped view ns c" "unsnapped view ns c'"
  shows "\<exists>G'. matched view ns c' (W \<union> leaders ns c') (N \<union> made ns c') G'"
proof -
  have sn: "snapshotIndex (cnode c' a) = 0" "snapshotIndex (cnode c a) = 0"
    using u changesD(1) [OF ch] by (simp_all add: unsnapped_def)
  note pl = matched_plain [OF m changesD(1) [OF ch]]
  have h: "history ns (\<lambda>a. snd (view (wal (cnode c a)))) (\<lambda>a. currentTerm (store (cnode c a))) (\<lambda>a. live (cnode c a)) W N G"
    using m by (simp add: matched_def)
  show ?thesis
    using s
  proof cases
    case own
    have "(t, a) \<in> W" if "t \<in> led (cnode c a)" for t
      using that changesD(1,3) [OF ch] by (auto simp: led_def leaders_def split: if_splits)
    then show ?thesis by (intro matched_replicates [OF m ch laws lv local_step_replicates [OF own] u]) auto
  next
    case (deliver b p t l prev pt es ci)
    obtain ys where ys: "(t, b) \<in> W" "a \<noteq> b" "ys \<in> G" "part_of (0, ys) prev pt es"
      using historyD(9) [OF h deliver(1)] by auto
    from ends_states [OF deliver(2) HandleAppendEntries_follows]
    show ?thesis
    proof (elim disjE)
      assume "same_log (cnode c a) (cnode c' a)"
      from matched_sends [OF m ch laws lv same_log_sends [OF this, of view E "{}"] sn(1)] show ?thesis by auto
    next
      assume acc: "accepts E t prev pt es (cnode c a) (cnode c' a)"
      have lg: "fst (view (wal (cnode c' a))) = 0" "snd (view (wal (cnode c' a))) \<in> G"
        using accepts_known [OF h _ ys(3) laws _ sn(2) ys(4) acc] pl by auto
      have t: "currentTerm (store (cnode c' a)) = t" "spawned (cnode c' a) = spawned (cnode c a)"
        using acc by (simp_all add: accepts_def)
      have "(t, a) \<notin> W \<union> leaders ns c'" using changesD(7) [OF ch, of t a b] ys(1,2) by blast
      then have "matched view ns c' (W \<union> leaders ns c') (N \<union> made ns c') G"
        using t by (intro matched_known [OF m ch lg]) auto
      then show ?thesis by blast
    qed
  next
    case (answered p n t l prev pt es ci reply)
    have r: "(t, a) \<in> W" "n \<noteq> a" using historyD(9) [OF h answered(1)] by auto
    have "sends view E {t} (cnode c a) (cnode c' a)"
      by (rule ends_states [OF answered(2) sends_AppendEntries_reply]) (use r(2) changesD(2) [OF ch] in simp)
    from matched_sends [OF m ch laws lv this sn(1)] r(1) show ?thesis by blast
  qed
qed

text \<open>A process starts with the part of its log that it finds.\<close>

lemma matched_start:
  assumes m: "matched view ns c W N G" and ch: "changes ns a c c' W N"
    and ld: "loads_prefix E view" and b: "boot E gen machine (cnode c a) = Some (Ret (cnode c' a) p)"
    and u: "unsnapped view ns c" and nl: "\<not> live (cnode c' a)"
  shows "matched view ns c' (W \<union> leaders ns c') (N \<union> made ns c') G"
proof -
  have h: "history ns (\<lambda>a. snd (view (wal (cnode c a)))) (\<lambda>a. currentTerm (store (cnode c a))) (\<lambda>a. live (cnode c a)) W N G"
    using m by (simp add: matched_def)
  note pl = matched_plain [OF m changesD(1) [OF ch]]
  have "last_of (view (wal (cnode c a))) < 2 ^ 63" using u changesD(1) [OF ch] Suc_lessD by (fastforce simp: unsnapped_def)
  then obtain k where "view (gl_Load E (wal (cnode c a))) = (fst (view (wal (cnode c a))), take k (snd (view (wal (cnode c a)))))"
    using ld by (auto simp: loads_prefix_def)
  then show ?thesis
    using boot_log [OF b] pl historyD(2) [OF h] nl
    by (intro matched_known [OF m ch]) (auto simp: plain_def)
qed

lemma boot_live:
  assumes "on_disk r" and "vote_ok (votedFor (store r))" and "boot E gen machine r = Some (Ret r' p)"
  shows "\<not> live r' \<and> currentTerm (store r) \<le> currentTerm (store r')"
proof -
  obtain r0 where f: "frame r0 r'" and r0: "heap r0 = (\<lambda>_. None)" "role r0 = None"
    "currentTerm (store r0) = currentTerm (store r)"
    by (rule boot_frame [OF assms])
  have "\<not> live r0" using r0 by (simp add: live_def leads_def role_kind_of_def candidacy_def)
  then show ?thesis using live_frame [OF f] frame_kept [OF f] r0(3) by (auto simp: kept_def advances_def)
qed

section \<open>Every run of the network\<close>

lemma matched_cong:
  "cnode c' = cnode c \<Longrightarrow> matched view ns c' W N G = matched view ns c W N G"
  by (simp add: matched_def)

lemma seen_before: "cnode c' = cnode c \<Longrightarrow> leaders ns c \<subseteq> W \<Longrightarrow> made ns c \<subseteq> N \<Longrightarrow> W \<union> leaders ns c' = W \<and> N \<union> made ns c' = N"
  by (auto simp: leaders_def made_def)

lemma moves_matched:
  assumes mv: "moves (net_step E N) E ns c c'" and m: "matched view ns c W N G" and v: "valid ns c V W"
    and v': "valid ns c' V' (W \<union> leaders ns c')" and k: "leaders ns c \<subseteq> W" "made ns c \<subseteq> N"
    and u: "unsnapped view ns c" "unsnapped view ns c'" and laws: "golog_laws E view" "loads_prefix E view"
  shows "\<exists>G'. matched view ns c' (W \<union> leaders ns c') (N \<union> made ns c') G'"
proof -
  have one: "b = d" if "(t, b) \<in> W \<union> leaders ns c'" "(t, d) \<in> W \<union> leaders ns c'" for t b d
    by (rule unique_leader [OF v' that])
  have ch: "changes ns a c0 c' W N"
    if "a \<in> set ns" "cnode c0 a = cnode c a" "leaders ns c0 \<subseteq> W" "made ns c0 \<subseteq> N" "\<And>b. b \<noteq> a \<Longrightarrow> cnode c' b = cnode c0 b"
      "currentTerm (store (cnode c a)) \<le> currentTerm (store (cnode c' a))" for a c0
    using that one goodD(1) [OF validD(1) [OF v that(1)]] unfolding changes_def by auto
  have quiet: "matched view ns c1 W N G \<and> leaders ns c1 \<subseteq> W \<and> made ns c1 \<subseteq> N"
    if "cnode c1 = (cnode c)(a := (cnode c a)\<lparr>spawned := remove1 g (spawned (cnode c a))\<rparr>)" for a g and c1 :: "('a, 'b) cluster"
  proof -
    have eq: "leads (cnode c1 b) = leads (cnode c b)" "live (cnode c1 b) = live (cnode c b)" "store (cnode c1 b) = store (cnode c b)"
      "wal (cnode c1 b) = wal (cnode c b)" for b
      using that by (auto simp: live_def leads_def role_kind_of_def candidacy_def split: option.splits)
    have "made ns c1 \<subseteq> made ns c"
      using that set_remove1_subset [of g "spawned (cnode c a)"] by (auto simp: made_def split: if_splits)
    moreover have "leaders ns c1 = leaders ns c" by (simp add: leaders_def eq)
    ultimately show ?thesis using m k by (auto simp: matched_def eq)
  qed
  show ?thesis
    using mv
  proof cases
    case (local a r')
    have ns: "node_step E (cnode c a) (cnode c' a)" using local net_step_node_step by simp
    have ct: "currentTerm (store (cnode c a)) \<le> currentTerm (store (cnode c' a))"
      using node_step_kept [OF ns] by (simp add: kept_def advances_def)
    show ?thesis
      by (rule matched_net_step [OF m ch [of a] laws(1) live_node_step [OF validD(1) [OF v local(2)] ns] _ u])
        (use local k ct in auto)
  next
    case (ask a b p t me i lt r' t' granted)
    let ?c1 = "set_node a ((cnode c a)\<lparr>spawned := remove1 (SendRequestVote p b t me i lt) (spawned (cnode c a))\<rparr>) c"
    have q: "matched view ns ?c1 W N G" "leaders ns ?c1 \<subseteq> W" "made ns ?c1 \<subseteq> N"
      using quiet [of ?c1 a "SendRequestVote p b t me i lt"] by (simp_all add: set_node_def)
    have f: "frame (cnode c b) r'" "same_log (cnode c b) r'"
      using frame_HandleRequestVote [of "cnode c b" E t me i lt] same_log_HandleRequestVote [of "cnode c b" E t me i lt] ask(8)
      by simp_all
    have b': "cnode c' b = r'" "cnode ?c1 b = cnode c b" using ask(1,4) by simp_all
    have ct: "currentTerm (store (cnode c b)) \<le> currentTerm (store (cnode c' b))"
      using frame_kept [OF f(1)] b' by (simp add: kept_def advances_def)
    have "matched view ns c' (W \<union> leaders ns c') (N \<union> made ns c') G"
    proof (rule matched_sends [OF q(1) _ laws(1)])
      show "changes ns b ?c1 c' W N" using ask q ct by (intro ch) auto
      show "live (cnode ?c1 b) \<or> currentTerm (store (cnode ?c1 b)) < currentTerm (store (cnode c' b))" if "live (cnode c' b)"
        using live_frame [OF f(1)] that b' by simp
      show "sends view E {} (cnode ?c1 b) (cnode c' b)" using same_log_sends [OF f(2)] b' by simp
      show "snapshotIndex (cnode c' b) = 0" using u(2) ask(3) by (simp add: unsnapped_def)
    qed simp
    then show ?thesis by blast
  next
    case (unanswered a p b t me i lt)
    have "matched view ns c' W N G \<and> leaders ns c' \<subseteq> W \<and> made ns c' \<subseteq> N"
      using quiet [of c' a "SendRequestVote p b t me i lt"] unanswered(1) by (simp add: set_node_def)
    then show ?thesis by (metis Un_absorb2)
  next
    case (lost a p b t reply)
    then have "cnode c' = cnode c" by simp
    then show ?thesis using m seen_before [OF _ k] matched_cong by metis
  next
    case (answer a p b t reply r')
    have a': "cnode c' a = r'" using answer by simp
    note g = validD(1) [OF v answer(2)]
    have "(b, t) \<in># open_calls (calls c) a p" by (rule open_calls_member [OF answer(4)])
    then have T: "open_calls (calls c) a p \<noteq> {#}" by auto
    have "kept (cnode c a) r'"
      using ends_states [OF answer(5) RequestVote_reply_effect] frame_kept by (auto simp: tally_def)
    then have ct: "currentTerm (store (cnode c a)) \<le> currentTerm (store (cnode c' a))" by (simp add: a' kept_def advances_def)
    show ?thesis
      by (rule matched_replicates [OF m ch [of a] laws(1) _ _ u, where T = "{}"])
        (use answer k ct a' live_answer [OF g T answer(5)] ends_states [OF answer(5) replicates_RequestVote_reply] in auto)
  next
    case (crash a)
    then have "cnode c' = cnode c" by simp
    then show ?thesis using m seen_before [OF _ k] matched_cong by metis
  next
    case (start a g machine r' p)
    have a': "cnode c' a = r'" using start by simp
    note bl = boot_live [OF goodD(3) [OF validD(1) [OF v start(2)]] start(4,5)]
    have "matched view ns c' (W \<union> leaders ns c') (N \<union> made ns c') G"
      by (rule matched_start [OF m ch [of a] laws(2) _ u(1)]) (use start k bl a' in auto)
    then show ?thesis by blast
  qed
qed

lemma net_run_matched:
  assumes "net_run E view ns c V W N" and "distinct ns" "[] \<notin> set ns" and "golog_laws E view" "loads_prefix E view"
  shows "\<exists>G. matched view ns c W N G"
  using assms(1)
proof (induction rule: net_run.induct)
  case (net_start c)
  have "\<not> leads (cnode c a)" "spawned (cnode c a) = []" if "a \<in> set ns" for a
    using net_start(1) that by (auto simp: fresh_def leads_def role_kind_of_def split: option.splits)
  then have e: "leaders ns c = {}" "made ns c = {}" by (auto simp: leaders_def made_def)
  have "matched view ns c {} {} {[]}"
    unfolding matched_def
    by (intro conjI historyI)
      (use net_start(3) in \<open>auto simp: plain_def view_ok_def last_of_def last_term_def term_at_def entry_of_def\<close>)
  then show ?case using e by auto
next
  case (net_move c V W N c')
  from net_move.IH obtain G where m: "matched view ns c W N G" by blast
  have v: "valid ns c V W" using run_valid [OF net_run_run [OF net_move(1)] assms(2,3)] by simp
  have "net_run E view ns c' (V \<union> stamps ns c') (W \<union> leaders ns c') (N \<union> made ns c')"
    by (rule net_run.net_move [OF net_move(1,2,3)])
  then have v': "valid ns c' (V \<union> stamps ns c') (W \<union> leaders ns c')" using run_valid [OF net_run_run assms(2,3)] by blast
  note k = net_run_known [OF net_move(1)]
  show ?case by (rule moves_matched [OF net_move(2) m v v' _ _ _ net_move(3) assms(4,5)]) (use k in auto)
qed

end
