(* ===== verification/Samples.thy ===== *)
theory Samples
  imports Raft
begin

text \<open>
  Concrete parameters and nodes on which the witnesses of the properties are evaluated: an
  in-memory write-ahead log, a state machine that lists the commands it was given, a disk without
  faults, and the nodes of a cluster of three before their first start. \<open>node_simps\<close> unfolds the
  methods of a node.
\<close>

section \<open>Parameters\<close>

definition sample_env :: "(logview, bytes list) env" where
  "sample_env = golog.extend mem_golog
     (env.fields (\<lambda>s bs. Ret (s @ [bs]) AnyNil) (\<lambda>s. Some (concat s)) (\<lambda>s bs. (True, [bs])) 4)"

definition sample_config :: Config where
  "sample_config = DefaultConfig\<lparr>ElectionTimeoutMinTicks := 1, ElectionTimeoutMaxTicks := 1\<rparr>"

definition sample_store :: store where
  "sample_store =
     \<lparr>commitIndex = 0, currentTerm = 0, lastApplied = 0, leaderId = [], storeName = [115], votedFor = []\<rparr>"

definition sample_rng :: rng where
  "sample_rng = \<lparr>rngValues = (\<lambda>_. 0), rngDrawn = 0\<rparr>"

definition empty_disk :: disk where
  "empty_disk = \<lparr>files = (\<lambda>_. None), stale = [], faults = (\<lambda>_. None), ios = 0\<rparr>"

definition blank :: "gostring list \<Rightarrow> gostring \<Rightarrow> (logview, bytes list) raft" where
  "blank ns a =
     \<lparr>config = sample_config, dataDir = [], enabled = True, fsm = [], healthy = True, nid = a,
      wal = (0, []), nodes = ns, rgen = sample_rng, role = None, roleEpoch = 0, snapshotIndex = 0,
      snapshotTerm = 0, sessions = NewSessionTable, store = sample_store, shutdownClosed = False,
      heap = (\<lambda>_. None), nextPtr = 0, chans = (\<lambda>_. None), nextChan = 0, spawned = [],
      fdisk = empty_disk\<rparr>"

definition trio :: "gostring list" where
  "trio = [[97], [98], [99]]"

text \<open>A follower and a leader of the cluster, with a given log.\<close>

definition sample_follower :: "logview \<Rightarrow> (logview, bytes list) raft" where
  "sample_follower l = (blank trio [98])\<lparr>wal := l, role := Some 0,
     heap := [0 \<mapsto> Follower \<lparr>f_electionDeadline = 1, f_electionTicks = 0\<rparr>], nextPtr := 1,
     store := sample_store\<lparr>currentTerm := 2\<rparr>\<rparr>"

definition sample_leader :: "logview \<Rightarrow> (gostring \<Rightarrow> u64) \<Rightarrow> (logview, bytes list) raft" where
  "sample_leader l matches = (blank trio [97])\<lparr>wal := l, role := Some 0,
     heap := [0 \<mapsto> Leader ((NewLeaderRole sample_config)\<lparr>l_matchIndex := matches\<rparr>)], nextPtr := 1,
     store := sample_store\<lparr>currentTerm := 2, leaderId := [97]\<rparr>\<rparr>"

section \<open>Evaluation\<close>

lemma sample_env_ops [node_simps]:
  "gl_GetLastIndex sample_env = gl_GetLastIndex mem_golog" "gl_Read sample_env = gl_Read mem_golog"
  "gl_Write sample_env = gl_Write mem_golog" "gl_WriteCommit sample_env = gl_WriteCommit mem_golog"
  "gl_Commit sample_env = gl_Commit mem_golog" "gl_Load sample_env = gl_Load mem_golog"
  "gl_TruncateFrom sample_env = gl_TruncateFrom mem_golog" "gl_TruncateTo sample_env = gl_TruncateTo mem_golog"
  "gl_ReplaceSegments sample_env = gl_ReplaceSegments mem_golog"
  "fsmApply sample_env = (\<lambda>s bs. Ret (s @ [bs]) AnyNil)" "fsmSnapshot sample_env = (\<lambda>s. Some (concat s))"
  "fsmRestore sample_env = (\<lambda>s bs. (True, [bs]))" "stackDepth sample_env = 4"
  by (simp_all add: sample_env_def golog.defs env.defs)

lemma sample_env_laws: "golog_laws sample_env (\<lambda>l. l)"
  using mem_golog_laws by (simp add: golog_laws_def node_simps)

lemmas sample_defs [node_simps] = mem_golog_def blank_def sample_config_def DefaultConfig_def sample_store_def
  sample_rng_def empty_disk_def trio_def sample_follower_def sample_leader_def

lemmas disk_defs [node_simps] = io_def os_Open_def os_plain_def os_OpenTrunc_def os_Write_def os_Sync_def
  os_Rename_def os_SyncDir_def set_files_def change_dir_def content_of_def

lemmas store_defs [node_simps] = NewStore_def store_read_def on_store_def IncrementCurrentTerm_def
  SetVotedFor_def SetCurrentTermAndVotedFor_def store_write_def store_write_steps_def SetLeaderId_def upd_store_def

lemmas role_defs [node_simps] = becomeFollower_def exit_role_def OnExit_def NewFollowerRole_eq
  electionDeadline_of_def IntN_def Follower_OnEnter_def becomeCandidate_def NewCandidateRole_def alloc_def
  Candidate_OnEnter_def with_candidate_def startPreElection_def startElection_def upd_candidate_def
  with_follower_def upd_follower_def with_leader_def upd_leader_def becomeLeader_def Leader_OnEnter_def
  NewLeaderRole_def init_progress_def own_progress_def go_def go_all_eq peers_def leads_def role_kind_of_def
  markUnhealthy_def resetElectionTimer_def Let_def

lemmas leader_defs [node_simps] = sendAppendEntriesToAllNodes_def send_to_def set_inflight_def
  append_request_def prev_term_def batch_def tryToAdvanceCommitIndex_def majority_match_def
  setCommitIndex_def triggerApplier_def lease_expired_def lease_acked_def

lemmas method_defs [node_simps] = NewRaft_def recover_snapshot_def replay_log_def LoadSnapshot_def
  snapshotPath_def Tick_def on_role_def Follower_Tick_def HandleRequestVote_def decide_vote_def
  isLogEqualOrMoreRecent_def getLastLogEntryIndexAndTerm_def GetLastLogEntryIndexAndTerm_def
  PreVote_reply_def RequestVote_reply_def recover_vote_def last_of_def entry_of_def

text \<open>The entry a new leader appends is read back.\<close>

lemma noop_entry [node_simps]:
  "DeserializeLogEntry (Serialize \<lparr>Data = [], Term = t, ClientId = [], SequenceNumber = 0\<rparr>)
     = Inr \<lparr>Data = [], Term = t, ClientId = [], SequenceNumber = 0\<rparr>"
  by (simp add: entry.dec_enc recoverable_def looks_like_session_def)

lemma sample_entry_read [node_simps]:
  "DeserializeLogEntry (Serialize (sample_entry t [b])) = Inr (sample_entry t [b])"
  by (simp add: entry.dec_enc recoverable_def sample_entry_def looks_like_session_def)

end
