(* ===== verification/Sample_Run.thy ===== *)
theory Sample_Run
  imports Network Samples
begin

text \<open>
  A run of three nodes on which the properties of the cluster are evaluated: two processes start,
  one asks for votes and is elected, appends its first entry and replicates it to the other.
\<close>

fun result_of :: "('r, 'a) outcome \<Rightarrow> 'r option" where
  "result_of (Ret r a) = Some r"
| "result_of (Panic r) = Some r"
| "result_of NoReturn = None"

definition booted :: "gostring \<Rightarrow> (logview, bytes list) raft" where
  "booted a = the (result_of (the (boot sample_env sample_rng [] (blank trio a))))"

definition asking :: "(logview, bytes list) raft" where
  "asking = the (result_of (Tick sample_env (booted [97])))"

definition running :: "(logview, bytes list) raft" where
  "running = the (result_of (PreVote_reply sample_env 1 0 (0, True) asking))"

definition voter :: "(logview, bytes list) raft" where
  "voter = the (result_of (HandleRequestVote sample_env 1 [97] 0 0 (booted [98])))"

definition standing :: "goroutine list \<Rightarrow> disk \<Rightarrow> (logview, bytes list) raft" where
  "standing gs d = (blank trio [97])\<lparr>rgen := sample_rng\<lparr>rngDrawn := 2\<rparr>, role := Some 1, roleEpoch := 2,
     store := sample_store\<lparr>currentTerm := 1, votedFor := [97]\<rparr>,
     heap := [0 \<mapsto> Follower \<lparr>f_electionDeadline = 1, f_electionTicks = 1\<rparr>,
              1 \<mapsto> Candidate \<lparr>c_electionDeadline = 1, c_electionTicks = 0, c_majority = Suc (Suc 0),
                 c_nodes = trio, c_preVote = False, c_preVotes = Suc (Suc 0), c_votes = 1\<rparr>], nextPtr := 2,
     spawned := gs, fdisk := d\<rparr>"

lemma booted: "boot sample_env sample_rng [] (blank trio a) = Some (Ret (booted a) 0)"
  by (simp add: booted_def boot_def node_simps)

lemma asking: "Tick sample_env (booted [97]) = Ret asking ()" "room (booted [97])"
  "room asking" "1 < nextPtr asking"
  by (simp_all add: asking_def booted_def boot_def room_def node_simps)

lemma running: "PreVote_reply sample_env 1 0 (0, True) asking = Ret running ()"
  by (simp add: running_def asking_def booted_def boot_def node_simps)

lemma running_eq:
  "\<exists>d. running = standing [SendPreVote 1 [98] 0 [97] 0 0, SendPreVote 1 [99] 0 [97] 0 0,
     SendRequestVote 1 [98] 1 [97] 0 0, SendRequestVote 1 [99] 1 [97] 0 0] d"
  by (simp add: running_def asking_def booted_def boot_def standing_def node_simps)

lemma voter: "HandleRequestVote sample_env 1 [97] 0 0 (booted [98]) = Ret voter (1, True)"
  by (simp add: voter_def booted_def boot_def node_simps eval_nat_numeral)

definition noop :: LogEntry where
  "noop = \<lparr>Data = [], Term = 1, ClientId = [], SequenceNumber = 0\<rparr>"

definition follower_copy :: "(logview, bytes list) raft" where
  "follower_copy = the (result_of (HandleAppendEntries sample_env 1 [97] 0 0 [noop] 0 voter))"

lemma standing_wins:
  "\<exists>r' q. RequestVote_reply sample_env 1 1 (1, True) (standing gs d) = Ret r' ()
     \<and> leads r' \<and> currentTerm (store r') = 1 \<and> wal r' = (0, [Serialize noop]) \<and> snapshotIndex r' = 0
     \<and> SendAppendEntries 2 [98] 1 [97] 0 0 [noop] 0 \<in> set (spawned r')"
  by (simp add: standing_def noop_def node_simps)

lemma follower_copy:
  "HandleAppendEntries sample_env 1 [97] 0 0 [noop] 0 voter = Ret follower_copy (1, True, 0, 0)"
  "wal follower_copy = (0, [Serialize noop])" "snapshotIndex follower_copy = 0"
  by (simp_all add: follower_copy_def voter_def booted_def boot_def noop_def node_simps HandleAppendEntries_def
      accept_append_def checkLogConsistency_def appendEntries_def write_and_commit_def
      applyToFiniteStateMachine_follower_def eval_nat_numeral)

lemma sample_logs:
  "wal (blank trio a) = (0, [])" "snapshotIndex (blank trio a) = 0" "wal (booted a) = (0, [])" "snapshotIndex (booted a) = 0"
  "wal asking = (0, [])" "snapshotIndex asking = 0" "wal running = (0, [])" "snapshotIndex running = 0"
  by (simp_all add: running_def asking_def booted_def boot_def node_simps)

lemma voter_log: "wal voter = (0, [])" "snapshotIndex voter = 0"
  by (simp_all add: voter_def booted_def boot_def node_simps eval_nat_numeral)

lemma unsnapped_trio:
  "unsnapped (\<lambda>l. l) trio c \<longleftrightarrow>
     (snapshotIndex (cnode c [97]) = 0 \<and> Suc (last_of (wal (cnode c [97]))) < 2 ^ 63)
     \<and> (snapshotIndex (cnode c [98]) = 0 \<and> Suc (last_of (wal (cnode c [98]))) < 2 ^ 63)
     \<and> (snapshotIndex (cnode c [99]) = 0 \<and> Suc (last_of (wal (cnode c [99]))) < 2 ^ 63)"
  by (simp add: unsnapped_def trio_def)

lemmas sample_unsnapped = unsnapped_trio last_of_def sample_logs voter_log follower_copy(2,3)

lemma sample_loads: "loads_prefix sample_env (\<lambda>l. l)"
  by (auto simp: loads_prefix_def node_simps) (metis order_refl take_all)

lemma net_moves:
  assumes "\<exists>V W N. net_run E view ns c V W N \<and> N0 \<subseteq> N" and "\<And>N. N0 \<subseteq> N \<Longrightarrow> moves (net_step E N) E ns c c'"
    and "unsnapped view ns c'" and "N1 \<subseteq> N0 \<union> made ns c'"
  shows "\<exists>V W N. net_run E view ns c' V W N \<and> N1 \<subseteq> N"
proof -
  obtain V W N where r: "net_run E view ns c V W N" "N0 \<subseteq> N" using assms(1) by blast
  from net_move [OF r(1) assms(2) [OF r(2)] assms(3)] show ?thesis using assms(4) r(2) by blast
qed

lemma sample_election:
  "\<exists>c V W N c'. net_run sample_env (\<lambda>l. l) trio c V W N \<and> moves (net_step sample_env N) sample_env trio c c'
     \<and> unsnapped (\<lambda>l. l) trio c' \<and> leads (cnode c' [97]) \<and> currentTerm (store (cnode c' [97])) = 1
     \<and> wal (cnode c [97]) = (0, []) \<and> wal (cnode c' [97]) = (0, [Serialize noop])
     \<and> SendAppendEntries 2 [98] 1 [97] 0 0 [noop] 0 \<in> set (spawned (cnode c' [97]))
     \<and> up c' [98] \<and> cnode c' [98] = voter"
proof -
  let ?run = "\<lambda>c N0. \<exists>V W N. net_run sample_env (\<lambda>l. l) trio c V W N \<and> N0 \<subseteq> N"
  let ?c0 = "\<lparr>cnode = blank trio, up = (\<lambda>_. False), calls = []\<rparr>"
  let ?c1 = "(set_node [97] (booted [97]) ?c0)\<lparr>up := (up ?c0)([97] := True)\<rparr>"
  let ?c2 = "(set_node [98] (booted [98]) ?c1)\<lparr>up := (up ?c1)([98] := True)\<rparr>"
  let ?c3 = "set_node [97] asking ?c2"
  let ?c4 = "set_node [97] running ?c3"
  let ?g = "SendRequestVote 1 [98] 1 [97] 0 0"
  let ?h = "SendAppendEntries 2 [98] 1 [97] 0 0 [noop] 0"
  let ?c5 = "(set_node [98] voter (set_node [97] (running\<lparr>spawned := remove1 ?g (spawned running)\<rparr>) ?c4))
     \<lparr>calls := [([97], 1, [98], 1, 1, True)]\<rparr>"
  have trio: "[97] \<in> set trio" "[98] \<in> set trio" by (simp_all add: trio_def)
  have "fresh trio ?c0"
    by (simp add: fresh_def blank_def on_disk_def snapshotPath_def sample_store_def empty_disk_def)
  moreover have "unsnapped (\<lambda>l. l) trio ?c0" by (simp add: sample_unsnapped)
  ultimately have r0: "?run ?c0 {}" using net_start [of trio ?c0 "\<lambda>l. l" sample_env] by (auto simp: sample_logs)
  have up: "moves (net_step sample_env N) sample_env trio c ((set_node a (booted a) c)\<lparr>up := (up c)(a := True)\<rparr>)"
    if "a \<in> set trio" "\<not> up c a" "cnode c a = blank trio a" for N a c
    by (rule moves.start [OF that(1), where g = sample_rng and machine = "[]" and p = 0])
      (use that booted in simp_all, simp add: node_simps vote_ok_def)
  have r1: "?run ?c1 {}" using net_moves [OF r0 up, of "[97]" "{}"] trio by (auto simp: sample_unsnapped)
  have r2: "?run ?c2 {}" using net_moves [OF r1 up, of "[98]" "{}"] trio by (auto simp: sample_unsnapped)
  have "local_step sample_env (booted [97]) asking"
    by (rule local_step.tick [OF asking(2)]) (simp add: asking(1) ends_def)
  then have "moves (net_step sample_env N) sample_env trio ?c2 ?c3" for N
    by (intro moves.local [OF trio(1)] net_step.own) simp_all
  then have r3: "?run ?c3 {}" using net_moves [OF r2, of ?c3 "{}"] by (auto simp: sample_unsnapped)
  have "local_step sample_env asking running"
    by (rule local_step.pre_vote_answer [OF asking(3,4), where t = 0 and reply = "(0, True)"])
      (simp only: running ends_def, blast)
  then have "moves (net_step sample_env N) sample_env trio ?c3 ?c4" for N
    by (intro moves.local [OF trio(1)] net_step.own) simp_all
  then have r4: "?run ?c4 {}" using net_moves [OF r3, of ?c4 "{}"] by (auto simp: sample_unsnapped)
  obtain d where d: "running = standing [SendPreVote 1 [98] 0 [97] 0 0, SendPreVote 1 [99] 0 [97] 0 0, ?g,
     SendRequestVote 1 [99] 1 [97] 0 0] d"
    using running_eq by blast
  have g: "?g \<in> set (spawned running)" unfolding d by (simp add: standing_def)
  have "moves (net_step sample_env N) sample_env trio ?c4 ?c5" for N
    using moves.ask [of "[97]" trio "[98]" ?c4 1 1 "[97]" 0 0 sample_env voter 1 True] trio g voter by simp
  then have r5: "?run ?c5 {}" using net_moves [OF r4, of ?c5 "{}"] by (auto simp: sample_unsnapped)
  have "running\<lparr>spawned := gs\<rparr> = standing gs d" for gs unfolding d by (simp add: standing_def)
  then obtain r' where r': "RequestVote_reply sample_env 1 1 (1, True) (cnode ?c5 [97]) = Ret r' ()" "leads r'"
    "currentTerm (store r') = 1" "wal r' = (0, [Serialize noop])" "snapshotIndex r' = 0" "?h \<in> set (spawned r')"
    using standing_wins by fastforce
  let ?c6 = "(set_node [97] r' ?c5)\<lparr>calls := remove1 ([97], 1, [98], 1, 1, True) (calls ?c5)\<rparr>"
  have s6: "moves (net_step sample_env N) sample_env trio ?c5 ?c6" for N
    by (rule moves.answer [OF trio(1)]) (use r'(1) in \<open>simp_all add: ends_def\<close>)
  obtain V W N where "net_run sample_env (\<lambda>l. l) trio ?c5 V W N" using r5 by blast
  with s6 [of N] r' show ?thesis
    by (intro exI [of _ ?c5] exI [of _ V] exI [of _ W] exI [of _ N] exI [of _ ?c6]) (simp add: sample_unsnapped)
qed

lemma sample_run:
  "\<exists>c V W N. net_run sample_env (\<lambda>l. l) trio c V W N \<and> (1, [97]) \<in> W
     \<and> wal (cnode c [97]) = (0, [Serialize noop]) \<and> wal (cnode c [98]) = (0, [Serialize noop])"
proof -
  let ?h = "SendAppendEntries 2 [98] 1 [97] 0 0 [noop] 0"
  have trio: "[97] \<in> set trio" "[98] \<in> set trio" by (simp_all add: trio_def)
  obtain c0 V0 W0 N0 c where r: "net_run sample_env (\<lambda>l. l) trio c0 V0 W0 N0" "moves (net_step sample_env N0) sample_env trio c0 c"
    "unsnapped (\<lambda>l. l) trio c" and c: "leads (cnode c [97])" "currentTerm (store (cnode c [97])) = 1"
    "wal (cnode c [97]) = (0, [Serialize noop])" "?h \<in> set (spawned (cnode c [97]))" "up c [98]" "cnode c [98] = voter"
    using sample_election by blast
  have "([97], ?h) \<in> made trio c" "(1, [97]) \<in> leaders trio c" using trio(1) c by (auto simp: made_def leaders_def)
  then obtain V W N where n: "net_run sample_env (\<lambda>l. l) trio c V W N" "(1, [97]) \<in> W" "([97], ?h) \<in> N"
    using net_move [OF r] by blast
  let ?c = "set_node [98] follower_copy c"
  have "net_step sample_env N [98] (cnode c [98]) follower_copy"
    by (rule net_step.deliver [OF n(3)]) (use follower_copy(1) c(6) in \<open>auto simp: ends_def\<close>)
  then have "moves (net_step sample_env N) sample_env trio c ?c" by (rule moves.local [OF trio(2) c(5)])
  moreover have "unsnapped (\<lambda>l. l) trio ?c" using r(3) by (simp add: sample_unsnapped)
  ultimately obtain V' W' N' where "net_run sample_env (\<lambda>l. l) trio ?c V' W' N'" "W \<subseteq> W'"
    using net_move [OF n(1)] by blast
  then show ?thesis using n(2) c(3) follower_copy(2) by (intro exI [of _ ?c]) auto
qed

end
