(* ===== verification/Election_Safety.thy ===== *)
theory Election_Safety
  imports Sample_Run
begin

text \<open>
  The safety of the elections of a cluster, and what every step of a node keeps.
\<close>

section \<open>Logs of voters\<close>

text \<open>\<open>recent mine i t\<close>: a log that ends at index \<open>i\<close> in term \<open>t\<close> is as recent as one that ends at \<open>mine\<close>.\<close>

definition recent :: "u64 \<times> u64 \<Rightarrow> u64 \<Rightarrow> u64 \<Rightarrow> bool" where
  "recent mine index term \<longleftrightarrow> snd mine < term \<or> snd mine = term \<and> fst mine \<le> index"

lemma isLogEqualOrMoreRecent_iff:
  "isLogEqualOrMoreRecent E r i lt \<longleftrightarrow> recent (getLastLogEntryIndexAndTerm E r) i lt"
  by (auto simp: isLogEqualOrMoreRecent_def recent_def split: prod.splits)

lemma same_log_last: "same_log r r1 \<Longrightarrow> getLastLogEntryIndexAndTerm E r1 = getLastLogEntryIndexAndTerm E r"
  unfolding getLastLogEntryIndexAndTerm_def same_log_def by (elim conjE) (simp only:)

lemma Follower_vote_recent:
  "Follower_HandleRequestVote n E p t c i lt r = Ret r' (t', True) \<Longrightarrow> recent (getLastLogEntryIndexAndTerm E r) i lt"
proof (induction n arbitrary: p r)
  case (Suc n)
  show ?case
  proof (cases "currentTerm (store r) < t")
    case True
    then obtain r1 q where r1: "becomeFollower t r = Ret r1 q"
      and h: "Follower_HandleRequestVote n E q t c i lt r1 = Ret r' (t', True)"
      using Suc.prems by (auto split: if_splits)
    have "same_log r r1" using same_log_becomeFollower [of r t] r1 by simp
    then show ?thesis using Suc.IH [OF h] same_log_last by metis
  next
    case False
    then have "decide_vote E p c i lt r = Ret r' (t', True)" using Suc.prems by (auto split: if_splits)
    then show ?thesis by (auto simp: decide_vote_def Let_def isLogEqualOrMoreRecent_iff split: if_splits)
  qed
qed simp

lemma vote_recent:
  assumes "HandleRequestVote E t c i lt r = Ret r' (t', True)"
  shows "recent (getLastLogEntryIndexAndTerm E r) i lt"
proof -
  have via: "recent (getLastLogEntryIndexAndTerm E r) i lt"
    if "bindO (becomeFollower t r) (\<lambda>r q. Follower_HandleRequestVote (stackDepth E) E q t c i lt r) = Ret r' (t', True)"
  proof -
    from that obtain r1 q where r1: "becomeFollower t r = Ret r1 q"
      and h: "Follower_HandleRequestVote (stackDepth E) E q t c i lt r1 = Ret r' (t', True)" by auto
    have "same_log r r1" using same_log_becomeFollower [of r t] r1 by simp
    then show ?thesis using Follower_vote_recent [OF h] same_log_last by metis
  qed
  show ?thesis
    using assms Follower_vote_recent via
    by (auto simp: HandleRequestVote_def on_role_def Candidate_HandleRequestVote_def Leader_HandleRequestVote_def
        split: if_splits option.splits role_obj.splits)
qed

section \<open>Properties\<close>

text \<open>
  C1. Election safety: in every run of a cluster, with messages lost, reordered, duplicated or
  made up, processes that crash between steps and start again from their disks, disks that fail,
  and role objects that outlive their role, two nodes that were leader in the same term, at the
  same or at different moments, are the same node. The node identifiers must be distinct and not
  empty, answers to vote requests must be what the voter answered, and terms stay below the
  last one of 64 bits.
\<close>

theorem election_safety:
  assumes "run E ns c V W" and "distinct ns" and "[] \<notin> set ns"
    and "(t, a) \<in> W" and "(t, b) \<in> W"
  shows "a = b"
  using unique_leader [OF _ assms(4,5)] run_valid [OF assms(1-3)] by blast

theorem election_safety_witness: "\<exists>c V W. run sample_env trio c V W \<and> {b. (1, b) \<in> W} = {[97]}"
proof -
  obtain c V W where r: "run sample_env trio c V W" and w: "(1, [97]) \<in> W" using sample_run net_run_run by blast
  have "b = [97]" if "(1, b) \<in> W" for b
    by (rule election_safety [OF r _ _ that w]) (simp_all add: trio_def)
  with r w show ?thesis by blast
qed

text \<open>
  C14. Whatever step a node takes, the answers to its vote requests among them, its term and its
  commit index do not decrease, a vote it has cast does not change while the term stays, and its
  store and the store's file agree afterwards if they did before. Ticks and the answers to
  pre-votes, which raise the term by one, must find it below the last one of 64 bits.
\<close>

theorem node_steps_monotone:
  assumes "any_step E r r'"
  shows "currentTerm (store r) \<le> currentTerm (store r')
    \<and> commitIndex (store r) \<le> commitIndex (store r')
    \<and> (currentTerm (store r) < currentTerm (store r') \<or> votedFor (store r) = []
        \<or> votedFor (store r') = votedFor (store r))
    \<and> (on_disk r \<longrightarrow> on_disk r')"
  using any_step_kept [OF assms] by (auto simp: kept_def advances_def order.strict_iff_order)

theorem node_steps_monotone_witness:
  "currentTerm (store (booted [97])) \<le> currentTerm (store asking)
   \<and> commitIndex (store (booted [97])) \<le> commitIndex (store asking)"
proof -
  have "any_step sample_env (booted [97]) asking"
    by (rule any_step.node, rule node_step.own, rule local_step.tick [OF asking(2)]) (simp add: asking(1) ends_def)
  from node_steps_monotone [OF this] show ?thesis by blast
qed

text \<open>
  C10. A node that grants a vote answers with its current term, holds the vote in memory and on
  disk when it answers, had given no other vote in that term, and has a log that ends in an older
  term than the candidate's, or in the same term at an index that is not greater.
\<close>

theorem request_vote_granted:
  assumes "HandleRequestVote E t c i lt r = Ret r' (t', True)"
  shows "t' = currentTerm (store r') \<and> votedFor (store r') = c \<and> persisted (store r') (fdisk r')
    \<and> currentTerm (store r) \<le> t'
    \<and> (currentTerm (store r) < t' \<or> votedFor (store r) = [] \<or> votedFor (store r) = c)
    \<and> recent (getLastLogEntryIndexAndTerm E r) i lt"
proof -
  have "frame r r'" using frame_HandleRequestVote [of r E t c i lt] assms by simp
  then have "currentTerm (store r) \<le> currentTerm (store r')" by (simp add: frame_def kept_def advances_def)
  then show ?thesis using HandleRequestVote_granted [OF assms] vote_recent [OF assms] by (auto simp: order.strict_iff_order)
qed

theorem request_vote_granted_witness:
  "votedFor (store voter) = [97] \<and> persisted (store voter) (fdisk voter)"
  using request_vote_granted [OF voter] by simp

end
