(* ===== verification/Cluster_Logs.thy ===== *)
theory Cluster_Logs
  imports Sample_Run
begin

text \<open>
  The logs of a cluster: that they match at all times, and that a leader only appends to its own.
\<close>

section \<open>The log of a leader\<close>

lemma HandleAppendEntries_leads: "on_states (\<lambda>r'. leads r' \<longrightarrow> same_log r r') (HandleAppendEntries E t l prev pt es ci r)"
proof (cases "leads r")
  case False
  then show ?thesis
    by (intro on_states_mono [OF frame_HandleAppendEntries]) (simp add: frame_def)
next
  case True
  have "on_states (\<lambda>r'. leads r' \<longrightarrow> same_log r r') (Leader_HandleAppendEntries E t l prev pt es ci r)"
  proof -
    have "on_states (\<lambda>r'. leads r' \<longrightarrow> same_log r r') (bindO (becomeFollower t r)
        (\<lambda>r q. Follower_HandleAppendEntries (stackDepth E) E q t l prev pt es ci r))"
    proof (cases "becomeFollower t r")
      case (Ret r1 q)
      have "\<not> leads r1" by (rule becomeFollower_not_leads [OF Ret])
      then have "on_states (\<lambda>r'. leads r' \<longrightarrow> same_log r r') (Follower_HandleAppendEntries (stackDepth E) E q t l prev pt es ci r1)"
        by (intro on_states_mono [OF frame_Follower_AppendEntries]) (simp add: frame_def)
      then show ?thesis using Ret by simp
    qed (use same_log_becomeFollower [of r t] in simp_all)
    then show ?thesis by (simp add: Leader_HandleAppendEntries_def same_log.R_refl)
  qed
  moreover have "\<exists>p x. role r = Some p \<and> heap r p = Some (Leader x)"
    using True by (auto simp: leads_def role_kind_of_def split: option.splits) (metis GetType.elims role_kind.distinct)
  ultimately show ?thesis by (auto simp: HandleAppendEntries_def on_role_def same_log.R_refl)
qed

lemma replicates_prefix:
  assumes "replicates view E T r r'" and "golog_laws E view" "snapshotIndex r' = 0" "plain (view (wal r))"
    "Suc (last_of (view (wal r))) < 2 ^ 63"
  shows "prefix (snd (view (wal r))) (snd (view (wal r')))"
  using assms by (auto simp: replicates_def sends_def grows_def)

lemma net_step_prefix:
  assumes "net_step E N a r r'" and "leads r'" and "golog_laws E view" "snapshotIndex r' = 0" "plain (view (wal r))"
    "Suc (last_of (view (wal r))) < 2 ^ 63" and N: "\<And>x. x \<in> N \<Longrightarrow> request_ok W G x" and "nid r = a"
  shows "prefix (snd (view (wal r))) (snd (view (wal r')))"
  using assms(1)
proof cases
  case own
  then show ?thesis using replicates_prefix [OF local_step_replicates assms(3-6)] by blast
next
  case (deliver b p t l prev pt es ci)
  then show ?thesis using ends_states [OF deliver(2) HandleAppendEntries_leads] assms(2) by (simp add: same_log_def)
next
  case (answered p n t l prev pt es ci reply)
  have "n \<noteq> nid r" using N [OF answered(1)] assms(8) by simp
  from ends_states [OF answered(2) sends_AppendEntries_reply [OF this, of view]]
  show ?thesis by (intro replicates_prefix [OF sends_replicates assms(3-6)])
qed

lemma moves_prefix:
  assumes mv: "moves (net_step E N) E ns c c'" and m: "matched view ns c W N G" and v: "valid ns c V W"
    and u: "unsnapped view ns c" "unsnapped view ns c'" and laws: "golog_laws E view"
    and a: "a \<in> set ns" and ld: "leads (cnode c' a)"
  shows "prefix (snd (view (wal (cnode c a)))) (snd (view (wal (cnode c' a))))"
proof (cases "cnode c' a = cnode c a")
  case False
  have N: "\<And>x. x \<in> N \<Longrightarrow> request_ok W G x" using m historyD(9) unfolding matched_def by blast
  have s: "snapshotIndex (cnode c' a) = 0" "Suc (last_of (view (wal (cnode c a)))) < 2 ^ 63"
    using u a by (simp_all add: unsnapped_def)
  note side = laws s(1) conjunct1 [OF matched_plain [OF m a]] s(2)
  note rep = replicates_prefix [OF _ side]
  show ?thesis
    using mv
  proof cases
    case (local b r')
    then have "net_step E N a (cnode c a) (cnode c' a)" using False by (auto split: if_splits)
    then show ?thesis by (rule net_step_prefix [OF _ ld side N goodD(1) [OF validD(1) [OF v a]]])
  next
    case (ask b d p t me i lt r' t' granted)
    have "same_log (cnode c d) r'" using same_log_HandleRequestVote [of "cnode c d" E t me i lt] ask(8) by simp
    then have "wal (cnode c' a) = wal (cnode c a)" by (simp add: ask(1) set_node_def same_log_def)
    then show ?thesis by simp
  next
    case (unanswered b p d t me i lt)
    then have "wal (cnode c' a) = wal (cnode c a)" by (simp add: set_node_def)
    then show ?thesis by simp
  next
    case (answer b p d t reply r')
    have ba: "b = a" "r' = cnode c' a" using False answer(1) by (auto split: if_splits)
    show ?thesis by (rule rep [OF ends_states [OF answer(5) [unfolded ba] replicates_RequestVote_reply]])
  next
    case (start b g machine r' p)
    have ba: "b = a" "r' = cnode c' a" using False start(1) by (auto split: if_splits)
    have "\<not> live (cnode c' a)"
      using boot_live [OF goodD(3) [OF validD(1) [OF v a]] start(4,5) [unfolded ba]] by simp
    then show ?thesis using ld by (simp add: live_def)
  qed (use False in auto)
qed simp

section \<open>Properties\<close>

text \<open>
  C2. Log matching across the cluster, in runs in which no snapshot takes effect: at every moment of such
  a run, if the logs of two nodes have entries of the same term at an index, they agree at that index
  and at every index before it. Requests and their answers may be lost, delayed, repeated and
  reordered, but not made up; answers may be anything. Processes crash and start again with a prefix
  of the log they had, writes to logs and disks fail, and a node may send requests of a term it led
  earlier. The write-ahead log keeps its laws, logs have fewer than 2^63 entries, and the addresses
  of the nodes are distinct and not empty. With snapshots the property fails: a lost answer makes a
  follower that compacted its log write entries again at other indices.
\<close>

theorem cluster_logs_match:
  assumes "net_run E view ns c V W N" and "distinct ns" "[] \<notin> set ns"
    and "golog_laws E view" "loads_prefix E view" and "a \<in> set ns" "b \<in> set ns"
  shows "matching (view (wal (cnode c a))) (view (wal (cnode c b)))"
proof -
  obtain G where m: "matched view ns c W N G" using net_run_matched [OF assms(1-5)] by blast
  then have h: "history ns (\<lambda>a. snd (view (wal (cnode c a)))) (\<lambda>a. currentTerm (store (cnode c a))) (\<lambda>a. live (cnode c a)) W N G"
    by (simp add: matched_def)
  note pa = matched_plain [OF m assms(6)] and pb = matched_plain [OF m assms(7)]
  have "view (wal (cnode c a)) = (0, snd (view (wal (cnode c a))))" "view (wal (cnode c b)) = (0, snd (view (wal (cnode c b))))"
    using pa pb by (simp_all add: plain_def prod_eq_iff)
  then show ?thesis using history_matching [OF h conjunct2 [OF pa] conjunct2 [OF pb]] by metis
qed

theorem cluster_logs_match_witness:
  "\<exists>c V W N. net_run sample_env (\<lambda>l. l) trio c V W N
     \<and> wal (cnode c [97]) = (0, [Serialize noop]) \<and> wal (cnode c [98]) = (0, [Serialize noop])
     \<and> matching (wal (cnode c [97])) (wal (cnode c [98]))"
proof -
  obtain c V W N where r: "net_run sample_env (\<lambda>l. l) trio c V W N"
    and w: "wal (cnode c [97]) = (0, [Serialize noop])" "wal (cnode c [98]) = (0, [Serialize noop])"
    using sample_run by blast
  have "matching (wal (cnode c [97])) (wal (cnode c [98]))"
    by (rule cluster_logs_match [OF r _ _ sample_env_laws sample_loads]) (simp_all add: trio_def)
  with r w show ?thesis by blast
qed

text \<open>
  C11. A leader only appends, as long as no snapshot takes effect: at every step of a run of the cluster
  in which no node has one, before and after the step, the log of a node that leads after the step
  starts with the log it had before. The write-ahead log keeps its laws, logs have fewer than 2^63
  entries, and the addresses of the nodes are distinct and not empty. A leader that takes a snapshot
  removes the entries before it.
\<close>

theorem leader_append_only:
  assumes "net_run E view ns c V W N" and "moves (net_step E N) E ns c c'" and "unsnapped view ns c'"
    and "distinct ns" "[] \<notin> set ns" and "golog_laws E view" "loads_prefix E view"
    and "a \<in> set ns" and "leads (cnode c' a)"
  shows "prefix (snd (view (wal (cnode c a)))) (snd (view (wal (cnode c' a))))"
proof -
  obtain G where m: "matched view ns c W N G" using net_run_matched [OF assms(1,4-7)] by blast
  have v: "valid ns c V W" using run_valid [OF net_run_run [OF assms(1)] assms(4,5)] by simp
  show ?thesis
    by (rule moves_prefix [OF assms(2) m v _ assms(3,6,8,9)]) (use net_run_known [OF assms(1)] in blast)
qed

theorem leader_append_only_witness:
  "\<exists>c c' N. moves (net_step sample_env N) sample_env trio c c' \<and> leads (cnode c' [97])
     \<and> wal (cnode c' [97]) = (0, [Serialize noop]) \<and> prefix (snd (wal (cnode c [97]))) (snd (wal (cnode c' [97])))"
proof -
  obtain c V W N c' where r: "net_run sample_env (\<lambda>l. l) trio c V W N" "moves (net_step sample_env N) sample_env trio c c'"
    "unsnapped (\<lambda>l. l) trio c'" and w: "leads (cnode c' [97])" "wal (cnode c' [97]) = (0, [Serialize noop])"
    using sample_election by blast
  have "prefix (snd (wal (cnode c [97]))) (snd (wal (cnode c' [97])))"
    by (rule leader_append_only [OF r _ _ sample_env_laws sample_loads _ w(1)]) (simp_all add: trio_def)
  with r w show ?thesis by blast
qed

end
