(* ===== verification/Log_Matching.thy ===== *)
theory Log_Matching
  imports Replication Samples
begin

text \<open>
  Properties of replication: the follower's log after a request, and the request the leader builds.
\<close>

section \<open>Sample requests\<close>

lemmas append_defs [node_simps] = accept_append_def checkLogConsistency_def
  appendEntries_def write_and_commit_def applyToFiniteStateMachine_follower_def apply_command_def run_machine_def

lemma sample_env_reliable: "reliable sample_env"
  by (simp add: reliable_def node_simps)

lemma HandleAppendEntries_current:
  assumes "role r = Some p" and "heap r p = Some (Follower f)" and "enabled r" and "0 < stackDepth E"
    and "t = currentTerm (store r)"
  shows "HandleAppendEntries E t leader prev pt es ci r = accept_append E p leader prev pt es ci r"
  using assms by (cases "stackDepth E") (simp_all add: HandleAppendEntries_def on_role_def)

lemma sample_follower_append:
  "HandleAppendEntries sample_env 2 leader prev pt es ci (sample_follower l)
     = accept_append sample_env 0 leader prev pt es ci (sample_follower l)"
  by (rule HandleAppendEntries_current) (simp_all add: node_simps)

text \<open>A follower whose second entry is from an old term, and a request of the leader of term 2.\<close>

definition old_log :: logview where
  "old_log = (0, map Serialize [sample_entry 1 [7], sample_entry 1 [9]])"

lemma old_log_ok: "view_ok old_log" "fst old_log = 0" "last_of old_log = 2"
  by (simp_all add: old_log_def view_ok_def last_of_def Serialize_length)

lemma sample_follower_ok: "view_ok l \<Longrightarrow> fst l = 0 \<Longrightarrow> log_ok (\<lambda>l. l) (sample_follower l)"
  by (simp add: log_ok_def sample_follower_def blank_def term_at_None)

lemma sample_append:
  "\<exists>r'. HandleAppendEntries sample_env 2 [97] 1 1 [sample_entry 2 [8]] 1 (sample_follower old_log)
     = Ret r' (2, True, 0, 0)"
  unfolding sample_follower_append by (simp add: node_simps old_log_def, simp add: sample_entry_def node_simps)

lemma old_log_terms: "term_at old_log i = (if i = 1 \<or> i = 2 then Some 1 else None)"
proof -
  have "i = 0 \<or> i = 1 \<or> i = 2 \<or> 2 < i" by auto
  then show ?thesis
    by (elim disjE) (simp_all add: term_at_def entry_of_def last_of_def old_log_def sample_entry_read,
        simp_all add: sample_entry_def)
qed

lemma sample_matching: "matching sample_log old_log"
proof -
  have "entry_of sample_log (Suc 0) = entry_of old_log (Suc 0)"
    by (simp add: entry_of_def last_of_def sample_log_def old_log_def)
  then show ?thesis
    by (auto simp: matching_def sample_log_terms old_log_terms le_Suc_eq split: if_splits)
qed

lemma loop_numerals [node_simps]:
  "read_batch L l (numeral n) i =
     (case gl_Read L l i of
        None \<Rightarrow> []
      | Some raw \<Rightarrow> (case DeserializeLogEntry raw of
                      Inl e \<Rightarrow> []
                    | Inr logEntry \<Rightarrow> logEntry # read_batch L l (pred_numeral n) (i + 1)))"
  "apply_loop E (numeral n) idx r =
     (case gl_Read E (wal r) idx of
        None \<Rightarrow> Ret r ()
      | Some bs \<Rightarrow>
          (case DeserializeLogEntry bs of
             Inl e \<Rightarrow> Ret r ()
           | Inr logEntry \<Rightarrow>
               bindO (apply_command E logEntry r) (\<lambda>r a.
                 apply_loop E (pred_numeral n) (idx + 1) (upd_store (\<lambda>s. s\<lparr>lastApplied := idx\<rparr>) r))))"
  by (simp_all add: numeral_eq_Suc)

lemma sample_request:
  "append_request sample_env 0 [98] 2 2 (sample_leader sample_log (\<lambda>_. 0))
     = SendAppendEntries 0 [98] 2 [97] 1 1 [sample_entry 2 [8], sample_entry 2 [9]] 0"
  by (simp add: node_simps sample_log_def, simp add: sample_entry_def)

lemma sample_append2:
  "\<exists>r'. HandleAppendEntries sample_env 2 [97] 1 1 [sample_entry 2 [8], sample_entry 2 [9]] 0 (sample_follower old_log)
     = Ret r' (2, True, 0, 0)"
  unfolding sample_follower_append by (simp add: node_simps old_log_def, simp add: sample_entry_def node_simps)

section \<open>Properties\<close>

text \<open>
  C8. With a write-ahead log that keeps its laws and whose writes succeed (\<open>reliable\<close>), and with a
  request that names a previous entry unless the start of the node's log was not compacted: a node
  that answers the request with success holds the leader's entries afterwards. The entry before them
  had the term the leader named, everything up to it is as it was, an entry is removed only behind
  one whose term differs from the leader's, and the log is the one the specification gives. Both
  conditions are needed, as the two theorems on lost answers and on unwritten entries show.
\<close>

theorem append_entries_follows_leader:
  assumes "HandleAppendEntries E t leader prev pt es ci r = Ret r' (t', True, a, b)"
    and "golog_laws E view" and "reliable E" and "log_ok view r"
    and "prev = 0 \<longrightarrow> fst (view (wal r)) = 0" and "unat prev + length es < 2 ^ 63"
  shows "view (wal r') = append_spec (view (wal r)) (unat prev) es
    \<and> (prev = 0 \<or> prev = snapshotIndex r \<and> pt = snapshotTerm r \<or> term_at (view (wal r)) (unat prev) = Some pt)
    \<and> (\<forall>k<length es. term_at (view (wal r')) (unat prev + k + 1) = Some (Term (es ! k)))
    \<and> (\<forall>i\<le>unat prev. entry_of (view (wal r')) i = entry_of (view (wal r)) i)
    \<and> ((\<forall>k<length es. unat prev + k + 1 \<le> last_of (view (wal r)) \<longrightarrow>
            term_at (view (wal r)) (unat prev + k + 1) = Some (Term (es ! k))) \<longrightarrow>
        (\<forall>i\<le>last_of (view (wal r)). entry_of (view (wal r')) i = entry_of (view (wal r)) i))"
proof -
  note log = append_success_log [OF assms(1,2,4,5)]
  have ok: "view_ok (view (wal r))" using assms(4) by (simp add: log_ok_def)
  let ?v = "view (wal r)" and ?n = "unat prev"
  have w: "view (wal r') = append_spec ?v ?n es"
    unfolding log(1) by (rule appendEntries_spec [OF assms(2) ok log(2,3) assms(6,3)])
  note new = append_spec_entries [OF log(2,3), where es = es]
  have "\<forall>i\<le>last_of ?v. entry_of (append_spec ?v ?n es) i = entry_of ?v i"
    if same: "\<forall>k<length es. ?n + k + 1 \<le> last_of ?v \<longrightarrow> term_at ?v (?n + k + 1) = Some (Term (es ! k))"
  proof (cases "agree_len ?v (Suc ?n) es = length es")
    case False
    then have "last_of ?v \<le> ?n + agree_len ?v (Suc ?n) es"
      using same agree_len_stop [of ?v "Suc ?n" es] agree_len_le [of ?v "Suc ?n" es]
      by (metis Suc_eq_plus1 add_Suc add_Suc_right le_neq_implies_less not_less_eq_eq)
    then show ?thesis using new(1) by auto
  qed (simp add: append_spec_def)
  moreover have "prev = 0 \<or> prev = snapshotIndex r \<and> pt = snapshotTerm r \<or> term_at ?v ?n = Some pt"
    using log(4) by blast
  moreover have "\<forall>k<length es. term_at (append_spec ?v ?n es) (?n + k + 1) = Some (Term (es ! k))"
    using append_spec_terms [OF log(2,3)] by simp
  ultimately show ?thesis using new(1) unfolding w by simp
qed

theorem append_entries_follows_leader_witness:
  "\<exists>r'. HandleAppendEntries sample_env 2 [97] 1 1 [sample_entry 2 [8]] 1 (sample_follower old_log)
       = Ret r' (2, True, 0, 0)
     \<and> wal r' = append_spec old_log 1 [sample_entry 2 [8]]"
proof -
  obtain r' where r': "HandleAppendEntries sample_env 2 [97] 1 1 [sample_entry 2 [8]] 1 (sample_follower old_log)
      = Ret r' (2, True, 0, 0)"
    using sample_append by blast
  have w: "wal (sample_follower old_log) = old_log" by (simp add: sample_follower_def blank_def)
  show ?thesis
    using r' append_entries_follows_leader [OF r' sample_env_laws sample_env_reliable sample_follower_ok, unfolded w]
    by (simp add: old_log_ok)
qed

text \<open>
  Also with a log whose writes or truncations fail, an append request the node answers with
  success loses nothing the node agreed on: every entry up to the first disagreement is as it was,
  and if the log changed at all, what follows is the beginning of the request's other entries.
\<close>

lemma append_entries_keeps_agreement:
  assumes "HandleAppendEntries E t leader prev pt es ci r = Ret r' (t', True, a, b)"
    and "golog_laws E view" and "log_ok view r"
    and "prev = 0 \<longrightarrow> fst (view (wal r)) = 0" and "unat prev + length es < 2 ^ 63"
  shows "(\<forall>i \<le> unat prev + agree_len (view (wal r)) (Suc (unat prev)) es.
            entry_of (view (wal r')) i = entry_of (view (wal r)) i)
    \<and> (view (wal r') = view (wal r)
       \<or> (\<exists>j. snd (view (wal r')) =
              take (unat prev + agree_len (view (wal r)) (Suc (unat prev)) es - fst (view (wal r))) (snd (view (wal r)))
              @ map Serialize (take j (drop (agree_len (view (wal r)) (Suc (unat prev)) es) es))))"
proof -
  note log = append_success_log [OF assms(1-4)]
  have ok: "view_ok (view (wal r))" using assms(3) by (simp add: log_ok_def)
  define v n m where "v = view (wal r)" and "n = unat prev" and "m = agree_len v (Suc n) es"
  have m: "fst v \<le> n + m" "n + m \<le> last_of v"
    using log(2,3) agree_len_in_log [of "Suc n" v es] by (auto simp: v_def n_def m_def)
  have "view (wal r') = v \<or> (\<exists>j. view (wal r') = cut_and_add v (n + m) (take j (drop m es)))"
    using appendEntries_view [OF assms(2) ok log(2,3) assms(5)] unfolding log(1) v_def n_def m_def by blast
  then show ?thesis
    unfolding v_def [symmetric] n_def [symmetric] m_def [symmetric]
    using entry_of_cut [OF m] by (auto simp: cut_and_add_def)
qed

text \<open>
  C19. The request a leader builds for a node is an exact slice of its log: it starts at the node's
  next index, carries the term of the entry before it, as many entries as there are up to the
  batch limit, and each of them with the bytes the leader's own log holds.
\<close>

theorem leader_request_is_log_slice:
  assumes "golog_laws E view" and "log_ok view r" and "snapshotIndex r < next"
    and "unat next \<le> Suc (last_of (view (wal r)))"
    and "0 < MaxBatchEntries (config r)" "MaxBatchEntries (config r) < 2 ^ 63"
  shows "\<exists>prev pt es. append_request E p node t next r
             = SendAppendEntries p node t (leaderId (store r)) prev pt es (commitIndex (store r))
           \<and> unat next = Suc (unat prev)
           \<and> (prev = 0 \<or> prev = snapshotIndex r \<and> pt = snapshotTerm r
              \<or> term_at (view (wal r)) (unat prev) = Some pt)
           \<and> length es = min (nat (MaxBatchEntries (config r))) (last_of (view (wal r)) - unat prev)
           \<and> (\<forall>k<length es. entry_of (view (wal r)) (unat next + k) = Some (Serialize (es ! k)))"
proof -
  obtain prev pt es where req: "append_request E p node t next r
      = SendAppendEntries p node t (leaderId (store r)) prev pt es (commitIndex (store r))"
    by (simp add: append_request_def Let_def)
  then show ?thesis using append_request_slice [OF assms req] by blast
qed

theorem leader_request_is_log_slice_witness:
  "\<exists>prev pt es. append_request sample_env 0 [98] 2 2 (sample_leader sample_log (\<lambda>_. 0))
       = SendAppendEntries 0 [98] 2 [97] prev pt es 0
     \<and> unat prev = 1 \<and> length es = 2"
proof -
  let ?r = "sample_leader sample_log (\<lambda>_. 0)"
  have f: "wal ?r = sample_log" "snapshotIndex ?r = 0" "MaxBatchEntries (config ?r) = 2048" "leaderId (store ?r) = [97]"
    "commitIndex (store ?r) = 0" "last_of sample_log = 3"
    by (simp_all add: node_simps sample_log_def)
  have "log_ok (\<lambda>l. l) ?r"
    by (simp add: log_ok_def f sample_log_ok term_at_None) (simp add: sample_log_def)
  from leader_request_is_log_slice [OF sample_env_laws this, of 2 0 "[98]" 2]
  show ?thesis by (auto simp: f)
qed

text \<open>
  Log matching for one request: let the logs of a leader and of another node match, that is, entries
  of the same index and term, and all entries before them, are the same. With a log whose writes
  succeed, and unless the request names no previous entry and the node's log was compacted, after
  the node has answered a request of the leader with success its log still matches the leader's,
  and it holds the leader's entries, byte by byte, at every index of the request.
\<close>

lemma replication_keeps_logs_matching:
  assumes "golog_laws E view" and "reliable E" and "log_ok view ld" and "log_ok view f"
    and "matching (view (wal ld)) (view (wal f))"
    and "snapshotIndex ld < next" and "unat next \<le> Suc (last_of (view (wal ld)))"
    and "0 < MaxBatchEntries (config ld)" "MaxBatchEntries (config ld) < 2 ^ 63"
    and "append_request E p node t next ld = SendAppendEntries p node t leader prev pt es ci"
    and "HandleAppendEntries E t leader prev pt es ci f = Ret f' (t', True, a, b)"
    and "prev = 0 \<longrightarrow> fst (view (wal f)) = 0"
  shows "matching (view (wal ld)) (view (wal f'))
    \<and> (\<forall>i. unat prev < i \<and> i \<le> unat prev + length es \<longrightarrow>
          entry_of (view (wal f')) i = entry_of (view (wal ld)) i)"
proof -
  define v w n where "v = view (wal ld)" and "w = view (wal f)" and "n = unat prev"
  note req = append_request_slice [OF assms(1,3,6-10)]
  have slice: "entry_of v (n + 1 + k) = Some (Serialize (es ! k))" if "k < length es" for k
    using req(4) [OF that] req(1) by (simp add: v_def n_def)
  have ok: "view_ok v" "view_ok w" using assms(3,4) by (simp_all add: log_ok_def v_def w_def)
  have "n + length es < 2 ^ 63" using req(1,3) assms(7) ok(1) by (auto simp: view_ok_def v_def n_def)
  note log = append_success_log [OF assms(11,1,4,12)]
  have w': "view (wal f') = append_spec w n es"
    unfolding log(1) w_def n_def
    by (rule appendEntries_spec [OF assms(1) _ log(2,3) _ assms(2)])
      (use ok \<open>n + length es < 2 ^ 63\<close> in \<open>simp_all add: w_def n_def\<close>)
  have base: "entry_of v j = entry_of w j" if "j \<le> n" "fst v < j" "fst w < j" for j
  proof -
    note j = that
    have n0: "prev \<noteq> 0" using j by (auto simp: n_def)
    obtain x where x: "term_at v n = Some x"
      by (rule term_at_Some [OF ok(1), of n]) (use j req(1) assms(7) in \<open>auto simp: v_def n_def\<close>)
    obtain y where y: "term_at w n = Some y"
      by (rule term_at_Some [OF ok(2), of n]) (use j log(3) in \<open>auto simp: w_def n_def\<close>)
    have "x = pt" using req(2) n0 x assms(3) by (auto simp: log_ok_def v_def n_def)
    moreover have "y = pt" using log(4) n0 y assms(4) by (auto simp: log_ok_def w_def n_def)
    ultimately show ?thesis using matchingD [OF assms(5)] x y j by (simp add: v_def w_def)
  qed
  show ?thesis
    using append_spec_matching [OF assms(5) log(2,3), where es = es] slice base
    unfolding w' by (auto simp: v_def w_def n_def)
qed

lemma sample_replication_matches:
  "\<exists>f'. HandleAppendEntries sample_env 2 [97] 1 1 [sample_entry 2 [8], sample_entry 2 [9]] 0 (sample_follower old_log)
       = Ret f' (2, True, 0, 0)
     \<and> matching sample_log (wal f') \<and> entry_of (wal f') 2 = entry_of sample_log 2"
proof -
  obtain f' where f': "HandleAppendEntries sample_env 2 [97] 1 1 [sample_entry 2 [8], sample_entry 2 [9]] 0
      (sample_follower old_log) = Ret f' (2, True, 0, 0)"
    using sample_append2 by blast
  let ?ld = "sample_leader sample_log (\<lambda>_. 0)"
  have f: "wal ?ld = sample_log" "snapshotIndex ?ld = 0" "MaxBatchEntries (config ?ld) = 2048"
    "last_of sample_log = 3" "wal (sample_follower old_log) = old_log"
    by (simp_all add: node_simps sample_log_def)
  have ld: "log_ok (\<lambda>l. l) ?ld"
    by (simp add: log_ok_def f sample_log_ok term_at_None) (simp add: sample_log_def)
  have "matching sample_log (wal f') \<and> (\<forall>i. unat (1::u64) < i \<and> i \<le> unat (1::u64) + length [sample_entry 2 [8], sample_entry 2 [9]]
      \<longrightarrow> entry_of (wal f') i = entry_of sample_log i)"
    using replication_keeps_logs_matching [OF sample_env_laws sample_env_reliable ld
        sample_follower_ok _ _ _ _ _ sample_request f'] sample_matching
    by (simp add: f old_log_ok)
  then show ?thesis using f' by simp
qed

text \<open>
  C34. A follower takes the leader's commit index up to the end of its own log, not up to the last
  entry of the request. With a batch limit of one, the leader, which committed its first two entries,
  sends the first; the follower answers with success, and commits and applies its own second entry,
  which is not the leader's.
\<close>

theorem follower_commits_unconfirmed_entry:
  "append_request sample_env 0 [98] 2 1
      ((sample_leader sample_log (\<lambda>_. 0))\<lparr>config := sample_config\<lparr>MaxBatchEntries := 1\<rparr>,
         store := sample_store\<lparr>currentTerm := 2, leaderId := [97], commitIndex := 2\<rparr>\<rparr>)
     = SendAppendEntries 0 [98] 2 [97] 0 0 [sample_entry 1 [7]] 2
   \<and> (\<exists>r'. HandleAppendEntries sample_env 2 [97] 0 0 [sample_entry 1 [7]] 2 (sample_follower old_log)
         = Ret r' (2, True, 0, 0)
       \<and> commitIndex (store r') = 2 \<and> lastApplied (store r') = 2 \<and> fsm r' = [[7], [9]]
       \<and> entry_of (wal r') 2 \<noteq> entry_of sample_log 2)"
proof
  show "append_request sample_env 0 [98] 2 1
      ((sample_leader sample_log (\<lambda>_. 0))\<lparr>config := sample_config\<lparr>MaxBatchEntries := 1\<rparr>,
         store := sample_store\<lparr>currentTerm := 2, leaderId := [97], commitIndex := 2\<rparr>\<rparr>)
     = SendAppendEntries 0 [98] 2 [97] 0 0 [sample_entry 1 [7]] 2"
    by (simp add: node_simps sample_log_def)
  have ne: "Serialize (sample_entry 1 [9]) \<noteq> Serialize (sample_entry 2 [8])"
    using sample_entry_read [of 1 9] sample_entry_read [of 2 8] by (auto simp: sample_entry_def)
  show "\<exists>r'. HandleAppendEntries sample_env 2 [97] 0 0 [sample_entry 1 [7]] 2 (sample_follower old_log)
         = Ret r' (2, True, 0, 0)
       \<and> commitIndex (store r') = 2 \<and> lastApplied (store r') = 2 \<and> fsm r' = [[7], [9]]
       \<and> entry_of (wal r') 2 \<noteq> entry_of sample_log 2"
    unfolding sample_follower_append
    using ne by (simp add: node_simps old_log_def sample_log_def, simp add: sample_entry_def node_simps)
qed

text \<open>
  C33. A failed round trip looks to the leader like a conflict at index 0, so it goes back to the
  first entry although the node is up to date; a follower that compacted its log meanwhile accepts
  the request, because it asks for no previous entry, and writes entries 1 to 3 again behind the end
  of its log: the entries at 4, 5 and 6 are the leader's 1, 2 and 3.
\<close>

theorem lost_answer_corrupts_compacted_log:
  "\<exists>ld' f'. AppendEntries_reply sample_env 0 [98] 2 3 [] (Transport_AppendEntries 2 DoError)
         (upd_leader 0 (\<lambda>l. l\<lparr>l_nextIndex := (\<lambda>_. 4), l_matchIndex := (\<lambda>_. 3)\<rparr>) (sample_leader sample_log (\<lambda>_. 3)))
       = Ret ld' ()
     \<and> spawned ld' = [SendAppendEntries 0 [98] 2 [97] 0 0
          [sample_entry 1 [7], sample_entry 2 [8], sample_entry 2 [9]] 0]
     \<and> HandleAppendEntries sample_env 2 [97] 0 0 [sample_entry 1 [7], sample_entry 2 [8], sample_entry 2 [9]] 0
          ((sample_follower (2, [Serialize (sample_entry 2 [9])]))\<lparr>snapshotIndex := 2, snapshotTerm := 2\<rparr>)
       = Ret f' (2, True, 0, 0)
     \<and> wal f' = (2, map Serialize [sample_entry 2 [9], sample_entry 1 [7], sample_entry 2 [8], sample_entry 2 [9]])"
proof -
  have "\<exists>ld'. AppendEntries_reply sample_env 0 [98] 2 3 [] (Transport_AppendEntries 2 DoError)
         (upd_leader 0 (\<lambda>l. l\<lparr>l_nextIndex := (\<lambda>_. 4), l_matchIndex := (\<lambda>_. 3)\<rparr>) (sample_leader sample_log (\<lambda>_. 3)))
       = Ret ld' ()
     \<and> spawned ld' = [SendAppendEntries 0 [98] 2 [97] 0 0
          [sample_entry 1 [7], sample_entry 2 [8], sample_entry 2 [9]] 0]"
    by (simp add: AppendEntries_reply_def recover_send_def retrySendAppendEntriesToNode_def back_off_def
        node_simps sample_log_def)
  moreover have "\<exists>f'. HandleAppendEntries sample_env 2 [97] 0 0
          [sample_entry 1 [7], sample_entry 2 [8], sample_entry 2 [9]] 0
          ((sample_follower (2, [Serialize (sample_entry 2 [9])]))\<lparr>snapshotIndex := 2, snapshotTerm := 2\<rparr>)
       = Ret f' (2, True, 0, 0)
     \<and> wal f' = (2, map Serialize [sample_entry 2 [9], sample_entry 1 [7], sample_entry 2 [8], sample_entry 2 [9]])"
    by (subst HandleAppendEntries_current [where p = 0]) (simp_all add: node_simps)
  ultimately show ?thesis by blast
qed

text \<open>
  C37. A follower with an empty log that installs a snapshot keeps the empty log, because the log is
  only reset when it has entries. It then refuses every request of the leader that names a previous
  entry, the one at the end of the snapshot among them, with the hint to start at index 1, and its
  log stays empty; a leader that has compacted its log takes the hint and sends the snapshot again.
\<close>

theorem snapshot_on_empty_log_blocks_replication:
  "\<exists>f' ld'. HandleInstallSnapshot sample_env 2 [97] 5 2 [1] (sample_follower (0, [])) = Ret f' 2
     \<and> snapshotIndex f' = 5 \<and> wal f' = (0, [])
     \<and> (\<forall>prev pt es ci. prev = 0 \<or>
          (\<exists>f''. HandleAppendEntries sample_env 2 [97] prev pt es ci f' = Ret f'' (2, False, 1, 0) \<and> wal f'' = (0, [])))
     \<and> AppendEntries_reply sample_env 0 [98] 2 5 [sample_entry 2 [8]] (2, False, 1, 0)
         (upd_leader 0 (\<lambda>l. l\<lparr>l_nextIndex := (\<lambda>_. 6)\<rparr>)
            ((sample_leader (5, [Serialize (sample_entry 2 [8])]) (\<lambda>_. 0))\<lparr>snapshotIndex := 5, snapshotTerm := 2\<rparr>))
         = Ret ld' ()
     \<and> spawned ld' = [SendInstallSnapshot 0 [98] 2 [97]]"
proof -
  obtain f' where f': "HandleInstallSnapshot sample_env 2 [97] 5 2 [1] (sample_follower (0, [])) = Ret f' 2"
    and r: "snapshotIndex f' = 5" "wal f' = (0, [])" "role f' = Some 0" "enabled f'" "currentTerm (store f') = 2"
      "heap f' 0 = Some (Follower \<lparr>f_electionDeadline = 1, f_electionTicks = 0\<rparr>)" "config f' = sample_config"
      "rgen f' = sample_rng\<lparr>rngDrawn := 1\<rparr>"
    by (simp add: HandleInstallSnapshot_def Follower_HandleInstallSnapshot_def accept_snapshot_def
        installSnapshot_def SaveSnapshot_def snapshot_write_steps_def raise_to_def node_simps)
  have "\<exists>f''. HandleAppendEntries sample_env 2 [97] prev pt es ci f' = Ret f'' (2, False, 1, 0) \<and> wal f'' = (0, [])"
    if "prev \<noteq> 0" for prev pt es ci
    by (subst HandleAppendEntries_current [OF r(3,6,4)])
      (use that in \<open>simp_all add: r node_simps unsigned_greater_eq word_neq_0_conv\<close>)
  moreover have "\<exists>ld'. AppendEntries_reply sample_env 0 [98] 2 5 [sample_entry 2 [8]] (2, False, 1, 0)
         (upd_leader 0 (\<lambda>l. l\<lparr>l_nextIndex := (\<lambda>_. 6)\<rparr>)
            ((sample_leader (5, [Serialize (sample_entry 2 [8])]) (\<lambda>_. 0))\<lparr>snapshotIndex := 5, snapshotTerm := 2\<rparr>))
         = Ret ld' ()
     \<and> spawned ld' = [SendInstallSnapshot 0 [98] 2 [97]]"
    by (simp add: AppendEntries_reply_def recover_send_def retrySendAppendEntriesToNode_def back_off_def node_simps)
  ultimately show ?thesis using f' r(1,2) by blast
qed

text \<open>
  C35. A follower answers an append request with success although its log could not write the entries,
  because the result of writing is dropped. The leader counts it, and commits two entries that only
  the leader itself, one node of three, has.
\<close>

theorem unwritten_entries_are_acknowledged:
  "\<exists>f' ld'. HandleAppendEntries (sample_env\<lparr>gl_Write := \<lambda>l bs. (None, l)\<rparr>) 2 [97] 1 1
        [sample_entry 2 [8], sample_entry 2 [9]] 0 (sample_follower (0, [Serialize (sample_entry 1 [7])]))
       = Ret f' (2, True, 0, 0)
     \<and> wal f' = (0, [Serialize (sample_entry 1 [7])])
     \<and> AppendEntries_reply sample_env 0 [98] 2 1 [sample_entry 2 [8], sample_entry 2 [9]] (2, True, 0, 0)
         (sample_leader sample_log (\<lambda>n. if n = [97] then 3 else 0)) = Ret ld' ()
     \<and> commitIndex (store ld') = 3"
proof -
  have "\<exists>f'. HandleAppendEntries (sample_env\<lparr>gl_Write := \<lambda>l bs. (None, l)\<rparr>) 2 [97] 1 1
        [sample_entry 2 [8], sample_entry 2 [9]] 0 (sample_follower (0, [Serialize (sample_entry 1 [7])]))
       = Ret f' (2, True, 0, 0) \<and> wal f' = (0, [Serialize (sample_entry 1 [7])])"
    by (subst HandleAppendEntries_current [where p = 0])
      (simp_all add: node_simps, simp add: sample_entry_def)
  moreover have "\<exists>ld'. AppendEntries_reply sample_env 0 [98] 2 1 [sample_entry 2 [8], sample_entry 2 [9]]
         (2, True, 0, 0) (sample_leader sample_log (\<lambda>n. if n = [97] then 3 else 0)) = Ret ld' ()
     \<and> commitIndex (store ld') = 3"
    by (simp add: AppendEntries_reply_def recover_send_def retrySendAppendEntriesToNode_def acknowledge_def raise_own_def
        node_simps sample_log_def, simp add: sample_entry_def)
  ultimately show ?thesis by blast
qed

end
