(* ===== verification/Commitment.thy ===== *)
theory Commitment
  imports Replication Samples
begin

text \<open>
  The leader's commit index: \<open>tryToAdvanceCommitIndex\<close> sorts the match indices and takes the one in
  the middle; the specification counts the nodes that hold an index.
\<close>

section \<open>The middle of a sorted list\<close>

lemma length_filter_sort: "length (filter P (sort xs)) = length (filter P (xs :: 'a::linorder list))"
  by (simp add: filter_sort)

lemma sorted_nth_filter:
  fixes ys :: "'a::linorder list"
  assumes "sorted ys" and "i < length ys"
  shows "N \<le> ys ! i \<longleftrightarrow> length ys - i \<le> length (filter (\<lambda>x. N \<le> x) ys)"
proof
  assume le: "N \<le> ys ! i"
  have "N \<le> x" if "x \<in> set (drop i ys)" for x
  proof -
    obtain k where "k < length ys - i" "x = ys ! (i + k)" using \<open>x \<in> set (drop i ys)\<close> by (auto simp: in_set_conv_nth)
    then have "ys ! i \<le> x" using sorted_nth_mono [OF assms(1), of i "i + k"] by simp
    with le show ?thesis by (rule order_trans)
  qed
  then have "filter (\<lambda>x. N \<le> x) (drop i ys) = drop i ys" by simp
  then have "length ys - i \<le> length (filter (\<lambda>x. N \<le> x) (take i ys @ drop i ys))"
    unfolding filter_append by simp
  then show "length ys - i \<le> length (filter (\<lambda>x. N \<le> x) ys)" by simp
next
  assume len: "length ys - i \<le> length (filter (\<lambda>x. N \<le> x) ys)"
  show "N \<le> ys ! i"
  proof (rule ccontr)
    assume "\<not> N \<le> ys ! i"
    then have "\<not> N \<le> x" if "x \<in> set (take (Suc i) ys)" for x
    proof -
      obtain k where "k < Suc i" "x = ys ! k" using \<open>x \<in> set (take (Suc i) ys)\<close> by (auto simp: in_set_conv_nth)
      then show ?thesis using sorted_nth_mono [OF assms(1), of k i] assms(2) \<open>\<not> N \<le> ys ! i\<close> by auto
    qed
    then have "filter (\<lambda>x. N \<le> x) (take (Suc i) ys) = []" by simp
    then have "length (filter (\<lambda>x. N \<le> x) (take (Suc i) ys @ drop (Suc i) ys)) \<le> length ys - Suc i"
      unfolding filter_append by (metis append_Nil length_drop length_filter_le)
    then show False using len assms(2) by simp
  qed
qed

text \<open>\<open>held_by ns mt N\<close>: how many of the nodes are known to hold index \<open>N\<close>.\<close>

definition held_by :: "gostring list \<Rightarrow> (gostring \<Rightarrow> u64) \<Rightarrow> u64 \<Rightarrow> nat" where
  "held_by ns mt N = length (filter (\<lambda>n. N \<le> mt n) ns)"

lemma majority_match_iff:
  assumes "majority_match (map mt ns) = Some c"
  shows "N \<le> c \<longleftrightarrow> length ns div 2 + 1 \<le> held_by ns mt N"
proof -
  let ?ys = "sort (map mt ns)" and ?i = "length ns - length ns div 2 - 1"
  have ne: "ns \<noteq> []" and c: "c = ?ys ! ?i"
    using assms by (auto simp: majority_match_def Let_def split: if_splits)
  then have "0 < length ns" by simp
  then have i: "?i < length ?ys" and m: "length ?ys - ?i = length ns div 2 + 1"
    by (simp_all, linarith+)
  have "length (filter (\<lambda>x. N \<le> x) ?ys) = held_by ns mt N"
    by (simp add: length_filter_sort held_by_def filter_map comp_def)
  then show ?thesis using sorted_nth_filter [OF sorted_sort i, of N] unfolding c m by simp
qed

lemma majority_match_Some: "ns \<noteq> [] \<Longrightarrow> \<exists>c. majority_match (map mt ns) = Some c"
  by (simp add: majority_match_def Let_def not_le diff_less)

section \<open>The commit index\<close>

text \<open>
  \<open>committable view r l N\<close>: the rule of the specification: a majority holds \<open>N\<close>, and the entry there
  is of the current term.
\<close>

definition committable :: "('l \<Rightarrow> logview) \<Rightarrow> ('l, 's) raft \<Rightarrow> LeaderRole \<Rightarrow> u64 \<Rightarrow> bool" where
  "committable view r l N \<longleftrightarrow>
     length (nodes r) div 2 + 1 \<le> held_by (nodes r) (l_matchIndex l) N
     \<and> term_at (view (wal r)) (unat N) = Some (currentTerm (store r))"

lemma setCommitIndex_in_log:
  assumes "golog_laws E view" and "view_ok (view (wal r))" and "term_at (view (wal r)) (unat N) = Some t"
  shows "commitIndex (store (setCommitIndex E N r)) = max (commitIndex (store r)) N"
proof -
  have "unat N \<le> last_of (view (wal r))" "0 < last_of (view (wal r))"
    using term_at_domain [OF assms(3)] by auto
  moreover have "last_of (view (wal r)) < 2 ^ 63" using assms(2) by (simp add: view_ok_def)
  ultimately have "N \<le> word_of_nat (last_of (view (wal r)))" "(word_of_nat (last_of (view (wal r))) :: u64) \<noteq> 0"
    by (auto simp: word_le_nat_alt word_unat_eq_iff)
  then show ?thesis
    using golog_reads(1) [OF assms(1,2)]
    by (auto simp: setCommitIndex_def upd_store_def Let_def max_def not_less)
qed

lemma tryToAdvance_result:
  assumes "heap r p = Some (Leader l)" and "nodes r \<noteq> []" and "golog_laws E view" and "view_ok (view (wal r))"
  obtains c r' where "majority_match (map (l_matchIndex l) (nodes r)) = Some c"
    "tryToAdvanceCommitIndex E p r = Ret r' ()"
    "commitIndex (store r') = (if term_at (view (wal r)) (unat c) = Some (currentTerm (store r))
       then max (commitIndex (store r)) c else commitIndex (store r))"
proof -
  obtain c where c: "majority_match (map (l_matchIndex l) (nodes r)) = Some c"
    using majority_match_Some [OF assms(2)] by blast
  have z: "term_at (view (wal r)) (unat (0 :: u64)) = None" by (simp add: term_at_None)
  note rd = golog_reads(2) [OF assms(3,4), of c]
  have up: "commitIndex (store (triggerApplier p x)) = commitIndex (store x)" for x :: "('a, 'b) raft"
    by (auto simp: triggerApplier_def upd_leader_def split: option.splits role_obj.splits)
  note sc = setCommitIndex_in_log [OF assms(3,4), of c]
  show ?thesis
  proof (cases "term_at (view (wal r)) (unat c) = Some (currentTerm (store r))")
    case True
    then have "c \<noteq> 0" using z by auto
    obtain raw e where "gl_Read E (wal r) c = Some raw" "DeserializeLogEntry raw = Inr e" "Term e = currentTerm (store r)"
      using True rd by (auto simp: term_at_def split: option.splits sum.splits)
    with \<open>c \<noteq> 0\<close> have "\<exists>r'. tryToAdvanceCommitIndex E p r = Ret r' ()
        \<and> commitIndex (store r') = max (commitIndex (store r)) c"
      using assms(1) c sc [OF True] by (auto simp: tryToAdvanceCommitIndex_def with_leader_def up)
    with True show ?thesis using that [OF c] by auto
  next
    case False
    then have "tryToAdvanceCommitIndex E p r = Ret r ()"
      using assms(1) c rd
      by (auto simp: tryToAdvanceCommitIndex_def with_leader_def term_at_def split: option.splits sum.splits)
    with False show ?thesis using that [OF c] by auto
  qed
qed

section \<open>Properties\<close>

text \<open>
  C3. The leader's way of finding the commit index, the middle of the sorted match indices if its
  entry is of the current term, is the rule of the specification: afterwards the commit index is the
  greatest of the old one and the indices that a majority holds and whose entry is of the current
  term. It holds when terms in the log do not decrease and none is above the current one, and no
  match index is beyond the log.
\<close>

theorem commit_index_is_majority_rule:
  assumes "heap r p = Some (Leader l)" and "nodes r \<noteq> []" and "golog_laws E view" and "view_ok (view (wal r))"
    and "terms_sorted (view (wal r))"
    and "\<forall>i t. term_at (view (wal r)) i = Some t \<longrightarrow> t \<le> currentTerm (store r)"
    and "\<forall>n\<in>set (nodes r). unat (l_matchIndex l n) \<le> last_of (view (wal r))"
  shows "\<exists>r'. tryToAdvanceCommitIndex E p r = Ret r' ()
     \<and> commitIndex (store r') = Max ({commitIndex (store r)} \<union> {N. committable view r l N})"
proof -
  obtain c r' where c: "majority_match (map (l_matchIndex l) (nodes r)) = Some c"
    and r': "tryToAdvanceCommitIndex E p r = Ret r' ()"
    and ci: "commitIndex (store r') = (if term_at (view (wal r)) (unat c) = Some (currentTerm (store r))
       then max (commitIndex (store r)) c else commitIndex (store r))"
    by (rule tryToAdvance_result [OF assms(1-4)])
  note maj = majority_match_iff [OF c]
  have "Max ({commitIndex (store r)} \<union> {N. committable view r l N}) = commitIndex (store r')"
  proof (cases "term_at (view (wal r)) (unat c) = Some (currentTerm (store r))")
    case True
    then have "committable view r l c" using maj [of c] by (simp add: committable_def)
    moreover have "N \<le> c" if "committable view r l N" for N using that maj by (simp add: committable_def)
    ultimately show ?thesis unfolding ci using True by (intro Max_eqI) (auto simp: le_max_iff_disj, auto simp: max_def)
  next
    case False
    have "\<not> committable view r l N" for N
    proof
      assume N: "committable view r l N"
      then have Nc: "N \<le> c" and t: "term_at (view (wal r)) (unat N) = Some (currentTerm (store r))"
        using maj by (simp_all add: committable_def)
      have "unat c \<le> last_of (view (wal r))"
      proof -
        have "0 < held_by (nodes r) (l_matchIndex l) c" using maj [of c] by simp
        then obtain n where "n \<in> set (nodes r)" "c \<le> l_matchIndex l n"
          by (auto simp: held_by_def filter_empty_conv)
        with assms(7) show ?thesis by (force simp: word_le_nat_alt)
      qed
      moreover have "fst (view (wal r)) < unat c" using term_at_domain [OF t] Nc by (simp add: word_le_nat_alt)
      ultimately obtain x where x: "term_at (view (wal r)) (unat c) = Some x"
        using term_at_Some [OF assms(4)] by metis
      have "currentTerm (store r) \<le> x"
        using assms(5) t x Nc unfolding terms_sorted_def by (auto simp: word_le_nat_alt)
      with assms(6) x False show False by (metis order_antisym)
    qed
    then show ?thesis unfolding ci using False by simp
  qed
  with r' show ?thesis by auto
qed

theorem commit_index_is_majority_rule_witness:
  "\<exists>r'. tryToAdvanceCommitIndex sample_env 0 (sample_leader sample_log (\<lambda>n. if n = [98] then 2 else if n = [97] then 3 else 0))
       = Ret r' ()
     \<and> commitIndex (store r') = Max ({0} \<union> {N. committable (\<lambda>l. l)
          (sample_leader sample_log (\<lambda>n. if n = [98] then 2 else if n = [97] then 3 else 0))
          ((NewLeaderRole sample_config)\<lparr>l_matchIndex := \<lambda>n. if n = [98] then 2 else if n = [97] then 3 else 0\<rparr>) N})"
proof -
  let ?m = "\<lambda>n :: gostring. if n = [98] then 2 else if n = [97] then 3 else 0 :: u64"
  let ?r = "sample_leader sample_log ?m"
  have f: "wal ?r = sample_log" "nodes ?r = trio" "heap ?r 0 = Some (Leader ((NewLeaderRole sample_config)\<lparr>l_matchIndex := ?m\<rparr>))"
    "commitIndex (store ?r) = 0" "currentTerm (store ?r) = 2" "last_of sample_log = 3"
    by (simp_all add: sample_leader_def blank_def sample_store_def sample_log_def last_of_def)
  show ?thesis
    using commit_index_is_majority_rule [OF f(3) _ sample_env_laws, unfolded f]
    by (simp add: sample_log_ok trio_def sample_log_terms)
qed

end
