(* ===== verification/Application.thy ===== *)
theory Application
  imports Replication Samples Applier "HOL-Library.Sublist"
begin

text \<open>
  Applying committed entries. The specification \<open>apply_spec\<close> is one step of a replicated state
  machine with sessions; the loops of the follower, of the recovery and of the leader refine its
  iteration over the entries of the log.
\<close>

section \<open>Specification\<close>

text \<open>
  \<open>returns E ok f\<close>: in a state that is \<open>ok\<close> the state machine returns and stays \<open>ok\<close>, and \<open>f\<close> is its
  transition function there. The state machine of the repository has this with \<open>fsm_ok\<close>.
\<close>

definition returns :: "('l, 's) env \<Rightarrow> ('s \<Rightarrow> bool) \<Rightarrow> ('s \<Rightarrow> bytes \<Rightarrow> 's \<times> any) \<Rightarrow> bool" where
  "returns E ok f \<longleftrightarrow>
     (\<forall>s bs. ok s \<longrightarrow> fsmApply E s bs = Ret (fst (f s bs)) (snd (f s bs)) \<and> ok (fst (f s bs)))"

definition executes :: "SessionTable \<Rightarrow> LogEntry \<Rightarrow> bool" where
  "executes ses e \<longleftrightarrow> Data e \<noteq> [] \<and> \<not> fst (IsDuplicate ses (ClientId e) (SequenceNumber e))"

definition apply_spec :: "('s \<Rightarrow> bytes \<Rightarrow> 's \<times> any) \<Rightarrow> 's \<times> SessionTable \<Rightarrow> LogEntry \<Rightarrow> 's \<times> SessionTable" where
  "apply_spec f sm e =
     (if executes (snd sm) e
      then (fst (f (fst sm) (Data e)), Record (snd sm) (ClientId e) (SequenceNumber e) (snd (f (fst sm) (Data e))))
      else sm)"

text \<open>What the state machine answers to an entry.\<close>

definition answer_spec :: "('s \<Rightarrow> bytes \<Rightarrow> 's \<times> any) \<Rightarrow> 's \<times> SessionTable \<Rightarrow> LogEntry \<Rightarrow> any" where
  "answer_spec f sm e =
     (if Data e = [] then AnyNil
      else if executes (snd sm) e then snd (f (fst sm) (Data e))
      else snd (IsDuplicate (snd sm) (ClientId e) (SequenceNumber e)))"

text \<open>The entries of a list that reach the state machine.\<close>

primrec executed :: "('s \<Rightarrow> bytes \<Rightarrow> 's \<times> any) \<Rightarrow> 's \<times> SessionTable \<Rightarrow> LogEntry list \<Rightarrow> LogEntry list" where
  "executed f sm [] = []"
| "executed f sm (e # es) =
     (if executes (snd sm) e then e # executed f (apply_spec f sm e) es else executed f (apply_spec f sm e) es)"

text \<open>The entries of a log after index \<open>a\<close>, up to index \<open>b\<close>.\<close>

definition entries_between :: "logview \<Rightarrow> nat \<Rightarrow> nat \<Rightarrow> LogEntry list" where
  "entries_between v a b =
     concat (map (\<lambda>i. case entry_of v i of
                        None \<Rightarrow> []
                      | Some bs \<Rightarrow> (case DeserializeLogEntry bs of Inl e \<Rightarrow> [] | Inr e \<Rightarrow> [e])) [Suc a..<Suc b])"

lemma entries_between_step:
  assumes "a < b" and "entry_of v (Suc a) = Some bs" and "DeserializeLogEntry bs = Inr e"
  shows "entries_between v a b = e # entries_between v (Suc a) b"
  using assms by (simp add: entries_between_def upt_conv_Cons del: upt_Suc)

lemma entries_between_empty [simp]: "entries_between v a a = []"
  by (simp add: entries_between_def)

section \<open>One command\<close>

lemma apply_spec_ok: "returns E ok f \<Longrightarrow> ok (fst sm) \<Longrightarrow> ok (fst (apply_spec f sm e))"
  by (simp add: apply_spec_def returns_def)

lemma apply_command_spec:
  assumes "returns E ok f" and "ok (fsm r)"
  shows "apply_command E e r =
    Ret (r\<lparr>fsm := fst (apply_spec f (fsm r, sessions r) e), sessions := snd (apply_spec f (fsm r, sessions r) e)\<rparr>)
      (answer_spec f (fsm r, sessions r) e)"
proof (cases "Data e = []")
  case False
  have run: "fsmApply E (fsm r) bs = Ret (fst (f (fsm r) bs)) (snd (f (fsm r) bs))" for bs
    using assms by (simp add: returns_def)
  show ?thesis
  proof (cases "ClientId e = []")
    case True
    then show ?thesis
      using False by (simp add: apply_command_def run_machine_def apply_spec_def answer_spec_def executes_def run IsDuplicate_def
          Record_def Let_def)
  next
    case False
    then show ?thesis
      using \<open>Data e \<noteq> []\<close>
      by (cases "IsDuplicate (sessions r) (ClientId e) (SequenceNumber e)")
        (auto simp: apply_command_def run_machine_def apply_spec_def answer_spec_def executes_def run Let_def)
  qed
qed (simp add: apply_command_def run_machine_def apply_spec_def answer_spec_def executes_def)

section \<open>The loop of the follower and of the recovery\<close>

lemma apply_loop_spec:
  assumes "returns E ok f" and "golog_laws E view" and "ok (fsm r)" and "view_ok (view (wal r))"
    and "fst (view (wal r)) \<le> a" "a + n \<le> last_of (view (wal r))"
  shows "\<exists>r'. apply_loop E n (word_of_nat (Suc a)) r = Ret r' ()
    \<and> (fsm r', sessions r') = foldl (apply_spec f) (fsm r, sessions r) (entries_between (view (wal r)) a (a + n))
    \<and> lastApplied (store r') = (if n = 0 then lastApplied (store r) else word_of_nat (a + n))
    \<and> wal r' = wal r \<and> commitIndex (store r') = commitIndex (store r)"
  using assms(3-6)
proof (induction n arbitrary: a r)
  case (Suc n)
  have in_log: "fst (view (wal r)) < Suc a" "Suc a \<le> last_of (view (wal r))" "Suc a < 2 ^ 63"
    using Suc.prems by (auto simp: view_ok_def)
  obtain bs e where e: "entry_of (view (wal r)) (Suc a) = Some bs" "DeserializeLogEntry bs = Inr e"
    by (rule term_at_Some [OF Suc.prems(2) in_log(1,2)])
  have rd: "gl_Read E (wal r) (word_of_nat (Suc a)) = Some bs"
    using golog_reads(2) [OF assms(2) Suc.prems(2)] in_log(3) e(1) by (simp del: of_nat_Suc)
  define r1 where "r1 = upd_store (\<lambda>s. s\<lparr>lastApplied := word_of_nat (Suc a)\<rparr>)
     (r\<lparr>fsm := fst (apply_spec f (fsm r, sessions r) e), sessions := snd (apply_spec f (fsm r, sessions r) e)\<rparr>)"
  have step: "apply_loop E (Suc n) (word_of_nat (Suc a)) r = apply_loop E n (word_of_nat (Suc (Suc a))) r1"
    using rd e(2) by (simp add: apply_command_spec [OF assms(1) Suc.prems(1)] r1_def add.commute)
  have r1: "wal r1 = wal r" "fsm r1 = fst (apply_spec f (fsm r, sessions r) e)"
    "sessions r1 = snd (apply_spec f (fsm r, sessions r) e)" "lastApplied (store r1) = word_of_nat (Suc a)"
    "commitIndex (store r1) = commitIndex (store r)"
    by (simp_all add: r1_def upd_store_def)
  have sp: "entries_between (view (wal r)) a (a + Suc n) = e # entries_between (view (wal r)) (Suc a) (Suc a + n)"
    using entries_between_step [OF _ e, of "a + Suc n"] by simp
  show ?case
    unfolding step sp foldl_Cons
    using Suc.IH [of r1 "Suc a"] Suc.prems apply_spec_ok [OF assms(1), of "(fsm r, sessions r)" e] by (cases "n = 0") (auto simp: r1 simp del: of_nat_Suc)
qed simp

lemma follower_apply_spec:
  assumes "returns E ok f" and "golog_laws E view" and "ok (fsm r)" and "view_ok (view (wal r))"
    and "fst (view (wal r)) \<le> unat (lastApplied (store r))"
    and "unat (commitIndex (store r)) \<le> last_of (view (wal r))" and "lastApplied (store r) \<le> commitIndex (store r)"
  shows "\<exists>r'. applyToFiniteStateMachine_follower E r = Ret r' ()
    \<and> (fsm r', sessions r') = foldl (apply_spec f) (fsm r, sessions r)
        (entries_between (view (wal r)) (unat (lastApplied (store r))) (unat (commitIndex (store r))))
    \<and> lastApplied (store r') = commitIndex (store r)"
proof (cases "lastApplied (store r) = commitIndex (store r)")
  case False
  let ?a = "unat (lastApplied (store r))" and ?n = "unat (commitIndex (store r)) - unat (lastApplied (store r))"
  have le: "?a \<le> unat (commitIndex (store r))" using assms(7) by (simp add: word_le_nat_alt)
  moreover have ne: "?n \<noteq> 0" using False le by (simp add: word_unat_eq_iff)
  moreover have "lastApplied (store r) + 1 = word_of_nat (Suc ?a)" by simp
  moreover have "\<not> commitIndex (store r) \<le> lastApplied (store r)" using False assms(7) by auto
  ultimately show ?thesis
    using apply_loop_spec [OF assms(1-5), of ?n] assms(6)
    by (auto simp: applyToFiniteStateMachine_follower_def Let_def simp del: of_nat_Suc)
qed (simp add: applyToFiniteStateMachine_follower_def)

section \<open>At most once\<close>

lemma executed_state: "fst (foldl (apply_spec f) sm es) = foldl (\<lambda>s e. fst (f s (Data e))) (fst sm) (executed f sm es)"
  by (induction es arbitrary: sm) (simp_all add: apply_spec_def)

lemma executed_subseq: "subseq (executed f sm es) es"
  by (induction es arbitrary: sm) (simp_all add: list_emb_Cons)

lemma executed_increasing:
  assumes "c \<noteq> []"
  shows "sorted_wrt (<) (map SequenceNumber (filter (\<lambda>e. ClientId e = c) (executed f sm es)))
    \<and> (\<forall>e\<in>set (executed f sm es). ClientId e = c \<longrightarrow> \<not> fst (IsDuplicate (snd sm) c (SequenceNumber e)))"
proof (induction es arbitrary: sm)
  case (Cons e es)
  let ?sm = "apply_spec f sm e"
  have keep: "fst (IsDuplicate (snd sm) c s) \<Longrightarrow> fst (IsDuplicate (snd ?sm) c s)" for s
    by (auto simp: apply_spec_def intro: dup_Record_keeps)
  have later: "SequenceNumber e < s"
    if "executes (snd sm) e" "ClientId e = c" "\<not> fst (IsDuplicate (snd ?sm) c s)" for s
    using that assms sessions.dup_rec_same [of c s "SequenceNumber e"] by (auto simp: apply_spec_def not_le [symmetric])
  show ?case
  proof (cases "executes (snd sm) e")
    case True
    have "\<forall>x\<in>set (executed f ?sm es). ClientId x = c \<longrightarrow> ClientId e = c \<longrightarrow> SequenceNumber e < SequenceNumber x"
      using Cons.IH [of ?sm] later [OF True] by blast
    then show ?thesis
      using Cons.IH [of ?sm] keep True by (auto simp: executes_def)
  next
    case False
    then show ?thesis using Cons.IH [of ?sm] keep by (auto simp: apply_spec_def)
  qed
qed simp

lemma dup_spec_keeps: "fst (IsDuplicate (snd sm) c n) \<Longrightarrow> fst (IsDuplicate (snd (apply_spec f sm e)) c n)"
  by (auto simp: apply_spec_def intro: dup_Record_keeps)

lemma dup_foldl_keeps: "fst (IsDuplicate (snd sm) c n) \<Longrightarrow> fst (IsDuplicate (snd (foldl (apply_spec f) sm es)) c n)"
proof (induction es arbitrary: sm)
  case (Cons e es)
  show ?case using Cons.IH [OF dup_spec_keeps [OF Cons.prems]] by simp
qed simp

lemma executed_recorded:
  "x \<in> set (executed f sm es) \<Longrightarrow> ClientId x \<noteq> [] \<Longrightarrow>
     fst (IsDuplicate (snd (foldl (apply_spec f) sm es)) (ClientId x) (SequenceNumber x))"
proof (induction es arbitrary: sm)
  case (Cons e es)
  have this_one: "fst (IsDuplicate (snd (apply_spec f sm e)) (ClientId e) (SequenceNumber e))"
    if "executes (snd sm) e" "ClientId e \<noteq> []"
    using that sessions.dup_rec_same [of "ClientId e" "SequenceNumber e" "SequenceNumber e"] by (simp add: apply_spec_def)
  consider "x \<in> set (executed f (apply_spec f sm e) es)" | "executes (snd sm) e" "x = e"
    using Cons.prems(1) by (auto split: if_splits)
  then show ?case
  proof cases
    case 1
    then show ?thesis using Cons.IH [OF _ Cons.prems(2)] by simp
  next
    case 2
    then show ?thesis using dup_foldl_keeps [OF this_one] Cons.prems(2) by simp
  qed
qed simp

section \<open>The loop of the leader\<close>

text \<open>
  \<open>waiters_open r l\<close>: the channels of the waiting proposals of a leader exist, are open and empty,
  and no two proposals share one.
\<close>

abbreviation open_chan :: chan where
  "open_chan \<equiv> \<lparr>ch_buf = [], ch_closed = False\<rparr>"

definition waiters_open :: "('l, 's) raft \<Rightarrow> LeaderRole \<Rightarrow> bool" where
  "waiters_open r l \<longleftrightarrow>
     distinct (map fst (l_pending l)) \<and> distinct (concat (map snd (l_pending l)))
     \<and> (\<forall>iw\<in>set (l_pending l). \<forall>c\<in>set (snd iw). chans r c = Some open_chan)"

lemma pending_at_in: "c \<in> set (pending_at l i) \<Longrightarrow> (i, pending_at l i) \<in> set (l_pending l)"
  by (auto simp: pending_at_def split: option.splits dest: map_of_SomeD)

lemma map_of_filter_fst: "map_of (filter (\<lambda>jw. fst jw \<noteq> i) ps) j = (if j = i then None else map_of ps j)"
  by (induction ps) auto

lemma pending_at_del: "pending_at (del_pending i l) j = (if j = i then [] else pending_at l j)"
  by (simp add: pending_at_def del_pending_def map_of_filter_fst)

lemma distinct_concat_filter: "distinct (concat (map snd ps)) \<Longrightarrow> distinct (concat (map snd (filter P ps)))"
  by (induction ps) auto

lemma distinct_concat_pairs:
  "distinct (concat (map snd ps)) \<Longrightarrow> (i, ws) \<in> set ps \<Longrightarrow> (j, ws') \<in> set ps \<Longrightarrow> i \<noteq> j \<Longrightarrow> c \<in> set ws \<Longrightarrow>
     c \<notin> set ws'"
  by (induction ps) (auto, force+)

lemma distinct_concat_part: "distinct (concat (map snd ps)) \<Longrightarrow> (i, ws) \<in> set ps \<Longrightarrow> distinct ws"
  by (induction ps) auto

lemma waiters_open_at:
  assumes "waiters_open r l"
  shows "distinct (pending_at l i)" and "c \<in> set (pending_at l i) \<Longrightarrow> chans r c = Some open_chan"
proof -
  show "distinct (pending_at l i)"
  proof (cases "pending_at l i = []")
    case False
    then have "(i, pending_at l i) \<in> set (l_pending l)" using pending_at_in [of "hd (pending_at l i)"] by simp
    from distinct_concat_part [OF _ this] show ?thesis using assms by (simp add: waiters_open_def)
  qed simp
  show "chans r c = Some open_chan" if "c \<in> set (pending_at l i)"
  proof -
    have "\<forall>c\<in>set (snd (i, pending_at l i)). chans r c = Some open_chan"
      using assms pending_at_in [OF that] unfolding waiters_open_def by blast
    then show ?thesis using that by simp
  qed
qed

lemma waiters_open_del:
  assumes "waiters_open r l" and "\<And>c. c \<notin> set (pending_at l i) \<Longrightarrow> chans r' c = chans r c"
  shows "waiters_open r' (del_pending i l)"
proof -
  have "chans r' c = Some open_chan" if "(j, ws) \<in> set (l_pending l)" "j \<noteq> i" "c \<in> set ws" for j ws c
  proof -
    have "c \<notin> set (pending_at l i)"
    proof
      assume "c \<in> set (pending_at l i)"
      note pending_at_in [OF this]
      then show False
        using that assms(1) \<open>c \<in> set (pending_at l i)\<close> distinct_concat_pairs [of "l_pending l" j ws i]
        unfolding waiters_open_def by blast
    qed
    then show ?thesis using assms that by (auto simp: waiters_open_def)
  qed
  then show ?thesis
    using assms(1)
    by (auto simp: waiters_open_def del_pending_def distinct_map_filter distinct_concat_filter)
qed

lemma answer_waiters_spec:
  assumes "distinct ws" and "\<And>c. c \<in> set ws \<Longrightarrow> chans r c = Some open_chan"
  shows "answer_waiters v ws r =
    Ret (r\<lparr>chans := \<lambda>c. if c \<in> set ws then Some \<lparr>ch_buf = [v], ch_closed = True\<rparr> else chans r c\<rparr>) ()"
  using assms
proof (induction ws arbitrary: r)
  case (Cons c ws)
  define r1 where "r1 = r\<lparr>chans := (chans r)(c \<mapsto> \<lparr>ch_buf = [v], ch_closed = True\<rparr>)\<rparr>"
  have "bindO (send_chan c v r) (\<lambda>r u. bindO (close_chan c r) (\<lambda>r u. answer_waiters v ws r)) = answer_waiters v ws r1"
    using Cons.prems(2) [of c] by (simp add: send_chan_def close_chan_def r1_def)
  moreover have "answer_waiters v ws r1 =
      Ret (r1\<lparr>chans := \<lambda>c. if c \<in> set ws then Some \<lparr>ch_buf = [v], ch_closed = True\<rparr> else chans r1 c\<rparr>) ()"
    using Cons.prems by (intro Cons.IH) (auto simp: r1_def)
  moreover have "r1\<lparr>chans := \<lambda>c. if c \<in> set ws then Some \<lparr>ch_buf = [v], ch_closed = True\<rparr> else chans r1 c\<rparr>
      = r\<lparr>chans := \<lambda>d. if d \<in> set (c # ws) then Some \<lparr>ch_buf = [v], ch_closed = True\<rparr> else chans r d\<rparr>"
    by (auto simp: r1_def intro!: arg_cong [of _ _ "\<lambda>x. r\<lparr>chans := x\<rparr>"])
  ultimately show ?case unfolding answer_waiters.simps by simp
qed simp

lemma leader_apply_entry_spec:
  assumes "returns E ok f" and "ok (fsm r)" and "heap r p = Some (Leader l)" and "waiters_open r l"
    and "gl_Read E (wal r) idx = Some bs" and "DeserializeLogEntry bs = Inr e"
  obtains r' l' where "leader_apply_entry E p idx r = Ret r' True" and "heap r' p = Some (Leader l')" "waiters_open r' l'"
    and "(fsm r', sessions r') = apply_spec f (fsm r, sessions r) e"
    and "lastApplied (store r') = idx" "commitIndex (store r') = commitIndex (store r)" "wal r' = wal r"
    and "\<And>c. c \<in> set (pending_at l idx) \<Longrightarrow> chans r' c = Some \<lparr>ch_buf = [if answer_spec f (fsm r, sessions r) e = AnyNil
            \<and> Data e \<noteq> [] then AnyStruct else answer_spec f (fsm r, sessions r) e], ch_closed = True\<rparr>"
    and "\<And>c. c \<notin> set (pending_at l idx) \<Longrightarrow> chans r' c = chans r c"
    and "\<And>i. i \<noteq> idx \<Longrightarrow> pending_at l' i = pending_at l i"
proof -
  let ?ws = "pending_at l idx"
  let ?a = "if answer_spec f (fsm r, sessions r) e = AnyNil \<and> Data e \<noteq> [] then AnyStruct
      else answer_spec f (fsm r, sessions r) e"
  define r1 where "r1 = r\<lparr>fsm := fst (apply_spec f (fsm r, sessions r) e), sessions := snd (apply_spec f (fsm r, sessions r) e)\<rparr>"
  define l' where "l' = (if ?ws \<noteq> [] then del_pending idx l else l)"
  define r2 where "r2 = (if ?ws \<noteq> [] then upd_leader p (del_pending idx) r1 else r1)"
  define r3 where "r3 = r2\<lparr>chans := \<lambda>c. if c \<in> set ?ws then Some \<lparr>ch_buf = [?a], ch_closed = True\<rparr> else chans r2 c\<rparr>"
  define r4 where "r4 = upd_store (\<lambda>s. s\<lparr>lastApplied := idx\<rparr>) r3"
  have r2: "chans r2 = chans r" "heap r2 p = Some (Leader l')" "fsm r2 = fsm r1" "sessions r2 = sessions r1"
    "store r2 = store r" "wal r2 = wal r"
    using assms(3) by (simp_all add: r2_def r1_def l'_def upd_leader_def)
  have ans: "answer_waiters ?a ?ws r2 = Ret r3 ()"
    unfolding r3_def by (rule answer_waiters_spec) (use waiters_open_at [OF assms(4)] r2(1) in auto)
  have h1: "heap r1 p = Some (Leader l)" using assms(3) by (simp add: r1_def)
  have "with_leader p (\<lambda>l r.
      let waiters = pending_at l idx;
          r1 = (if waiters \<noteq> [] then upd_leader p (del_pending idx) r else r);
          answer = (if answer_spec f (fsm r', sessions r') e = AnyNil \<and> Data e \<noteq> [] then AnyStruct
                    else answer_spec f (fsm r', sessions r') e) in
      answer_waiters answer waiters r1) r1 = answer_waiters
        (if answer_spec f (fsm r', sessions r') e = AnyNil \<and> Data e \<noteq> [] then AnyStruct
         else answer_spec f (fsm r', sessions r') e) ?ws r2" for r' :: "('a, 'b) raft"
    by (simp add: with_leader_def h1 Let_def r2_def)
  from this [of r] have "leader_apply_entry E p idx r = Ret r4 True"
    using assms(5,6) ans by (simp add: leader_apply_entry_def apply_command_spec [OF assms(1,2)] r1_def [symmetric] r4_def)
  moreover have "waiters_open r4 l'"
  proof (cases "?ws = []")
    case True
    then show ?thesis using assms(4) r2(1) by (simp add: waiters_open_def l'_def r4_def r3_def upd_store_def)
  next
    case False
    then show ?thesis
      using waiters_open_del [OF assms(4), of idx r4] by (simp add: l'_def r4_def r3_def upd_store_def r2(1))
  qed
  moreover have "heap r4 p = Some (Leader l')" "(fsm r4, sessions r4) = apply_spec f (fsm r, sessions r) e"
    "lastApplied (store r4) = idx" "commitIndex (store r4) = commitIndex (store r)" "wal r4 = wal r"
    by (simp_all add: r4_def r3_def upd_store_def r2 r1_def)
  moreover have "\<And>i. i \<noteq> idx \<Longrightarrow> pending_at l' i = pending_at l i" by (simp add: l'_def pending_at_del)
  moreover have "\<And>c. c \<in> set ?ws \<Longrightarrow> chans r4 c = Some \<lparr>ch_buf = [?a], ch_closed = True\<rparr>"
    "\<And>c. c \<notin> set ?ws \<Longrightarrow> chans r4 c = chans r c"
    by (simp_all add: r4_def r3_def upd_store_def r2(1))
  ultimately show ?thesis using that [of r4 l'] by blast
qed

lemma leader_apply_loop_spec:
  assumes "returns E ok f" and "golog_laws E view" and "ok (fsm r)" and "view_ok (view (wal r))"
    and "fst (view (wal r)) \<le> a" "a + n \<le> last_of (view (wal r))"
    and "heap r p = Some (Leader l)" and "waiters_open r l"
  shows "\<exists>r'. leader_apply_loop E p n (word_of_nat (Suc a)) r = Ret r' ()
    \<and> (fsm r', sessions r') = foldl (apply_spec f) (fsm r, sessions r) (entries_between (view (wal r)) a (a + n))
    \<and> lastApplied (store r') = (if n = 0 then lastApplied (store r) else word_of_nat (a + n))"
  using assms(3-)
proof (induction n arbitrary: a r l)
  case (Suc n)
  have in_log: "fst (view (wal r)) < Suc a" "Suc a \<le> last_of (view (wal r))" "Suc a < 2 ^ 63"
    using Suc.prems by (auto simp: view_ok_def)
  obtain bs e where e: "entry_of (view (wal r)) (Suc a) = Some bs" "DeserializeLogEntry bs = Inr e"
    by (rule term_at_Some [OF Suc.prems(2) in_log(1,2)])
  have rd: "gl_Read E (wal r) (word_of_nat (Suc a)) = Some bs"
    using golog_reads(2) [OF assms(2) Suc.prems(2)] in_log(3) e(1) by (simp del: of_nat_Suc)
  obtain r1 l1 where s: "leader_apply_entry E p (word_of_nat (Suc a)) r = Ret r1 True"
    "heap r1 p = Some (Leader l1)" "waiters_open r1 l1" "(fsm r1, sessions r1) = apply_spec f (fsm r, sessions r) e"
    "lastApplied (store r1) = word_of_nat (Suc a)" "wal r1 = wal r"
    by (rule leader_apply_entry_spec [OF assms(1) Suc.prems(1,5,6) rd e(2)])
  have sp: "entries_between (view (wal r)) a (a + Suc n) = e # entries_between (view (wal r)) (Suc a) (Suc a + n)"
    using entries_between_step [OF _ e, of "a + Suc n"] by simp
  have w: "word_of_nat (Suc a) + 1 = (word_of_nat (Suc (Suc a)) :: u64)" by simp
  have "\<exists>r'. leader_apply_loop E p n (word_of_nat (Suc (Suc a))) r1 = Ret r' ()
      \<and> (fsm r', sessions r') = foldl (apply_spec f) (fsm r1, sessions r1) (entries_between (view (wal r1)) (Suc a) (Suc a + n))
      \<and> lastApplied (store r') = (if n = 0 then lastApplied (store r1) else word_of_nat (Suc a + n))"
    by (rule Suc.IH [OF _ _ _ _ s(2,3)])
      (use Suc.prems s(4,6) apply_spec_ok [OF assms(1), of "(fsm r, sessions r)" e] in \<open>auto simp flip: s(4)\<close>)
  then show ?case unfolding sp foldl_Cons s(4) [symmetric] by (auto simp: s w simp del: of_nat_Suc)
qed simp

lemma leader_apply_spec:
  assumes "returns E ok f" and "golog_laws E view" and "ok (fsm r)" and "view_ok (view (wal r))"
    and "fst (view (wal r)) \<le> unat (lastApplied (store r))"
    and "unat (commitIndex (store r)) \<le> last_of (view (wal r))" and "lastApplied (store r) \<le> commitIndex (store r)"
    and "heap r p = Some (Leader l)" and "waiters_open r l"
  shows "\<exists>r'. applyToFiniteStateMachine_leader E p r = Ret r' ()
    \<and> (fsm r', sessions r') = foldl (apply_spec f) (fsm r, sessions r)
        (entries_between (view (wal r)) (unat (lastApplied (store r))) (unat (commitIndex (store r))))
    \<and> lastApplied (store r') = commitIndex (store r)"
proof -
  let ?a = "unat (lastApplied (store r))" and ?b = "unat (commitIndex (store r))"
  have le: "?a \<le> ?b" using assms(7) by (simp add: word_le_nat_alt)
  have w: "lastApplied (store r) + 1 = word_of_nat (Suc ?a)" by simp
  show ?thesis
    using leader_apply_loop_spec [OF assms(1-5) _ assms(8,9), of "?b - ?a"] assms(6) le
    unfolding applyToFiniteStateMachine_leader_def leader_apply_range_def w
    by (auto simp: word_unat_eq_iff split: if_splits simp del: of_nat_Suc)
qed

section \<open>Properties\<close>

text \<open>
  C12. Applying on a follower refines the specification: with a state machine that returns and a
  readable log, the loop ends, the state machine and the session table are those of the
  specification run over the committed entries not yet applied, and the last applied index is the
  commit index.
\<close>

theorem follower_apply_refines_spec:
  assumes "returns E ok f" and "golog_laws E view" and "ok (fsm r)" and "view_ok (view (wal r))"
    and "fst (view (wal r)) \<le> unat (lastApplied (store r))"
    and "unat (commitIndex (store r)) \<le> last_of (view (wal r))" and "lastApplied (store r) \<le> commitIndex (store r)"
  shows "\<exists>r'. applyToFiniteStateMachine_follower E r = Ret r' ()
    \<and> (fsm r', sessions r') = foldl (apply_spec f) (fsm r, sessions r)
        (entries_between (view (wal r)) (unat (lastApplied (store r))) (unat (commitIndex (store r))))
    \<and> lastApplied (store r') = commitIndex (store r)"
  by (rule follower_apply_spec [OF assms])

definition behind :: "(logview, bytes list) raft" where
  "behind = (sample_follower sample_log)\<lparr>store := sample_store\<lparr>currentTerm := 2, commitIndex := 2\<rparr>\<rparr>"

lemma behind: "wal behind = sample_log" "commitIndex (store behind) = 2" "lastApplied (store behind) = 0"
  "fsm behind = []" "sessions behind = NewSessionTable" "fst sample_log = 0" "last_of sample_log = 3"
  by (simp_all add: behind_def sample_follower_def blank_def sample_store_def sample_log_def last_of_def)

lemma sample_returns: "returns sample_env (\<lambda>_. True) (\<lambda>s bs. (s @ [bs], AnyNil))"
  by (simp add: returns_def node_simps)

theorem follower_apply_refines_spec_witness:
  "\<exists>r'. applyToFiniteStateMachine_follower sample_env behind = Ret r' ()
     \<and> (fsm r', sessions r') = foldl (apply_spec (\<lambda>s bs. (s @ [bs], AnyNil))) ([], NewSessionTable)
         (entries_between sample_log 0 2)
     \<and> lastApplied (store r') = 2"
  using follower_apply_refines_spec [OF sample_returns sample_env_laws, of behind]
  by (simp add: behind sample_log_ok)

text \<open>
  C13. The leader's applier, which also answers the waiting proposals, and the follower's loop do the
  same to the state machine: from nodes with the same log, commit index, applied index, state and
  sessions they reach the same state, sessions and applied index.
\<close>

theorem leader_applies_like_follower:
  assumes "returns E ok f" and "golog_laws E view" and "ok (fsm r)" and "view_ok (view (wal r))"
    and "fst (view (wal r)) \<le> unat (lastApplied (store r))"
    and "unat (commitIndex (store r)) \<le> last_of (view (wal r))" and "lastApplied (store r) \<le> commitIndex (store r)"
    and "heap r p = Some (Leader l)" and "waiters_open r l"
    and "wal q = wal r" "fsm q = fsm r" "sessions q = sessions r" "commitIndex (store q) = commitIndex (store r)"
    and "lastApplied (store q) = lastApplied (store r)"
  shows "\<exists>r' q'. applyToFiniteStateMachine_leader E p r = Ret r' () \<and> applyToFiniteStateMachine_follower E q = Ret q' ()
    \<and> fsm r' = fsm q' \<and> sessions r' = sessions q' \<and> lastApplied (store r') = lastApplied (store q')"
  using leader_apply_spec [OF assms(1-9)] follower_apply_spec [OF assms(1,2), of q] assms(3-7,10-14) by (metis prod.inject)

definition ahead :: "(logview, bytes list) raft" where
  "ahead = (sample_leader sample_log (\<lambda>_. 0))\<lparr>store := sample_store\<lparr>currentTerm := 2, commitIndex := 2\<rparr>\<rparr>"

lemma ahead: "wal ahead = sample_log" "commitIndex (store ahead) = 2" "lastApplied (store ahead) = 0"
  "fsm ahead = []" "sessions ahead = NewSessionTable"
  "heap ahead 0 = Some (Leader ((NewLeaderRole sample_config)\<lparr>l_matchIndex := \<lambda>_. 0\<rparr>))"
  by (simp_all add: ahead_def sample_leader_def blank_def sample_store_def)

theorem leader_applies_like_follower_witness:
  "\<exists>r' q'. applyToFiniteStateMachine_leader sample_env 0 ahead = Ret r' ()
     \<and> applyToFiniteStateMachine_follower sample_env behind = Ret q' ()
     \<and> fsm r' = fsm q' \<and> sessions r' = sessions q' \<and> lastApplied (store r') = lastApplied (store q')"
  by (rule leader_applies_like_follower [OF sample_returns sample_env_laws _ _ _ _ _ ahead(6)])
    (simp_all add: ahead behind sample_log_ok waiters_open_def NewLeaderRole_def)

text \<open>
  C4. A command with a session is applied at most once by passes that are not interrupted: in one pass
  of the follower's loop or of the leader's, with no other step in between, the commands that reach
  the state machine are a subsequence of the committed entries, those of one client have strictly
  increasing sequence numbers, and none of them was recorded in the session table before; afterwards
  all of them are, and what was recorded stays so, so that no later pass of the process applies
  them again. A restart empties the table, and an applier that is overtaken between its steps by
  the loop of a follower is outside of this; both are shown to apply a command twice.
\<close>

theorem session_commands_applied_at_most_once:
  assumes "returns E ok f" and "golog_laws E view" and "ok (fsm r)" and "view_ok (view (wal r))"
    and "fst (view (wal r)) \<le> unat (lastApplied (store r))"
    and "unat (commitIndex (store r)) \<le> last_of (view (wal r))" and "lastApplied (store r) \<le> commitIndex (store r)"
    and "pass = applyToFiniteStateMachine_follower E r
      \<or> (\<exists>p l. heap r p = Some (Leader l) \<and> waiters_open r l \<and> pass = applyToFiniteStateMachine_leader E p r)"
  shows "\<exists>r' xs. pass = Ret r' ()
    \<and> fsm r' = foldl (\<lambda>s e. fst (f s (Data e))) (fsm r) xs
    \<and> subseq xs (entries_between (view (wal r)) (unat (lastApplied (store r))) (unat (commitIndex (store r))))
    \<and> (\<forall>c. c \<noteq> [] \<longrightarrow> sorted_wrt (<) (map SequenceNumber (filter (\<lambda>e. ClientId e = c) xs)))
    \<and> (\<forall>e\<in>set xs. ClientId e \<noteq> [] \<longrightarrow> \<not> fst (IsDuplicate (sessions r) (ClientId e) (SequenceNumber e))
         \<and> fst (IsDuplicate (sessions r') (ClientId e) (SequenceNumber e)))
    \<and> (\<forall>c n. fst (IsDuplicate (sessions r) c n) \<longrightarrow> fst (IsDuplicate (sessions r') c n))"
proof -
  let ?es = "entries_between (view (wal r)) (unat (lastApplied (store r))) (unat (commitIndex (store r)))"
  let ?xs = "executed f (fsm r, sessions r) ?es"
  obtain r' where r': "pass = Ret r' ()" "(fsm r', sessions r') = foldl (apply_spec f) (fsm r, sessions r) ?es"
    using assms(8) follower_apply_spec [OF assms(1-7)] leader_apply_spec [OF assms(1-7)] by blast
  moreover have "fsm r' = foldl (\<lambda>s e. fst (f s (Data e))) (fsm r) ?xs"
    using executed_state [of f "(fsm r, sessions r)" ?es] r'(2) by (metis fst_conv)
  moreover have ses: "sessions r' = snd (foldl (apply_spec f) (fsm r, sessions r) ?es)" using r'(2) by (metis snd_conv)
  moreover have "fst (IsDuplicate (sessions r') (ClientId e) (SequenceNumber e))" if "e \<in> set ?xs" "ClientId e \<noteq> []" for e
    unfolding ses by (rule executed_recorded [OF that])
  moreover have "fst (IsDuplicate (sessions r') c n)" if "fst (IsDuplicate (sessions r) c n)" for c n
    unfolding ses by (rule dup_foldl_keeps) (simp add: that)
  ultimately show ?thesis
    using executed_increasing [of _ f "(fsm r, sessions r)" ?es] executed_subseq [of f "(fsm r, sessions r)" ?es]
    by (intro exI [of _ r'] exI [of _ ?xs]) auto
qed

theorem session_commands_applied_at_most_once_witness:
  "\<exists>r' xs. applyToFiniteStateMachine_leader sample_env 0 ahead = Ret r' ()
     \<and> fsm r' = foldl (\<lambda>s e. s @ [Data e]) [] xs \<and> subseq xs (entries_between sample_log 0 2)"
proof -
  let ?pass = "applyToFiniteStateMachine_leader sample_env 0 ahead"
  have "?pass = applyToFiniteStateMachine_follower sample_env ahead
      \<or> (\<exists>p l. heap ahead p = Some (Leader l) \<and> waiters_open ahead l \<and> ?pass = applyToFiniteStateMachine_leader sample_env p ahead)"
    by (rule disjI2, rule exI [of _ 0], rule exI, intro conjI, rule ahead) (simp_all add: waiters_open_def NewLeaderRole_def)
  from session_commands_applied_at_most_once [OF sample_returns sample_env_laws _ _ _ _ _ this]
  show ?thesis by (auto simp: ahead behind sample_log_ok)
qed

definition race_entry :: LogEntry where
  "race_entry = \<lparr>Data = [7], Term = 2, ClientId = [99], SequenceNumber = 1\<rparr>"

definition racing :: "(logview, bytes list) raft" where
  "racing = (sample_leader (0, [Serialize race_entry]) (\<lambda>_. 1))\<lparr>store := sample_store\<lparr>currentTerm := 2, commitIndex := 1\<rparr>\<rparr>"

lemma race_entry_read: "DeserializeLogEntry (Serialize race_entry) = Inr race_entry"
  by (simp add: entry.dec_enc recoverable_def race_entry_def)

text \<open>
  C9. A command of a session can reach the state machine twice. The applier of a leader runs outside of
  the mutex; here it stands between the call of the state machine and the record of the session when
  a request of a new leader makes the node a follower, whose loop finds neither a record nor a higher
  applied index and applies the entry again: the log holds the entry once, the state machine has
  received its command twice.
\<close>

theorem applier_race_applies_twice:
  "\<exists>r1 r2. applier_path sample_env 0 (Passing, racing) (Recording 1 1 race_entry AnyNil, r1)
     \<and> HandleAppendEntries sample_env 3 [98] 1 2 [] 1 r1 = Ret r2 (3, True, 0, 0)
     \<and> wal racing = (0, [Serialize race_entry]) \<and> wal r2 = wal racing \<and> ClientId race_entry \<noteq> []
     \<and> fsm racing = [] \<and> fsm r2 = [Data race_entry, Data race_entry]"
proof -
  have Suc_3: "Suc 3 = 4" by simp
  note deep = Follower_HandleAppendEntries.simps(2) [of 3, unfolded Suc_3]
  let ?r1 = "racing\<lparr>fsm := [[7]]\<rparr>"
  have 1: "applier_micro sample_env 0 False Passing racing = Ret racing (Loaded 1)"
    by (simp add: racing_def)
  have 2: "applier_micro sample_env 0 False (Loaded 1) racing = Ret racing (Looping 1 1)"
    by (simp add: racing_def sample_leader_def blank_def sample_store_def)
  have 3: "applier_micro sample_env 0 False (Looping 1 1) racing = Ret racing (Looking 1 1 race_entry)"
    by (simp add: racing_def node_simps race_entry_read)
  have 4: "applier_micro sample_env 0 False (Looking 1 1 race_entry) racing = Ret racing (Applying 1 1 race_entry)"
    by (simp add: racing_def node_simps race_entry_def IsDuplicate_def NewSessionTable_def)
  have 5: "applier_micro sample_env 0 False (Applying 1 1 race_entry) racing = Ret ?r1 (Recording 1 1 race_entry AnyNil)"
    by (simp add: run_machine_def racing_def node_simps race_entry_def)
  have path: "applier_path sample_env 0 (Passing, racing) (Recording 1 1 race_entry AnyNil, ?r1)"
    by (rule path_micro [OF 1 path_micro [OF 2 path_micro [OF 3 path_micro [OF 4 path_last [OF 5]]]]])
  have "\<exists>r2. HandleAppendEntries sample_env 3 [98] 1 2 [] 1 ?r1 = Ret r2 (3, True, 0, 0)
     \<and> wal r2 = wal racing \<and> fsm r2 = [[7], [7]]"
    by (simp add: racing_def HandleAppendEntries_def Leader_HandleAppendEntries_def stopApplier_def node_simps accept_append_def
        checkLogConsistency_def appendEntries_def write_and_commit_def applyToFiniteStateMachine_follower_def
        apply_command_def run_machine_def race_entry_read deep)
      (simp add: race_entry_def IsDuplicate_def NewSessionTable_def run_machine_def sample_env_ops)
  with path show ?thesis by (auto simp: racing_def sample_leader_def blank_def race_entry_def)
qed

text \<open>
  C18. A committed proposal is answered: when the leader applies the entry a proposal waits for, the
  waiting call receives the result of the state machine, the cached one for a duplicate, and an empty
  value in place of none.
\<close>

theorem applied_proposal_is_answered:
  assumes "returns E ok f" and "ok (fsm r)" and "heap r p = Some (Leader l)" and "waiters_open r l"
    and "gl_Read E (wal r) idx = Some bs" and "DeserializeLogEntry bs = Inr e" and "ch \<in> set (pending_at l idx)"
  shows "\<exists>r' r''. leader_apply_entry E p idx r = Ret r' True
    \<and> HandlePropose_receive ch r' = Some (Done (if answer_spec f (fsm r, sessions r) e = AnyNil \<and> Data e \<noteq> []
         then AnyStruct else answer_spec f (fsm r, sessions r) e), r'')"
  by (rule leader_apply_entry_spec [OF assms(1-6)]) (use assms(7) in \<open>auto simp: HandlePropose_receive_def\<close>)

theorem applied_proposal_is_answered_witness:
  "\<exists>r' r''. leader_apply_entry sample_env 0 2 (ahead\<lparr>chans := [0 \<mapsto> open_chan],
        heap := [0 \<mapsto> Leader ((NewLeaderRole sample_config)\<lparr>l_pending := [(2, [0])]\<rparr>)]\<rparr>) = Ret r' True
     \<and> HandlePropose_receive 0 r' = Some (Done AnyStruct, r'')"
proof -
  let ?l = "(NewLeaderRole sample_config)\<lparr>l_pending := [(2, [0])]\<rparr>"
  let ?r = "ahead\<lparr>chans := [0 \<mapsto> open_chan], heap := [0 \<mapsto> Leader ?l]\<rparr>"
  have "executes NewSessionTable (sample_entry 2 [8])"
    by (simp add: executes_def sample_entry_def IsDuplicate_def NewSessionTable_def)
  moreover have "gl_Read sample_env (wal ?r) 2 = Some (Serialize (sample_entry 2 [8]))"
    by (simp add: ahead sample_log_def node_simps)
  moreover have "waiters_open ?r ?l" by (simp add: waiters_open_def)
  ultimately show ?thesis
    using applied_proposal_is_answered [OF sample_returns, of ?r 0 ?l 2 _ "sample_entry 2 [8]" 0]
    by (simp add: answer_spec_def ahead sample_entry_read pending_at_def) (simp add: sample_entry_def)
qed

text \<open>
  C36. A restarted node applies every entry of its log, committed or not. Here it applies an entry that
  no other node has. When it has handled the request that replaces the entry and commits the leader's
  in its place, the index counts as applied: the node's log holds the leader's entry, its commit
  index covers it, and its state machine holds the command that was not committed, not the leader's.
\<close>

theorem restart_applies_uncommitted_entry:
  "\<exists>r' r''. NewRaft sample_env sample_rng empty_disk [98] [] trio (0, [Serialize (sample_entry 1 [7])])
        (sample_store\<lparr>currentTerm := 2\<rparr>) [] sample_config = Ret r' 0
     \<and> commitIndex (store r') = 0 \<and> lastApplied (store r') = 1 \<and> fsm r' = [[7]]
     \<and> HandleAppendEntries sample_env 2 [97] 0 0 [sample_entry 2 [8]] 1 r' = Ret r'' (2, True, 0, 0)
     \<and> wal r'' = (0, [Serialize (sample_entry 2 [8])]) \<and> commitIndex (store r'') = 1 \<and> fsm r'' = [[7]]"
proof -
  have "\<exists>d. NewRaft sample_env sample_rng empty_disk [98] [] trio (0, [Serialize (sample_entry 1 [7])])
        (sample_store\<lparr>currentTerm := 2\<rparr>) [] sample_config =
      Ret ((sample_follower (0, [Serialize (sample_entry 1 [7])]))\<lparr>fsm := [[7]], roleEpoch := 1,
         rgen := sample_rng\<lparr>rngDrawn := 1\<rparr>, fdisk := d,
         store := sample_store\<lparr>currentTerm := 2, lastApplied := 1\<rparr>\<rparr>) 0"
    by (simp add: node_simps apply_command_def run_machine_def, simp add: sample_entry_def)
  moreover have "\<exists>r''. HandleAppendEntries sample_env 2 [97] 0 0 [sample_entry 2 [8]] 1
      ((sample_follower (0, [Serialize (sample_entry 1 [7])]))\<lparr>fsm := [[7]], roleEpoch := 1,
         rgen := sample_rng\<lparr>rngDrawn := 1\<rparr>, fdisk := d,
         store := sample_store\<lparr>currentTerm := 2, lastApplied := 1\<rparr>\<rparr>) = Ret r'' (2, True, 0, 0)
      \<and> wal r'' = (0, [Serialize (sample_entry 2 [8])]) \<and> commitIndex (store r'') = 1 \<and> fsm r'' = [[7]]" for d
    by (simp add: node_simps HandleAppendEntries_def accept_append_def checkLogConsistency_def
        appendEntries_def write_and_commit_def applyToFiniteStateMachine_follower_def eval_nat_numeral)
      (simp add: sample_entry_def)
  ultimately show ?thesis by (fastforce simp: sample_follower_def blank_def sample_store_def)
qed

end
