(* ===== verification/Handlers.thy ===== *)
theory Handlers
  imports Application Samples
begin

text \<open>
  That the handlers of a node return: leaving a role releases the waiting proposals, becoming a
  follower always succeeds, and on a working disk a request is handled with at most one nested call.
\<close>

section \<open>Leaving a role\<close>

abbreviation closed_chan :: chan where
  "closed_chan \<equiv> \<lparr>ch_buf = [], ch_closed = True\<rparr>"

lemma close_chans_spec:
  assumes "distinct ws" and "\<And>c. c \<in> set ws \<Longrightarrow> chans r c = Some open_chan"
  shows "close_chans ws r = Ret (r\<lparr>chans := \<lambda>c. if c \<in> set ws then Some closed_chan else chans r c\<rparr>) ()"
  using assms
proof (induction ws arbitrary: r)
  case (Cons c ws)
  define r1 where "r1 = r\<lparr>chans := (chans r)(c \<mapsto> closed_chan)\<rparr>"
  have "bindO (close_chan c r) (\<lambda>r u. close_chans ws r) = close_chans ws r1"
    using Cons.prems(2) [of c] by (simp add: close_chan_def r1_def)
  moreover have "close_chans ws r1 = Ret (r1\<lparr>chans := \<lambda>c. if c \<in> set ws then Some closed_chan else chans r1 c\<rparr>) ()"
    using Cons.prems by (intro Cons.IH) (auto simp: r1_def)
  moreover have "r1\<lparr>chans := \<lambda>c. if c \<in> set ws then Some closed_chan else chans r1 c\<rparr>
      = r\<lparr>chans := \<lambda>d. if d \<in> set (c # ws) then Some closed_chan else chans r d\<rparr>"
    by (auto simp: r1_def intro!: arg_cong [of _ _ "\<lambda>x. r\<lparr>chans := x\<rparr>"])
  ultimately show ?case unfolding close_chans.simps by simp
qed simp

text \<open>\<open>retired r r'\<close>: only channels and role objects differ.\<close>

definition retired :: "('l, 's) raft \<Rightarrow> ('l, 's) raft \<Rightarrow> bool" where
  "retired r r' \<longleftrightarrow> r' = r\<lparr>chans := chans r', heap := heap r'\<rparr>"

lemma retired_refl: "retired r r"
  by (simp add: retired_def)

lemma retired_trans: "retired a b \<Longrightarrow> retired b c \<Longrightarrow> retired a c"
  unfolding retired_def by (cases a, cases b, cases c) simp

lemma retired_steps: "retired r (r\<lparr>chans := cs\<rparr>)" "retired r (upd_leader p g r)"
  by (cases r, auto simp: retired_def upd_leader_def split: option.splits role_obj.splits)

lemma retired_fields:
  assumes "retired r r'"
  shows "config r' = config r" "store r' = store r" "fdisk r' = fdisk r" "rgen r' = rgen r" "role r' = role r"
    "wal r' = wal r" "fsm r' = fsm r" "sessions r' = sessions r" "enabled r' = enabled r"
    "snapshotIndex r' = snapshotIndex r" "nextPtr r' = nextPtr r" "snapshotTerm r' = snapshotTerm r"
  using assms by (cases r, cases r', simp add: retired_def)+

lemma drain_pending_spec:
  assumes "distinct (concat (map snd ps))" and "\<And>iw c. iw \<in> set ps \<Longrightarrow> c \<in> set (snd iw) \<Longrightarrow> chans r c = Some open_chan"
  shows "\<exists>r'. drain_pending p ps r = Ret r' () \<and> retired r r'
     \<and> (\<forall>c. chans r' c = (if c \<in> (\<Union>iw\<in>set ps. set (snd iw)) then Some closed_chan else chans r c))
     \<and> (\<forall>q. (heap r' q = None) = (heap r q = None))"
  using assms
proof (induction ps arbitrary: r)
  case (Cons iw ps)
  define r1 where "r1 = r\<lparr>chans := \<lambda>c. if c \<in> set (snd iw) then Some closed_chan else chans r c\<rparr>"
  define r2 where "r2 = upd_leader p (\<lambda>l. l\<lparr>l_pending := filter (\<lambda>jw. fst jw \<noteq> fst iw) (l_pending l)\<rparr>) r1"
  have "close_chans (snd iw) r = Ret r1 ()"
    unfolding r1_def by (rule close_chans_spec) (use Cons.prems(1) Cons.prems(2) [of iw] in simp_all)
  then have step: "drain_pending p (iw # ps) r = drain_pending p ps r2" by (simp add: r2_def)
  have c2: "chans r2 = chans r1" "\<forall>q. (heap r2 q = None) = (heap r q = None)"
    by (auto simp: r2_def r1_def upd_leader_def split: option.splits role_obj.splits)
  have r2: "retired r r2"
    unfolding r2_def by (rule retired_trans [OF _ retired_steps(2)]) (simp add: r1_def retired_steps(1))
  have "\<exists>r'. drain_pending p ps r2 = Ret r' () \<and> retired r2 r'
     \<and> (\<forall>c. chans r' c = (if c \<in> (\<Union>iw\<in>set ps. set (snd iw)) then Some closed_chan else chans r2 c))
     \<and> (\<forall>q. (heap r' q = None) = (heap r2 q = None))"
    using Cons.prems by (intro Cons.IH) (auto simp: c2(1) r1_def)
  then obtain r' where r': "drain_pending p ps r2 = Ret r' ()" "retired r2 r'"
    "\<forall>c. chans r' c = (if c \<in> (\<Union>iw\<in>set ps. set (snd iw)) then Some closed_chan else chans r2 c)"
    "\<forall>q. (heap r' q = None) = (heap r2 q = None)"
    by blast
  then show ?case
    using step retired_trans [OF r2 r'(2)] c2 by (intro exI [of _ r']) (auto simp: r1_def)
qed (simp add: retired_refl)

text \<open>
  \<open>can_exit r\<close>: the role object of the node exists, and if it leads, its applier runs and its waiting
  proposals have open channels.
\<close>

definition can_exit :: "('l, 's) raft \<Rightarrow> bool" where
  "can_exit r \<longleftrightarrow>
     (\<forall>p. role r = Some p \<longrightarrow>
        heap r p \<noteq> None \<and> (\<forall>l. heap r p = Some (Leader l) \<longrightarrow> waiters_open r l \<and> \<not> l_applierStopped l))"

lemma exit_role_spec:
  assumes "can_exit r"
  obtains r' where "exit_role r = Ret r' ()" "retired r r'"
    and "\<And>p l i c. role r = Some p \<Longrightarrow> heap r p = Some (Leader l) \<Longrightarrow> c \<in> set (pending_at l i) \<Longrightarrow> chans r' c = Some closed_chan"
proof (cases "\<exists>p l. role r = Some p \<and> heap r p = Some (Leader l)")
  case False
  then have "exit_role r = Ret r ()"
    using assms by (auto simp: exit_role_def OnExit_def can_exit_def split: option.splits role_obj.splits)
  then show ?thesis using that [of r] retired_refl False by blast
next
  case True
  then obtain p l where p: "role r = Some p" "heap r p = Some (Leader l)" by blast
  then have w: "waiters_open r l" "\<not> l_applierStopped l" using assms by (auto simp: can_exit_def)
  define r1 where "r1 = upd_leader p (\<lambda>l. l\<lparr>l_applierStopped := True\<rparr>) r"
  have c1: "chans r1 = chans r" by (auto simp: r1_def upd_leader_def split: option.splits role_obj.splits)
  have "\<exists>r'. drain_pending p (l_pending l) r1 = Ret r' () \<and> retired r1 r'
     \<and> (\<forall>c. chans r' c = (if c \<in> (\<Union>iw\<in>set (l_pending l). set (snd iw)) then Some closed_chan else chans r1 c))
     \<and> (\<forall>q. (heap r' q = None) = (heap r1 q = None))"
    using w(1) by (intro drain_pending_spec) (auto simp: waiters_open_def c1)
  then obtain r' where r': "drain_pending p (l_pending l) r1 = Ret r' ()" "retired r1 r'"
    "\<And>c. c \<in> (\<Union>iw\<in>set (l_pending l). set (snd iw)) \<Longrightarrow> chans r' c = Some closed_chan"
    by auto
  have ex: "exit_role r = Ret r' ()"
    using p w(2) r'(1) by (simp add: exit_role_def OnExit_def stopApplier_def r1_def)
  have ret: "retired r r'" by (rule retired_trans [OF _ r'(2)]) (simp add: r1_def retired_steps(2))
  have cl: "chans r' c = Some closed_chan" if "c \<in> set (pending_at l i)" for i c
    using r'(3) pending_at_in [OF that] that by force
  show ?thesis by (rule that [OF ex ret]) (use p cl in auto)
qed

section \<open>Becoming a follower\<close>

lemma deadline_drawn:
  assumes "Validate cfg = None"
  obtains k g' where "electionDeadline_of cfg g = Some (k, g')"
proof -
  have "ElectionTimeoutMinTicks cfg \<le> ElectionTimeoutMaxTicks cfg" using assms by (simp add: Validate_None_iff)
  then show ?thesis by (rule electionDeadline_of_range) (rule that)
qed

text \<open>The state in which a new follower takes over.\<close>

definition entered :: "('l, 's) raft \<Rightarrow> ('l, 's) raft \<Rightarrow> nat \<Rightarrow> bool" where
  "entered r r' q \<longleftrightarrow>
     follower_here q r' \<and> config r' = config r \<and> wal r' = wal r \<and> fsm r' = fsm r \<and> sessions r' = sessions r
     \<and> snapshotIndex r' = snapshotIndex r \<and> snapshotTerm r' = snapshotTerm r"

lemma store_write_fault_free:
  assumes "fault_free d"
  shows "\<exists>d'. store_write s d = (None, d') \<and> fault_free d'"
proof -
  have "fst (run_steps (store_write_steps (storeName s) (currentTerm s, votedFor s)) d) = None
      \<and> fault_free (snd (run_steps (store_write_steps (storeName s) (currentTerm s, votedFor s)) d))"
    by (rule fault_free_run [OF _ assms]) (auto simp: store_write_steps_def Let_def fault_free_ops)
  then show ?thesis
    by (cases "run_steps (store_write_steps (storeName s) (currentTerm s, votedFor s)) d")
      (auto simp: store_write_def fault_free_ops(6))
qed

lemma Follower_OnEnter_spec:
  assumes "follower_here q r"
  obtains r' where "Follower_OnEnter t r = Ret r' ()" "follower_here q r'"
    and "r' = r\<lparr>store := store r', fdisk := fdisk r', healthy := healthy r', enabled := enabled r'\<rparr>"
    and "fault_free (fdisk r) \<longrightarrow> fault_free (fdisk r') \<and> enabled r' = enabled r
           \<and> currentTerm (store r') = max t (currentTerm (store r))
           \<and> commitIndex (store r') = commitIndex (store r) \<and> lastApplied (store r') = lastApplied (store r)"
proof (cases "t > currentTerm (store r)")
  case False
  then have "Follower_OnEnter t r = Ret (upd_store (SetLeaderId []) r) ()" by (simp add: Follower_OnEnter_def)
  then show ?thesis
    by (rule that) (use assms False in \<open>simp_all add: follower_here_def upd_store_def SetLeaderId_def max_def not_less\<close>)
next
  case True
  obtain err s1 d1 where w: "SetCurrentTermAndVotedFor t [] (store r) (fdisk r) = (err, s1, d1)"
    by (rule prod_cases3)
  let ?r = "r\<lparr>store := s1, fdisk := d1\<rparr>"
  have os: "on_store (SetCurrentTermAndVotedFor t []) r = (err, ?r)" by (simp add: on_store_def w)
  have here: "role ?r = Some q" "\<exists>f. heap ?r q = Some (Follower f)" using assms by (simp_all add: follower_here_def)
  show ?thesis
  proof (cases err)
    case None
    then have "Follower_OnEnter t r = Ret (upd_store (SetLeaderId []) ?r) ()"
      using True os by (simp add: Follower_OnEnter_def)
    moreover have "fault_free (fdisk r) \<Longrightarrow> fault_free d1 \<and> currentTerm s1 = t
        \<and> commitIndex s1 = commitIndex (store r) \<and> lastApplied s1 = lastApplied (store r)"
      using w None store_write_fault_free [of "fdisk r" "store r\<lparr>currentTerm := t, votedFor := []\<rparr>"]
      by (auto simp: SetCurrentTermAndVotedFor_def Let_def split: prod.splits option.splits)
    ultimately show ?thesis
      using that [of "upd_store (SetLeaderId []) ?r"] here True
      by (simp add: follower_here_def upd_store_def SetLeaderId_def max_absorb1 order_less_imp_le)
  next
    case (Some e)
    then have "Follower_OnEnter t r = Ret (?r\<lparr>healthy := False, enabled := False\<rparr>) ()"
      using True os here by (auto simp: Follower_OnEnter_def markUnhealthy_def exit_role_def OnExit_def)
    moreover have "\<not> fault_free (fdisk r)"
      using w Some store_write_fault_free [of "fdisk r" "store r\<lparr>currentTerm := t, votedFor := []\<rparr>"]
      by (auto simp: SetCurrentTermAndVotedFor_def Let_def split: prod.splits option.splits)
    ultimately show ?thesis
      using that [of "?r\<lparr>healthy := False, enabled := False\<rparr>"] here by (simp add: follower_here_def)
  qed
qed

lemma becomeFollower_spec:
  assumes "can_exit r" and "Validate (config r) = None"
  obtains r' q where "becomeFollower t r = Ret r' q" "entered r r' q"
    and "\<And>p l i c. role r = Some p \<Longrightarrow> heap r p = Some (Leader l) \<Longrightarrow> c \<in> set (pending_at l i) \<Longrightarrow> chans r' c = Some closed_chan"
    and "fault_free (fdisk r) \<longrightarrow> fault_free (fdisk r') \<and> enabled r' = enabled r
           \<and> currentTerm (store r') = max t (currentTerm (store r))
           \<and> commitIndex (store r') = commitIndex (store r) \<and> lastApplied (store r') = lastApplied (store r)"
proof -
  obtain r1 where r1: "exit_role r = Ret r1 ()" "retired r r1"
    "\<And>p l i c. role r = Some p \<Longrightarrow> heap r p = Some (Leader l) \<Longrightarrow> c \<in> set (pending_at l i) \<Longrightarrow> chans r1 c = Some closed_chan"
    using exit_role_spec [OF assms(1)] by blast
  note f1 = retired_fields [OF r1(2)]
  obtain k g where k: "electionDeadline_of (config r) (rgen r) = Some (k, g)"
    by (rule deadline_drawn [OF assms(2)])
  define q where "q = nextPtr r1"
  define r2 where "r2 = r1\<lparr>roleEpoch := roleEpoch r1 + 1, rgen := g,
     heap := (heap r1)(q \<mapsto> Follower \<lparr>f_electionDeadline = k, f_electionTicks = 0\<rparr>), nextPtr := Suc q, role := Some q\<rparr>"
  have "follower_here q r2" by (simp add: follower_here_def r2_def)
  then obtain r' where r': "Follower_OnEnter t r2 = Ret r' ()" "follower_here q r'"
    "r' = r2\<lparr>store := store r', fdisk := fdisk r', healthy := healthy r', enabled := enabled r'\<rparr>"
    "fault_free (fdisk r2) \<longrightarrow> fault_free (fdisk r') \<and> enabled r' = enabled r2
           \<and> currentTerm (store r') = max t (currentTerm (store r2))
           \<and> commitIndex (store r') = commitIndex (store r2) \<and> lastApplied (store r') = lastApplied (store r2)"
    by (rule Follower_OnEnter_spec [where t = t])
  have "becomeFollower t r = Ret r' q"
    using r1(1) r'(1) k by (simp add: becomeFollower_def NewFollowerRole_eq f1 r2_def q_def)
  moreover have "entered r r' q"
    using r'(2) by (subst r'(3)) (simp add: entered_def r2_def f1 follower_here_def)
  moreover have "chans r' = chans r1" by (subst r'(3)) (simp add: r2_def)
  moreover have "fdisk r2 = fdisk r" "store r2 = store r" "enabled r2 = enabled r" by (simp_all add: r2_def f1)
  ultimately show ?thesis using that [of r' q] r1(3) r'(4) by metis
qed

section \<open>Requests\<close>

lemma resetElectionTimer_spec:
  assumes "follower_here q r" and "Validate (config r) = None"
  obtains r' where "resetElectionTimer q r = Ret r' ()" "entered r r' q" "store r' = store r" "fdisk r' = fdisk r"
proof -
  obtain k g where k: "electionDeadline_of (config r) (rgen r) = Some (k, g)"
    by (rule deadline_drawn [OF assms(2)])
  let ?r = "upd_follower q (\<lambda>f. f\<lparr>f_electionDeadline := k, f_electionTicks := 0\<rparr>) (r\<lparr>rgen := g\<rparr>)"
  have "resetElectionTimer q r = Ret ?r ()" using k by (simp add: resetElectionTimer_def)
  then show ?thesis
    by (rule that) (use assms(1) in \<open>auto simp: entered_def follower_here_def upd_follower_def\<close>)
qed

lemma decide_vote_returns:
  assumes "follower_here q r" and "Validate (config r) = None"
  shows "\<exists>r' a. decide_vote E q c i lt r = Ret r' a"
proof -
  obtain err r1 where w: "on_store (SetVotedFor c) r = (err, r1)" by (cases "on_store (SetVotedFor c) r")
  have here: "follower_here q r1" "config r1 = config r"
    using w assms(1) by (auto simp: on_store_def follower_here_def split: prod.splits)
  have "\<exists>r'. resetElectionTimer q r1 = Ret r' ()"
    using resetElectionTimer_spec [OF here(1)] assms(2) here(2) by metis
  moreover have "\<exists>r'. markUnhealthy r1 = Ret r' ()"
    using here(1) by (auto simp: markUnhealthy_def exit_role_def OnExit_def follower_here_def)
  ultimately show ?thesis using w by (auto simp: decide_vote_def Let_def split: option.splits)
qed

lemma Follower_RequestVote_returns:
  assumes "follower_here q r" and "Validate (config r) = None" and "fault_free (fdisk r)" and "2 \<le> n"
  shows "\<exists>r' a. Follower_HandleRequestVote n E q t c i lt r = Ret r' a"
proof -
  obtain m where m: "n = Suc (Suc m)" using assms(4) by (metis One_nat_def Suc_1 Suc_le_D Suc_le_mono)
  show ?thesis
  proof (cases "t > currentTerm (store r)")
    case True
    have "can_exit r" using assms(1) by (auto simp: can_exit_def follower_here_def)
    then obtain r1 q1 where r1: "becomeFollower t r = Ret r1 q1" "entered r r1 q1"
      "currentTerm (store r1) = max t (currentTerm (store r))"
      using becomeFollower_spec [OF _ assms(2)] assms(3) by metis
    then have "\<exists>r' a. decide_vote E q1 c i lt r1 = Ret r' a"
      using decide_vote_returns assms(2) by (metis entered_def)
    then show ?thesis using r1 True by (auto simp: m max_absorb1 order_less_imp_le)
  next
    case False
    then show ?thesis using decide_vote_returns [OF assms(1,2)] by (auto simp: m)
  qed
qed

lemma apply_loop_returns:
  assumes "returns E ok f"
  shows "ok (fsm r) \<Longrightarrow> \<exists>r'. apply_loop E n i r = Ret r' ()"
proof (induction n arbitrary: i r)
  case (Suc n)
  have "ok (fsm (upd_store g (r\<lparr>fsm := fst (apply_spec f (fsm r, sessions r) e), sessions := ses\<rparr>)))" for g e ses
    using apply_spec_ok [OF assms, of "(fsm r, sessions r)" e] Suc.prems by (simp add: upd_store_def)
  from Suc.IH [OF this] show ?case
    by (auto simp: apply_command_spec [OF assms Suc.prems] split: option.splits sum.splits)
qed simp

lemma accept_append_returns:
  assumes "follower_here q r" and "Validate (config r) = None" and "returns E ok f" and "ok (fsm r)"
  shows "\<exists>r' a. accept_append E q leader prev pt es ci r = Ret r' a"
proof -
  obtain r1 where r1: "resetElectionTimer q r = Ret r1 ()" "entered r r1 q"
    using resetElectionTimer_spec [OF assms(1,2)] by metis
  have "\<exists>r'. applyToFiniteStateMachine_follower E x = Ret r' ()" if "fsm x = fsm r1" for x
    using apply_loop_returns [OF assms(3), of x] assms(4) r1(2) that
    by (auto simp: applyToFiniteStateMachine_follower_def Let_def entered_def)
  moreover have "fsm (setCommitIndex E ci ((upd_store g x)\<lparr>wal := w\<rparr>)) = fsm x" for g w and x :: "('a, 'b) raft"
    by (simp add: setCommitIndex_def Let_def upd_store_def split: prod.splits)
  ultimately show ?thesis
    using r1(1) by (auto simp: accept_append_def Let_def split: prod.splits bool.splits)
qed

lemma Follower_AppendEntries_returns:
  assumes "follower_here q r" and "Validate (config r) = None" and "fault_free (fdisk r)" and "2 \<le> n"
    and "returns E ok f" and "ok (fsm r)"
  shows "\<exists>r' a. Follower_HandleAppendEntries n E q t leader prev pt es ci r = Ret r' a"
proof -
  obtain m where m: "n = Suc (Suc m)" using assms(4) by (metis One_nat_def Suc_1 Suc_le_D Suc_le_mono)
  show ?thesis
  proof (cases "t > currentTerm (store r)")
    case True
    have "can_exit r" using assms(1) by (auto simp: can_exit_def follower_here_def)
    then obtain r1 q1 where r1: "becomeFollower t r = Ret r1 q1" "entered r r1 q1"
      "currentTerm (store r1) = max t (currentTerm (store r))"
      using becomeFollower_spec [OF _ assms(2)] assms(3) by metis
    then have "\<exists>r' a. accept_append E q1 leader prev pt es ci r1 = Ret r' a"
      using accept_append_returns [OF _ _ assms(5), of q1 r1] assms(2,6) by (simp add: entered_def)
    then show ?thesis using r1 True by (auto simp: m max_absorb1 order_less_imp_le)
  next
    case False
    then show ?thesis using accept_append_returns [OF assms(1,2,5,6)] by (auto simp: m)
  qed
qed

lemma Follower_InstallSnapshot_returns:
  assumes "follower_here q r" and "Validate (config r) = None"
  shows "\<exists>r' a. Follower_HandleInstallSnapshot E q t leader i lt bs r = Ret r' a"
proof -
  have acc: "\<exists>r' a. accept_snapshot E q ct leader i lt bs x = Ret r' a"
    if "follower_here q x" "config x = config r" for x :: "('a, 'b) raft" and ct
    using resetElectionTimer_spec [OF that(1)] assms(2) that(2) by (auto simp: accept_snapshot_def Let_def) metis
  obtain err r1 where w: "on_store (SetCurrentTermAndVotedFor t []) r = (err, r1)"
    by (cases "on_store (SetCurrentTermAndVotedFor t []) r")
  then have "follower_here q r1" "config r1 = config r"
    using assms(1) by (auto simp: on_store_def follower_here_def split: prod.splits)
  moreover from this(1) have "\<exists>r'. markUnhealthy r1 = Ret r' ()"
    by (auto simp: markUnhealthy_def exit_role_def OnExit_def follower_here_def)
  ultimately show ?thesis
    using w acc [OF assms(1)] acc [of r1]
    by (auto simp: Follower_HandleInstallSnapshot_def Let_def split: option.splits)
qed

text \<open>A handler of another role that first becomes a follower.\<close>

lemma via_follower_returns:
  assumes "can_exit r" and "Validate (config r) = None" and "fault_free (fdisk r)"
    and "\<And>r1 q. follower_here q r1 \<Longrightarrow> config r1 = config r \<Longrightarrow> fsm r1 = fsm r \<Longrightarrow> fault_free (fdisk r1) \<Longrightarrow> \<exists>r' a. g r1 q = Ret r' a"
  shows "\<exists>r' a. bindO (becomeFollower t r) g = Ret r' a"
proof -
  obtain r1 q where "becomeFollower t r = Ret r1 q" "entered r r1 q" "fault_free (fdisk r1)"
    using becomeFollower_spec [OF assms(1,2)] assms(3) by metis
  then show ?thesis using assms(4) [of q r1] by (auto simp: entered_def)
qed

section \<open>A disk that fails\<close>

lemma store_write_failing:
  assumes "\<forall>n. faults d n = Some 0"
  shows "\<exists>e d'. store_write s d = (Some e, d') \<and> (\<forall>n. faults d' n = Some 0)"
  using assms by (simp add: store_write_def store_write_steps_def os_plain_def io_def Let_def)

lemma becomeFollower_failing:
  assumes "follower_here q r" and "Validate (config r) = None" and "\<forall>n. faults (fdisk r) n = Some 0"
    and "currentTerm (store r) < t"
  shows "\<exists>r' q'. becomeFollower t r = Ret r' q' \<and> follower_here q' r' \<and> config r' = config r
    \<and> (\<forall>n. faults (fdisk r') n = Some 0) \<and> currentTerm (store r') = currentTerm (store r)"
proof -
  obtain k g where k: "electionDeadline_of (config r) (rgen r) = Some (k, g)"
    by (rule deadline_drawn [OF assms(2)])
  obtain e d' where w: "store_write (store r\<lparr>currentTerm := t, votedFor := []\<rparr>) (fdisk r) = (Some e, d')"
    "\<forall>n. faults d' n = Some 0"
    using store_write_failing [OF assms(3)] by blast
  obtain f where f: "role r = Some q" "heap r q = Some (Follower f)" using assms(1) by (auto simp: follower_here_def)
  show ?thesis
    using assms(4) k w f
    by (simp add: becomeFollower_def exit_role_def OnExit_def NewFollowerRole_eq Follower_OnEnter_def on_store_def
        SetCurrentTermAndVotedFor_def Let_def markUnhealthy_def follower_here_def)
qed

section \<open>Progress\<close>

text \<open>Every handler returns, in any role; the nested calls need room for two.\<close>

lemma handlers_return:
  assumes "role r = Some p" and "can_exit r" and "Validate (config r) = None" and "fault_free (fdisk r)"
    and "returns E ok f" and "ok (fsm r)" and "2 \<le> stackDepth E"
  shows "(\<exists>r' a. HandleAppendEntries E t leader prev pt es ci r = Ret r' a)
    \<and> (\<exists>r' a. HandlePreVote E t c i lt r = Ret r' a)
    \<and> (\<exists>r' a. HandleRequestVote E t c i lt r = Ret r' a)
    \<and> (\<exists>r' a. HandleInstallSnapshot E t leader i lt bs r = Ret r' a)"
proof -
  note via = via_follower_returns [OF assms(2-4)]
  have ae: "\<exists>r' a. bindO (becomeFollower t r)
      (\<lambda>r q. Follower_HandleAppendEntries (stackDepth E) E q t leader prev pt es ci r) = Ret r' a"
    by (rule via, rule Follower_AppendEntries_returns [OF _ _ _ assms(7,5)]) (use assms(3,6) in simp_all)
  have rv: "\<exists>r' a. bindO (becomeFollower t r)
      (\<lambda>r q. Follower_HandleRequestVote (stackDepth E) E q t c i lt r) = Ret r' a"
    by (rule via, rule Follower_RequestVote_returns [OF _ _ _ assms(7)]) (use assms(3) in simp_all)
  have ins: "\<exists>r' a. bindO (becomeFollower t r)
      (\<lambda>r q. Follower_HandleInstallSnapshot E q t leader i lt bs r) = Ret r' a"
    by (rule via, rule Follower_InstallSnapshot_returns) (use assms(3) in simp_all)
  obtain ob where ob: "heap r p = Some ob" using assms(1,2) by (auto simp: can_exit_def)
  show ?thesis
  proof (cases ob)
    case (Follower x)
    then have h: "follower_here p r" using ob assms(1) by (simp add: follower_here_def)
    show ?thesis
      using Follower_AppendEntries_returns [OF h assms(3,4,7,5,6)] Follower_RequestVote_returns [OF h assms(3,4,7)]
        Follower_InstallSnapshot_returns [OF h assms(3)] Follower ob assms(1)
      by (auto simp: HandleAppendEntries_def HandlePreVote_def HandleRequestVote_def HandleInstallSnapshot_def
          on_role_def Follower_HandlePreVote_def)
  next
    case (Candidate x)
    then show ?thesis
      using ae rv ins ob assms(1)
      by (auto simp: HandleAppendEntries_def HandlePreVote_def HandleRequestVote_def HandleInstallSnapshot_def
          on_role_def Candidate_HandleAppendEntries_def Candidate_HandlePreVote_def Candidate_HandleRequestVote_def
          Candidate_HandleInstallSnapshot_def)
  next
    case (Leader x)
    then show ?thesis
      using ae rv ins ob assms(1)
      by (auto simp: HandleAppendEntries_def HandlePreVote_def HandleRequestVote_def HandleInstallSnapshot_def
          on_role_def Leader_HandleAppendEntries_def Leader_HandlePreVote_def Leader_HandleRequestVote_def
          Leader_HandleInstallSnapshot_def)
  qed
qed

section \<open>Properties\<close>

definition steady :: "(logview, bytes list) raft" where
  "steady = (sample_leader sample_log (\<lambda>_. 0))\<lparr>config := DefaultConfig\<rparr>"

lemma steady: "role steady = Some 0" "config steady = DefaultConfig" "fault_free (fdisk steady)"
  "heap steady 0 = Some (Leader ((NewLeaderRole sample_config)\<lparr>l_matchIndex := \<lambda>_. 0\<rparr>))"
  "can_exit steady"
  by (simp_all add: steady_def sample_leader_def blank_def empty_disk_def fault_free_def can_exit_def waiters_open_def
      NewLeaderRole_def)

text \<open>
  C15. A leader that steps down releases every waiting proposal: becoming a follower returns, whatever
  the disk does, the node is a follower, and each call that waits for an entry receives the error
  that the leader stepped down.
\<close>

theorem step_down_releases_waiters:
  assumes "can_exit r" and "Validate (config r) = None" and "role r = Some p" and "heap r p = Some (Leader l)"
  shows "\<exists>r' q. becomeFollower t r = Ret r' q \<and> role_kind_of r' = Some KFollower
    \<and> (\<forall>i. \<forall>ch\<in>set (pending_at l i). HandlePropose_receive ch r' = Some (Failed SteppedDown, r'))"
proof -
  obtain r' q where "becomeFollower t r = Ret r' q" "entered r r' q"
    and "\<And>p l i c. role r = Some p \<Longrightarrow> heap r p = Some (Leader l) \<Longrightarrow> c \<in> set (pending_at l i) \<Longrightarrow> chans r' c = Some closed_chan"
    by (rule becomeFollower_spec [OF assms(1,2), where t = t]) blast
  then show ?thesis
    using assms(3,4)
    by (intro exI [of _ r'] exI [of _ q])
      (auto simp: entered_def follower_here_def role_kind_of_def HandlePropose_receive_def)
qed

theorem step_down_releases_waiters_witness:
  "\<exists>r' q. becomeFollower 3 (steady\<lparr>chans := [0 \<mapsto> open_chan],
        heap := [0 \<mapsto> Leader ((NewLeaderRole sample_config)\<lparr>l_pending := [(4, [0])]\<rparr>)]\<rparr>) = Ret r' q
     \<and> HandlePropose_receive 0 r' = Some (Failed SteppedDown, r')"
proof -
  let ?l = "(NewLeaderRole sample_config)\<lparr>l_pending := [(4, [0])]\<rparr>"
  let ?r = "steady\<lparr>chans := [0 \<mapsto> open_chan], heap := [0 \<mapsto> Leader ?l]\<rparr>"
  have "can_exit ?r" by (simp add: can_exit_def steady waiters_open_def NewLeaderRole_def)
  from step_down_releases_waiters [OF this, of 0 ?l 3] obtain r' q where
    "becomeFollower 3 ?r = Ret r' q" and all: "\<forall>i. \<forall>ch\<in>set (pending_at ?l i). HandlePropose_receive ch r' = Some (Failed SteppedDown, r')"
    by (auto simp: steady DefaultConfig_valid)
  moreover have "0 \<in> set (pending_at ?l 4)" by (simp add: pending_at_def)
  ultimately show ?thesis by blast
qed

text \<open>
  C39. When the store cannot be written, a vote request of a higher term never returns: the term stays
  as it was, the handler calls itself on a new follower, which finds the same higher term, and so on
  until the stack is exhausted, however deep it is.
\<close>

theorem failing_store_exhausts_stack:
  assumes "follower_here q r" and "Validate (config r) = None" and "\<forall>n. faults (fdisk r) n = Some 0"
    and "currentTerm (store r) < t"
  shows "Follower_HandleRequestVote n E q t c i lt r = NoReturn"
  using assms
proof (induction n arbitrary: q r)
  case (Suc n)
  obtain r' q' where r': "becomeFollower t r = Ret r' q'" "follower_here q' r'" "config r' = config r"
    "\<forall>n. faults (fdisk r') n = Some 0" "currentTerm (store r') = currentTerm (store r)"
    using becomeFollower_failing [OF Suc.prems] by blast
  have "Follower_HandleRequestVote n E q' t c i lt r' = NoReturn"
    by (rule Suc.IH) (use r' Suc.prems in simp_all)
  then show ?case using r'(1) Suc.prems(4) by (simp add: not_less_iff_gr_or_eq)
qed simp

theorem failing_store_exhausts_stack_witness:
  "Follower_HandleRequestVote 1000000 sample_env 0 3 [97] 0 0
     ((sample_follower sample_log)\<lparr>config := DefaultConfig, fdisk := empty_disk\<lparr>faults := \<lambda>_. Some 0\<rparr>\<rparr>) = NoReturn"
  by (rule failing_store_exhausts_stack)
    (simp_all add: follower_here_def sample_follower_def blank_def sample_store_def DefaultConfig_valid)

text \<open>
  A leader that is disabled keeps its role object with the applier already stopped, so enabling
  the node again stops it a second time, and closing the closed channel panics.
\<close>

lemma enable_after_disable_panics:
  "\<exists>r1 r2. Disable steady = Ret r1 () \<and> Enable r1 = Panic r2"
  by (simp add: Disable_def Enable_def becomeFollower_def exit_role_def OnExit_def stopApplier_def upd_leader_def
      steady_def sample_leader_def blank_def NewLeaderRole_def upd_store_def SetLeaderId_def)

text \<open>
  A proposal that was captured before the leader was disabled is appended all the same, because
  disabling changes neither the role nor its epoch; it waits on a channel that the stopped applier
  and the drained role no longer close.
\<close>

lemma proposal_after_disable_waits:
  "\<exists>r1 r2 i ch. Propose_capture steady = Some (0, 0) \<and> Disable steady = Ret r1 ()
     \<and> HandlePropose sample_env 0 [1] [] 0 0 r1 = Ret r2 (AtLeader (Waiting i ch))
     \<and> HandlePropose_receive ch r2 = None \<and> wal r2 \<noteq> wal r1
     \<and> applier_round sample_env 0 True r2 = Ret r2 False"
  by (simp add: Propose_capture_def Disable_def OnExit_def stopApplier_def steady_def HandlePropose_def
      HandlePropose_cached_def HandlePropose_begin_def HandlePropose_receive_def make_chan_def put_pending_def
      del_pending_def pending_at_def raise_own_def applier_round_def sample_log_def node_simps)

end
