(* ===== verification/Server.thy ===== *)
theory Server
  imports Raft
begin

text \<open>
  \<^verbatim>\<open>main.go\<close>: the start of the process and the HTTP endpoints. The JSON text, the sockets
  and the flag parser are outside the model, the tickers are in \<open>Process\<close>: a request is the decoded record, or \<open>None\<close>
  when it does not decode, and the address flags are arguments.
\<close>

section \<open>Starting the process\<close>

text \<open>\<open>strings.Split\<close> at one byte, and the decimal digits of a port.\<close>

fun Split :: "gostring \<Rightarrow> byte \<Rightarrow> gostring list" where
  "Split [] sep = [[]]"
| "Split (b # bs) sep =
     (if b = sep then [] # Split bs sep
      else case Split bs sep of w # ws \<Rightarrow> (b # w) # ws | [] \<Rightarrow> [[b]])"

fun decimal :: "nat \<Rightarrow> gostring" where
  "decimal n = (if n < 10 then [48 + word_of_nat n] else decimal (n div 10) @ [48 + word_of_nat (n mod 10)])"

declare decimal.simps [simp del]

definition address :: "gostring \<Rightarrow> nat \<Rightarrow> gostring" where
  "address host port = host @ [58] @ decimal port"

definition effectiveAdvertiseHost :: "gostring \<Rightarrow> gostring \<Rightarrow> gostring" where
  "effectiveAdvertiseHost trimmedAdvertiseHost bindHost =
     (if trimmedAdvertiseHost = [] then bindHost else trimmedAdvertiseHost)"

datatype start_error = LogLoadFailed | StoreLoadFailed store_error

text \<open>
  The parameters of a node that \<^verbatim>\<open>main\<close> starts: the state machine is the counter. The write-ahead log,
  \<^verbatim>\<open>encoding/gob\<close> and the depth of the stack stay open.
\<close>

definition counter_env :: "'l golog \<Rightarrow> gob \<Rightarrow> nat \<Rightarrow> ('l, CounterFSM) env" where
  "counter_env L G depth = golog.extend L (env.fields Apply (Snapshot_fsm G) (Restore_fsm G) depth)"

text \<open>
  \<open>main_start\<close>: \<open>log\<close> is the loaded write-ahead log, or \<open>None\<close> when loading failed; \<open>w\<close> is the wall
  clock that the new state machine reads; the process exits on an error.
\<close>

definition main_start ::
  "'l golog \<Rightarrow> gob \<Rightarrow> nat \<Rightarrow> (nat \<Rightarrow> int \<times> int) \<Rightarrow> rng \<Rightarrow> disk \<Rightarrow> 'l option \<Rightarrow> gostring \<Rightarrow> gostring \<Rightarrow> gostring
     \<Rightarrow> nat \<Rightarrow> gostring \<Rightarrow> start_error + (('l, CounterFSM) raft, nat) outcome" where
  "main_start L G depth w g d log dir bindHost trimmedAdvertiseHost port nodesFlag =
     (case log of
        None \<Rightarrow> Inl LogLoadFailed
      | Some l \<Rightarrow>
          (case NewStore (dir @ [47, 115, 116, 111, 114, 101, 46, 100, 97, 116, 97]) d of
             (Inl e, d') \<Rightarrow> Inl (StoreLoadFailed e)
           | (Inr st, d') \<Rightarrow>
               Inr (NewRaft (counter_env L G depth) g d'
                      (address (effectiveAdvertiseHost trimmedAdvertiseHost bindHost) port) dir
                      (Split nodesFlag 44) l st (NewFSM w) DefaultConfig)))"

lemma counter_env_ops [node_simps]:
  "fsmApply (counter_env L G n) = Apply" "fsmSnapshot (counter_env L G n) = Snapshot_fsm G"
  "fsmRestore (counter_env L G n) = Restore_fsm G" "stackDepth (counter_env L G n) = n"
  "gl_GetLastIndex (counter_env L G n) = gl_GetLastIndex L" "gl_Read (counter_env L G n) = gl_Read L"
  "gl_Write (counter_env L G n) = gl_Write L" "gl_WriteCommit (counter_env L G n) = gl_WriteCommit L"
  "gl_Commit (counter_env L G n) = gl_Commit L" "gl_Load (counter_env L G n) = gl_Load L"
  "gl_TruncateFrom (counter_env L G n) = gl_TruncateFrom L" "gl_TruncateTo (counter_env L G n) = gl_TruncateTo L"
  "gl_ReplaceSegments (counter_env L G n) = gl_ReplaceSegments L"
  by (simp_all add: counter_env_def golog.defs env.defs)

section \<open>Endpoints\<close>

datatype 'a response = StatusOK 'a | BadRequest | ServerError

text \<open>The recovery middleware turns a panic of a handler into status 500.\<close>

definition serve :: "(('l, 's) raft, 'a response) outcome \<Rightarrow> (('l, 's) raft, 'a response) outcome" where
  "serve m = (case m of Panic r \<Rightarrow> Ret r ServerError | _ \<Rightarrow> m)"

definition post_append_entries ::
  "('l, 's) env \<Rightarrow> AppendEntriesRequest option \<Rightarrow> ('l, 's, AppendEntriesResponse response) step" where
  "post_append_entries E request r =
     (case request of
        None \<Rightarrow> Ret r BadRequest
      | Some q \<Rightarrow> serve
          (bindO (HandleAppendEntries E (ae_Term q) (ae_LeaderId q) (ae_PrevLogEntryIndex q)
                    (ae_PrevLogEntryTerm q) (ae_LogEntries q) (ae_LeaderCommitIndex q) r)
            (\<lambda>r (term, success, conflictIndex, conflictTerm).
               Ret r (StatusOK \<lparr>aer_Term = term, aer_Success = success, aer_ConflictIndex = conflictIndex,
                                aer_ConflictTerm = conflictTerm\<rparr>))))"

definition post_pre_vote ::
  "('l, 's) env \<Rightarrow> PreVoteRequest option \<Rightarrow> ('l, 's, PreVoteResponse response) step" where
  "post_pre_vote E request r =
     (case request of
        None \<Rightarrow> Ret r BadRequest
      | Some q \<Rightarrow> serve
          (bindO (HandlePreVote E (pv_Term q) (pv_CandidateID q) (pv_LastLogEntryIndex q)
                    (pv_LastLogEntryTerm q) r)
            (\<lambda>r (term, voteGranted). Ret r (StatusOK \<lparr>pvr_Term = term, pvr_VoteGranted = voteGranted\<rparr>))))"

definition post_request_vote ::
  "('l, 's) env \<Rightarrow> RequestVoteRequest option \<Rightarrow> ('l, 's, RequestVoteResponse response) step" where
  "post_request_vote E request r =
     (case request of
        None \<Rightarrow> Ret r BadRequest
      | Some q \<Rightarrow> serve
          (bindO (HandleRequestVote E (rv_Term q) (rv_CandidateID q) (rv_LastLogEntryIndex q)
                    (rv_LastLogEntryTerm q) r)
            (\<lambda>r (term, voteGranted). Ret r (StatusOK \<lparr>rvr_Term = term, rvr_VoteGranted = voteGranted\<rparr>))))"

definition post_install_snapshot ::
  "('l, 's) env \<Rightarrow> InstallSnapshotRequest option \<Rightarrow> ('l, 's, InstallSnapshotResponse response) step" where
  "post_install_snapshot E request r =
     (case request of
        None \<Rightarrow> Ret r BadRequest
      | Some q \<Rightarrow> serve
          (bindO (HandleInstallSnapshot E (is_Term q) (is_LeaderId q) (is_LastIncludedIndex q)
                    (is_LastIncludedTerm q) (is_Data q) r)
            (\<lambda>r term. Ret r (StatusOK \<lparr>isr_Term = term\<rparr>))))"

text \<open>A proposal is answered at once, by the leader it is forwarded to, or when its channel delivers.\<close>

datatype propose_answer = Answered "any response" | FromLeader gostring bytes | FromChannel u64 nat

fun propose_answer_of :: "started \<Rightarrow> propose_answer" where
  "propose_answer_of Unavailable = Answered BadRequest"
| "propose_answer_of (Forwarded NoLeader) = Answered BadRequest"
| "propose_answer_of (Forwarded (Forward leader bs)) = FromLeader leader bs"
| "propose_answer_of (AtLeader (Done a)) = Answered (StatusOK a)"
| "propose_answer_of (AtLeader (Failed e)) = Answered BadRequest"
| "propose_answer_of (AtLeader (Waiting index ch)) = FromChannel index ch"

definition post_propose :: "('l, 's) env \<Rightarrow> bytes option \<Rightarrow> ('l, 's, propose_answer) step" where
  "post_propose E body r =
     (case body of
        None \<Rightarrow> Ret r (Answered BadRequest)
      | Some bs \<Rightarrow>
          (case Propose E bs r of
             Ret r' a \<Rightarrow> Ret r' (propose_answer_of a)
           | Panic r' \<Rightarrow> Ret r' (Answered ServerError)
           | NoReturn \<Rightarrow> NoReturn))"

text \<open>
  The two halves of the endpoint, between which other goroutines run: what \<open>Propose_capture\<close> gave
  (the role and its epoch) is all that the second half has of the first.
\<close>

definition post_propose_run :: "('l, 's) env \<Rightarrow> nat \<Rightarrow> u64 \<Rightarrow> bytes \<Rightarrow> ('l, 's, propose_answer) step" where
  "post_propose_run E p epoch bs r =
     (case HandlePropose E p bs [] 0 epoch r of
        Ret r' a \<Rightarrow> Ret r' (propose_answer_of a)
      | Panic r' \<Rightarrow> Ret r' (Answered ServerError)
      | NoReturn \<Rightarrow> NoReturn)"

lemma post_propose_halves:
  "post_propose E (Some bs) r =
     (case Propose_capture r of
        None \<Rightarrow> Ret r (Answered BadRequest)
      | Some (p, epoch) \<Rightarrow> post_propose_run E p epoch bs r)"
  by (auto simp: post_propose_def post_propose_run_def Propose_def ProposeWithSession_def split: option.splits)

text \<open>The endpoint that proposes a fresh identifier: \<open>uuid\<close> is the text of the generated one.\<close>

definition post_propose_new :: "('l, 's) env \<Rightarrow> bytes \<Rightarrow> ('l, 's, propose_answer) step" where
  "post_propose_new E uuid = post_propose E (Some uuid)"

definition get_disable :: "('l, 's, unit response) step" where
  "get_disable r = serve (bindO (Disable r) (\<lambda>r u. Ret r (StatusOK ())))"

definition get_enable :: "('l, 's, unit response) step" where
  "get_enable r = serve (bindO (Enable r) (\<lambda>r u. Ret r (StatusOK ())))"

definition post_snapshot :: "('l, 's) env \<Rightarrow> ('l, 's, unit response) step" where
  "post_snapshot E r =
     (case TakeSnapshot E r of
        (Some e, r') \<Rightarrow> Ret r' ServerError
      | (None, r') \<Rightarrow> Ret r' (StatusOK ()))"

end
