(* ===== verification/Recovery.thy ===== *)
theory Recovery
  imports Samples Handlers Server
begin

text \<open>
  Snapshots across a restart: what a node that starts from a snapshot has of the node that took it.
\<close>

section \<open>Taking and loading\<close>

text \<open>
  What a state machine must give for its snapshots: restoring what was saved succeeds on whatever
  machine, and gives one that shows the same (\<open>obs\<close>); a restored machine keeps the rest of its own
  state, for the counter its clock.
\<close>

definition restores :: "('l, 's) env \<Rightarrow> ('s \<Rightarrow> bool) \<Rightarrow> ('s \<Rightarrow> 'o) \<Rightarrow> bool" where
  "restores E ok obs \<longleftrightarrow>
     (\<forall>s bs m. ok s \<longrightarrow> ok m \<longrightarrow> fsmSnapshot E s = Some bs \<longrightarrow>
        fst (fsmRestore E m bs) \<and> ok (snd (fsmRestore E m bs)) \<and> obs (snd (fsmRestore E m bs)) = obs s)"

text \<open>The counter has both of its requirements, when \<^verbatim>\<open>gob\<close> decodes what it encoded.\<close>

lemma counter_restores:
  assumes "\<And>c bs. gob_enc G c = Some bs \<Longrightarrow> gob_dec G bs = Some c"
  shows "restores (counter_env L G depth) fsm_ok fcounter"
  unfolding restores_def
proof (intro allI impI)
  fix s bs m
  assume ok: "fsm_ok s" "fsm_ok m" and "fsmSnapshot (counter_env L G depth) s = Some bs"
  then have "gob_dec G bs = Some (fcounter s)"
    by (intro assms) (simp add: counter_env_ops Snapshot_fsm_def Snapshot_counter_def)
  then show "fst (fsmRestore (counter_env L G depth) m bs) \<and> fsm_ok (snd (fsmRestore (counter_env L G depth) m bs))
      \<and> fcounter (snd (fsmRestore (counter_env L G depth) m bs)) = fcounter s"
    using ok by (cases "fcounter s") (simp add: counter_env_ops Restore_fsm_def Restore_counter_def fsm_ok_def)
qed

lemma counter_returns: "\<exists>f. returns (counter_env L G depth) fsm_ok f"
proof -
  let ?f = "\<lambda>s bs. case Apply s bs of Ret s' a \<Rightarrow> (s', a) | _ \<Rightarrow> (s, AnyNil)"
  have "fsmApply (counter_env L G depth) s bs = Ret (fst (?f s bs)) (snd (?f s bs)) \<and> fsm_ok (fst (?f s bs))"
    if ok: "fsm_ok s" for s bs
    by (rule counter_fsm.apply_cmdE [OF ok, of bs]) (simp add: counter_env_ops)
  then have "returns (counter_env L G depth) fsm_ok ?f" unfolding returns_def by blast
  then show ?thesis by blast
qed

lemma capture_index:
  assumes "TakeSnapshot_capture E r = Inr (Some snap)"
  shows "LastIncludedIndex snap = lastApplied (store r)" "fsmSnapshot E (fsm r) = Some (SnapData snap)"
    "snapshotIndex r < lastApplied (store r)"
  using assms
  by (auto simp: TakeSnapshot_capture_def Let_def not_le split: if_splits option.splits sum.splits)

lemma TakeSnapshot_saved:
  assumes "TakeSnapshot E r = (None, r')" and "TakeSnapshot_capture E r = Inr (Some snap)"
  shows "SaveSnapshot (snapshotPath r) snap (fdisk r) = (None, fdisk r')"
    and "snapshotIndex r' = LastIncludedIndex snap" "snapshotTerm r' = LastIncludedTerm snap"
  using assms capture_index [OF assms(2)]
  by (auto simp: TakeSnapshot_def TakeSnapshot_finish_def Let_def split: prod.splits option.splits)

text \<open>Loading the snapshot that a node has taken.\<close>

lemma recover_taken:
  assumes "TakeSnapshot E r = (None, r')" and "TakeSnapshot_capture E r = Inr (Some snap)"
    and "restores E ok obs" and "fault_free (fdisk r')" and "length (SnapData snap) \<le> maxSnapshotSize"
    and "ok (fsm r)" "ok (fsm q)"
    and "fdisk q = fdisk r'" "snapshotPath q = snapshotPath r" "commitIndex (store q) = 0" "lastApplied (store q) = 0"
  obtains d m where "ok m" "obs m = obs (fsm r)"
    and "recover_snapshot E q = q\<lparr>fdisk := d, snapshotIndex := lastApplied (store r), snapshotTerm := snapshotTerm r', fsm := m,
           store := (store q)\<lparr>commitIndex := lastApplied (store r), lastApplied := lastApplied (store r)\<rparr>\<rparr>"
proof -
  note saved = TakeSnapshot_saved [OF assms(1,2)] and cap = capture_index [OF assms(2)]
  have "length (SnapData snap) < 2 ^ 64" using assms(5) by (simp add: maxSnapshotSize_def)
  then have "fst (LoadSnapshot (snapshotPath q) (fdisk q)) = Inr snap"
    using LoadSnapshot_image [OF assms(4) SaveSnapshot_ok [OF saved(1)], of snap] assms(5,8,9) by simp
  then obtain d where load: "LoadSnapshot (snapshotPath q) (fdisk q) = (Inr snap, d)"
    by (cases "LoadSnapshot (snapshotPath q) (fdisk q)") auto
  have pos: "0 < LastIncludedIndex snap"
    using cap(1,3) by (metis le_less_trans word_zero_le)
  let ?m = "snd (fsmRestore E (fsm q) (SnapData snap))"
  have "ok ?m" "obs ?m = obs (fsm r)" using assms(3,6,7) cap(2) unfolding restores_def by blast+
  then show ?thesis
    by (rule that) (use load pos cap(1) saved(3) assms(10,11) in
        \<open>cases q; simp add: recover_snapshot_def upd_store_def raise_to_def Let_def\<close>)
qed

text \<open>\<open>applied_only r r'\<close>: only the state machine, the sessions and the applied index differ.\<close>

definition applied_only :: "('l, 's) raft \<Rightarrow> ('l, 's) raft \<Rightarrow> bool" where
  "applied_only r r' \<longleftrightarrow>
     (\<exists>m ss i. r' = r\<lparr>fsm := m, sessions := ss, store := (store r)\<lparr>lastApplied := i\<rparr>\<rparr>)"

interpretation applied_only: step_preorder applied_only
proof unfold_locales
  show "applied_only r r" for r :: "('l, 's) raft"
    unfolding applied_only_def
    by (intro exI [of _ "fsm r"] exI [of _ "sessions r"] exI [of _ "lastApplied (store r)"]) simp
  show "applied_only a b \<Longrightarrow> applied_only b c \<Longrightarrow> applied_only a c" for a b c :: "('l, 's) raft"
    by (auto simp: applied_only_def) (intro exI, rule refl)
qed

lemma applied_only_loop: "on_states (applied_only r) (apply_loop E n i r)"
proof (induction n arbitrary: i r)
  case (Suc n)
  have run: "applied_only r (r\<lparr>fsm := m\<rparr>)" "applied_only r (r\<lparr>sessions := ss\<rparr>)"
    "applied_only r (upd_store (\<lambda>s. s\<lparr>lastApplied := j\<rparr>) r)" for r :: "('a, 'b) raft" and m ss j
    unfolding applied_only_def upd_store_def
    by (intro exI [of _ m] exI [of _ "fsm r"] exI [of _ "sessions r"] exI [of _ ss] exI [of _ j]
        exI [of _ "lastApplied (store r)"], simp)+
  have "on_states (applied_only r) (run_machine E bs r)" for bs and r :: "('a, 'b) raft"
    by (auto simp: run_machine_def run split: outcome.splits)
  then have "on_states (applied_only r) (apply_command E e r)" for e
    by (auto simp: apply_command_def applied_only.R_refl run intro!: applied_only.bind split: prod.splits bool.splits)
  then have "on_states (applied_only r) (bindO (apply_command E e r)
      (\<lambda>r a. apply_loop E n (i + 1) (upd_store (\<lambda>s. s\<lparr>lastApplied := i\<rparr>) r)))" for e
    by (rule applied_only.bind) (rule applied_only.via [OF run(3) Suc.IH])
  then show ?case by (auto simp: applied_only.R_refl split: option.splits sum.splits)
qed (simp add: applied_only.R_refl)

text \<open>The replay of the log behind the applied index, and the first role.\<close>

lemma replay_log_spec:
  assumes "returns E ok f" and "golog_laws E view" and "ok (fsm r)" and "view_ok (view (wal r))"
    and "fst (view (wal r)) \<le> unat (lastApplied (store r))"
  shows "\<exists>r'. replay_log E r = Ret r' ()
    \<and> (fsm r', sessions r') = foldl (apply_spec f) (fsm r, sessions r)
        (entries_between (view (wal r)) (unat (lastApplied (store r))) (last_of (view (wal r))))
    \<and> unat (lastApplied (store r')) = max (unat (lastApplied (store r))) (last_of (view (wal r)))
    \<and> applied_only r r'"
proof -
  let ?a = "unat (lastApplied (store r))" and ?b = "last_of (view (wal r))"
  have "?b < 2 ^ 63" using assms(4) by (simp add: view_ok_def)
  then have last: "unat (fst (gl_GetLastIndex E (wal r))) = ?b"
    using golog_reads(1) [OF assms(2,4)] by (simp add: unat_of_nat)
  have start: "lastApplied (store r) + 1 = word_of_nat (Suc ?a)" by simp
  show ?thesis
  proof (cases "?b \<le> ?a")
    case True
    then have "entries_between (view (wal r)) ?a ?b = []" by (simp add: entries_between_def)
    then show ?thesis using True last by (simp add: replay_log_def Let_def max_absorb1 applied_only.R_refl)
  next
    case False
    then obtain r' where r': "apply_loop E (?b - ?a) (word_of_nat (Suc ?a)) r = Ret r' ()"
      "(fsm r', sessions r') = foldl (apply_spec f) (fsm r, sessions r) (entries_between (view (wal r)) ?a ?b)"
      "lastApplied (store r') = word_of_nat ?b" "commitIndex (store r') = commitIndex (store r)"
      using apply_loop_spec [OF assms, of "?b - ?a"] by auto
    have "applied_only r r'" using applied_only_loop [of r E "?b - ?a" "word_of_nat (Suc ?a)"] r'(1) by simp
    moreover have "replay_log E r = Ret r' ()"
      using r'(1) last start by (simp add: replay_log_def Let_def del: of_nat_Suc)
    moreover have "unat (lastApplied (store r')) = ?b" using r'(3) \<open>?b < 2 ^ 63\<close> by (simp add: unat_of_nat)
    ultimately show ?thesis using False r'(2) by simp
  qed
qed


lemma becomeFollower_first:
  assumes "role r = None" and "Validate (config r) = None"
  shows "\<exists>q p. becomeFollower 0 r = Ret q p \<and> fsm q = fsm r \<and> sessions q = sessions r
    \<and> snapshotIndex q = snapshotIndex r \<and> snapshotTerm q = snapshotTerm r
    \<and> commitIndex (store q) = commitIndex (store r) \<and> lastApplied (store q) = lastApplied (store r)"
proof -
  obtain k g where "electionDeadline_of (config r) (rgen r) = Some (k, g)" by (rule deadline_drawn [OF assms(2)])
  then show ?thesis
    using assms(1) by (simp add: becomeFollower_def exit_role_def NewFollowerRole_eq Follower_OnEnter_def upd_store_def SetLeaderId_def)
qed

section \<open>Properties\<close>

text \<open>
  C23. A node started from the disk of a node that has taken a snapshot recovers that node's state: the
  new process restores a state machine that shows what the old one showed when the snapshot was
  taken, applies to it the entries that its log has behind the snapshot, and nothing else, and starts
  with the snapshot and commit indices at the snapshot and the applied index at the end of the log.
  \<open>obs\<close> is what a snapshot carries (for the counter everything but the clock); the data must be at
  most 256 MiB, the disk must work while it is read, the state machine must return, the log must keep
  its laws and reach back to the snapshot.
\<close>

theorem snapshot_restart_recovers_state:
  assumes "TakeSnapshot E r = (None, r')" and "TakeSnapshot_capture E r = Inr (Some snap)"
    and "restores E ok obs" and "returns E ok f" and "golog_laws E view"
    and "fault_free (fdisk r')" and "length (SnapData snap) \<le> maxSnapshotSize"
    and "ok (fsm r)" and "ok machine" and "Validate cfg = None"
    and "view_ok (view log)" and "fst (view log) \<le> unat (lastApplied (store r))"
    and "commitIndex st = 0" and "lastApplied st = 0"
  shows "\<exists>q p m. NewRaft E gen (fdisk r') me (dataDir r) ns log st machine cfg = Ret q p
    \<and> obs m = obs (fsm r)
    \<and> (fsm q, sessions q) = foldl (apply_spec f) (m, NewSessionTable)
         (entries_between (view log) (unat (lastApplied (store r))) (last_of (view log)))
    \<and> (last_of (view log) \<le> unat (lastApplied (store r)) \<longrightarrow> obs (fsm q) = obs (fsm r))
    \<and> snapshotIndex q = lastApplied (store r) \<and> snapshotTerm q = snapshotTerm r'
    \<and> commitIndex (store q) = lastApplied (store r)
    \<and> unat (lastApplied (store q)) = max (unat (lastApplied (store r))) (last_of (view log))"
proof -
  define r0 where "r0 = \<lparr>config = cfg, dataDir = dataDir r, enabled = True, fsm = machine, healthy = True,
      nid = me, wal = log, nodes = ns, rgen = gen, role = None, roleEpoch = 0,
      snapshotIndex = 0, snapshotTerm = 0, sessions = NewSessionTable, store = st, shutdownClosed = False,
      heap = (\<lambda>_. None), nextPtr = 0, chans = (\<lambda>_. None), nextChan = 0, spawned = [], fdisk = fdisk r'\<rparr>"
  have r0: "fsm r0 = machine" "fdisk r0 = fdisk r'" "snapshotPath r0 = snapshotPath r" "store r0 = st"
    by (simp_all add: r0_def snapshotPath_def)
  obtain d m where m: "ok m" "obs m = obs (fsm r)"
    and rec: "recover_snapshot E r0 = r0\<lparr>fdisk := d, snapshotIndex := lastApplied (store r),
      snapshotTerm := snapshotTerm r', fsm := m,
      store := (store r0)\<lparr>commitIndex := lastApplied (store r), lastApplied := lastApplied (store r)\<rparr>\<rparr>"
    by (rule recover_taken [OF assms(1-3,6-8), of r0]) (use assms(9,13,14) r0 in auto)
  let ?r1 = "recover_snapshot E r0"
  have r1: "fsm ?r1 = m" "sessions ?r1 = NewSessionTable" "wal ?r1 = log" "lastApplied (store ?r1) = lastApplied (store r)"
    "commitIndex (store ?r1) = lastApplied (store r)" "snapshotIndex ?r1 = lastApplied (store r)"
    "snapshotTerm ?r1 = snapshotTerm r'" "role ?r1 = None" "config ?r1 = cfg"
    unfolding rec by (simp_all add: r0_def)
  obtain r2 where r2: "replay_log E ?r1 = Ret r2 ()"
    "(fsm r2, sessions r2) = foldl (apply_spec f) (m, NewSessionTable)
       (entries_between (view log) (unat (lastApplied (store r))) (last_of (view log)))"
    "unat (lastApplied (store r2)) = max (unat (lastApplied (store r))) (last_of (view log))"
    and only: "applied_only ?r1 r2"
    using replay_log_spec [OF assms(4,5), of ?r1] m(1) assms(11,12) unfolding r1 by blast
  have same: "commitIndex (store r2) = lastApplied (store r)" "snapshotIndex r2 = lastApplied (store r)"
    "snapshotTerm r2 = snapshotTerm r'" "role r2 = None" "config r2 = cfg"
    using only r1 by (auto simp: applied_only_def)
  obtain q p where q: "becomeFollower 0 r2 = Ret q p" "fsm q = fsm r2" "sessions q = sessions r2"
    "snapshotIndex q = snapshotIndex r2" "snapshotTerm q = snapshotTerm r2"
    "commitIndex (store q) = commitIndex (store r2)" "lastApplied (store q) = lastApplied (store r2)"
    using becomeFollower_first [OF same(4)] same(5) assms(10) by auto
  have "obs (fsm q) = obs (fsm r)" if "last_of (view log) \<le> unat (lastApplied (store r))"
  proof -
    have "entries_between (view log) (unat (lastApplied (store r))) (last_of (view log)) = []"
      using that by (simp add: entries_between_def)
    then show ?thesis using r2(2) q(2) m(2) by simp
  qed
  moreover have "NewRaft E gen (fdisk r') me (dataDir r) ns log st machine cfg = Ret q p"
    using r2(1) q(1) by (simp add: NewRaft_def r0_def)
  ultimately show ?thesis using m(2) r2(2,3) q same by (intro exI [of _ q] exI [of _ p] exI [of _ m]) simp
qed


text \<open>
  The counter as the state machine: a node that has applied one command, and a \<^verbatim>\<open>gob\<close> that knows that
  counter.
\<close>

definition counted :: CounterFSM where
  "counted = (case Apply (NewFSM (\<lambda>_. (8, 20))) [7] of Ret fm a \<Rightarrow> fm | _ \<Rightarrow> NewFSM (\<lambda>_. (8, 20)))"

definition counting_gob :: gob where
  "counting_gob = \<lparr>gob_enc = (\<lambda>c. if c = fcounter counted then Some [1] else None),
     gob_dec = (\<lambda>bs. if bs = [1] then Some (fcounter counted) else None)\<rparr>"

abbreviation counting_env :: "(logview, CounterFSM) env" where
  "counting_env \<equiv> counter_env mem_golog counting_gob 4"

definition counting_log :: logview where
  "counting_log = (0, [Serialize (sample_entry 2 [7])])"

definition counting :: "(logview, CounterFSM) raft" where
  "counting =
     \<lparr>config = DefaultConfig\<lparr>SnapshotThreshold := 1\<rparr>, dataDir = [], enabled = True, fsm = counted, healthy = True,
      nid = [98], wal = counting_log, nodes = trio, rgen = sample_rng, role = Some 0, roleEpoch = 1, snapshotIndex = 0,
      snapshotTerm = 0, sessions = NewSessionTable,
      store = sample_store\<lparr>currentTerm := 2, commitIndex := 1, lastApplied := 1\<rparr>, shutdownClosed = False,
      heap = [0 \<mapsto> Follower \<lparr>f_electionDeadline = 1, f_electionTicks = 0\<rparr>], nextPtr = 1, chans = (\<lambda>_. None), nextChan = 0,
      spawned = [], fdisk = empty_disk\<rparr>"

definition counting_snapshot :: Snapshot where
  "counting_snapshot = \<lparr>LastIncludedIndex = 1, LastIncludedTerm = 2, SnapData = [1]\<rparr>"

lemma counting_capture: "TakeSnapshot_capture counting_env counting = Inr (Some counting_snapshot)"
  by (simp add: TakeSnapshot_capture_def counting_def counting_log_def counting_snapshot_def counting_gob_def
      Snapshot_fsm_def Snapshot_counter_def node_simps) (simp add: sample_entry_def)

lemma counted_ok: "fsm_ok counted"
proof -
  have "fsm_ok (NewFSM (\<lambda>_. (8, 20)))" by (simp add: NewFSM_ok clock_ok_def)
  from counter_fsm.apply_returns [OF this, of "[7]"] show ?thesis by (auto simp: counted_def)
qed

theorem snapshot_restart_recovers_state_witness:
  "\<exists>r' q p. TakeSnapshot counting_env counting = (None, r')
     \<and> NewRaft counting_env sample_rng (fdisk r') [98] [] trio counting_log sample_store (NewFSM (\<lambda>_. (9, 0))) DefaultConfig
         = Ret q p
     \<and> fcounter (fsm q) = fcounter counted \<and> snapshotIndex q = 1 \<and> lastApplied (store q) = 1"
proof -
  have "fault_free (fdisk counting)" by (simp add: counting_def node_simps fault_free_def)
  then obtain d where d: "SaveSnapshot (snapshotPath counting) counting_snapshot (fdisk counting) = (None, d)" "fault_free d"
    using SaveSnapshot_fault_free by blast
  define r' where "r' = TakeSnapshot_finish counting_env counting_snapshot (counting\<lparr>fdisk := d\<rparr>)"
  have r': "TakeSnapshot counting_env counting = (None, r')" using d by (simp add: TakeSnapshot_def counting_capture r'_def)
  have "fdisk r' = d" by (simp add: r'_def TakeSnapshot_finish_def Let_def)
  obtain f where f: "returns counting_env fsm_ok f" using counter_returns by blast
  have laws: "golog_laws counting_env (\<lambda>l. l)"
    using mem_golog_laws by (simp add: golog_laws_def counter_env_ops)
  have log: "view_ok counting_log" "fst counting_log = 0" "last_of counting_log = 1"
    by (simp_all add: counting_log_def view_ok_def last_of_def Serialize_length)
  have n: "fsm counting = counted" "lastApplied (store counting) = 1" "dataDir counting = []"
    by (simp_all add: counting_def)
  have res: "restores counting_env fsm_ok fcounter"
    by (rule counter_restores) (simp add: counting_gob_def split: if_splits)
  have "\<exists>q p m. NewRaft counting_env sample_rng (fdisk r') [98] (dataDir counting) trio counting_log sample_store
        (NewFSM (\<lambda>_. (9, 0))) DefaultConfig = Ret q p
    \<and> fcounter m = fcounter (fsm counting)
    \<and> (fsm q, sessions q) = foldl (apply_spec f) (m, NewSessionTable)
         (entries_between counting_log (unat (lastApplied (store counting))) (last_of counting_log))
    \<and> (last_of counting_log \<le> unat (lastApplied (store counting)) \<longrightarrow> fcounter (fsm q) = fcounter (fsm counting))
    \<and> snapshotIndex q = lastApplied (store counting) \<and> snapshotTerm q = snapshotTerm r'
    \<and> commitIndex (store q) = lastApplied (store counting)
    \<and> unat (lastApplied (store q)) = max (unat (lastApplied (store counting))) (last_of counting_log)"
    by (rule snapshot_restart_recovers_state [OF r' counting_capture res f laws])
      (use d(2) \<open>fdisk r' = d\<close> log counted_ok in \<open>simp_all add: n NewFSM_ok clock_ok_def DefaultConfig_valid sample_store_def
         counting_snapshot_def maxSnapshotSize_def\<close>)
  then show ?thesis using r' log(3) by (auto simp: n word_unat_eq_iff)
qed

text \<open>A node with one applied command of a session, and an environment that keeps the whole state.\<close>

definition keeping_env :: "(logview, bytes list) env" where
  "keeping_env = sample_env\<lparr>fsmSnapshot := (\<lambda>s. case s of [bs] \<Rightarrow> Some bs | _ \<Rightarrow> None)\<rparr>"

definition served :: "(logview, bytes list) raft" where
  "served = (sample_follower (0, [Serialize \<lparr>Data = [7], Term = 2, ClientId = [65], SequenceNumber = 1\<rparr>]))
     \<lparr>config := sample_config\<lparr>SnapshotThreshold := 1\<rparr>, fsm := [[7]],
      sessions := [[65] \<mapsto> \<lparr>SeqNumber = 1, Result = AnyNil\<rparr>],
      store := sample_store\<lparr>currentTerm := 2, commitIndex := 1, lastApplied := 1\<rparr>\<rparr>"

definition served_snapshot :: Snapshot where
  "served_snapshot = \<lparr>LastIncludedIndex = 1, LastIncludedTerm = 2, SnapData = [7]\<rparr>"

lemma served_entry:
  "DeserializeLogEntry (Serialize \<lparr>Data = [7], Term = 2, ClientId = [65], SequenceNumber = 1\<rparr>)
     = Inr \<lparr>Data = [7], Term = 2, ClientId = [65], SequenceNumber = 1\<rparr>"
  by (simp add: entry.dec_enc recoverable_def)

lemma served_capture: "TakeSnapshot_capture keeping_env served = Inr (Some served_snapshot)"
  by (simp add: TakeSnapshot_capture_def served_def served_snapshot_def keeping_env_def served_entry node_simps)

lemma served_taken:
  obtains r' where "TakeSnapshot keeping_env served = (None, r')" "fault_free (fdisk r')"
proof -
  have "fault_free (fdisk served)" by (simp add: served_def node_simps fault_free_def)
  then obtain d where d: "SaveSnapshot (snapshotPath served) served_snapshot (fdisk served) = (None, d)" "fault_free d"
    using SaveSnapshot_fault_free by blast
  have "fdisk (TakeSnapshot_finish keeping_env served_snapshot (served\<lparr>fdisk := d\<rparr>)) = d"
    by (simp add: TakeSnapshot_finish_def Let_def)
  then show ?thesis using that d by (simp add: TakeSnapshot_def served_capture)
qed

text \<open>
  C38. A snapshot does not carry the session table. A node that has applied a command and takes a
  snapshot answers a repetition of the command from the table; started again from the snapshot it has
  the command's effect in its state machine, but takes the repetition for a new command.
\<close>

theorem restart_from_snapshot_forgets_sessions:
  "\<exists>r' q. TakeSnapshot keeping_env served = (None, r')
     \<and> NewRaft keeping_env sample_rng (fdisk r') [98] [] trio (wal r') (sample_store\<lparr>currentTerm := 2\<rparr>) []
         sample_config = Ret q 0
     \<and> fsm q = [[7]]
     \<and> HandlePropose_cached served [65] 1 = Some AnyNil \<and> HandlePropose_cached q [65] 1 = None"
proof -
  obtain r' where r': "TakeSnapshot keeping_env served = (None, r')" "fault_free (fdisk r')"
    by (rule served_taken)
  note saved = TakeSnapshot_saved [OF r'(1) served_capture]
  obtain d0 where d0: "r' = TakeSnapshot_finish keeping_env served_snapshot (served\<lparr>fdisk := d0\<rparr>)"
    using r'(1) by (auto simp: TakeSnapshot_def served_capture split: prod.splits option.splits)
  have w: "wal r' = wal served"
    unfolding d0
    by (simp add: TakeSnapshot_finish_def Let_def served_snapshot_def keeping_env_def node_simps served_def)
  have path: "snapshotPath served = [47, 115, 110, 97, 112, 115, 104, 111, 116, 46, 100, 97, 116, 97]"
    by (simp add: snapshotPath_def served_def node_simps)
  have "fst (LoadSnapshot (snapshotPath served) (fdisk r')) = Inr served_snapshot"
    using LoadSnapshot_image [OF r'(2) SaveSnapshot_ok [OF saved(1)], of served_snapshot]
    by (simp add: served_snapshot_def maxSnapshotSize_def)
  then obtain d where load: "LoadSnapshot [47, 115, 110, 97, 112, 115, 104, 111, 116, 46, 100, 97, 116, 97] (fdisk r')
      = (Inr served_snapshot, d)"
    unfolding path by (cases "LoadSnapshot (snapshotPath served) (fdisk r')") (auto simp: path)
  have "\<exists>q. NewRaft keeping_env sample_rng (fdisk r') [98] [] trio (wal r') (sample_store\<lparr>currentTerm := 2\<rparr>) []
         sample_config = Ret q 0 \<and> fsm q = [[7]] \<and> HandlePropose_cached q [65] 1 = None"
    unfolding w
    by (simp add: NewRaft_def recover_snapshot_def snapshotPath_def load served_snapshot_def raise_to_def
        replay_log_def upd_store_def keeping_env_def served_def becomeFollower_def exit_role_def NewFollowerRole_eq
        Follower_OnEnter_def electionDeadline_of_def IntN_def SetLeaderId_def sample_defs sample_env_ops last_of_def Let_def
        HandlePropose_cached_def IsDuplicate_def NewSessionTable_def)
  moreover have "HandlePropose_cached served [65] 1 = Some AnyNil"
    by (simp add: HandlePropose_cached_def IsDuplicate_def served_def)
  ultimately show ?thesis using r'(1) by blast
qed

end
