(* ===== verification/Lease.thy ===== *)
theory Lease
  imports Handlers
begin

text \<open>
  The leader's lease: a leader that has not heard from a majority for an election timeout refuses
  proposals and steps down at its next tick.
\<close>

section \<open>Sending keeps the leader\<close>

text \<open>
  \<open>same_lease l l'\<close>: what the lease and leaving the role depend on. \<open>sent p r r'\<close>: only requests were
  started, and the leader at \<open>p\<close> has the same lease.
\<close>

definition same_lease :: "LeaderRole \<Rightarrow> LeaderRole \<Rightarrow> bool" where
  "same_lease l l' \<longleftrightarrow> l_leaderTicks l' = l_leaderTicks l \<and> l_lastAckTicks l' = l_lastAckTicks l
     \<and> l_pending l' = l_pending l \<and> l_applierStopped l' = l_applierStopped l"

definition sent :: "nat \<Rightarrow> ('l, 's) raft \<Rightarrow> ('l, 's) raft \<Rightarrow> bool" where
  "sent p r r' \<longleftrightarrow>
     r' = r\<lparr>heap := heap r', spawned := spawned r'\<rparr>
     \<and> (\<forall>l. heap r p = Some (Leader l) \<longrightarrow> (\<exists>l'. heap r' p = Some (Leader l') \<and> same_lease l l'))"

lemma sent_refl: "sent p r r"
  by (simp add: sent_def same_lease_def)

lemma sent_trans:
  assumes "sent p a b" and "sent p b c"
  shows "sent p a c"
proof -
  have "c = a\<lparr>heap := heap c, spawned := spawned c\<rparr>"
    using assms unfolding sent_def by (cases a, cases b, cases c) simp
  moreover have "\<exists>l'. heap c p = Some (Leader l') \<and> same_lease l l'" if "heap a p = Some (Leader l)" for l
    using assms that unfolding sent_def same_lease_def by fastforce
  ultimately show ?thesis by (simp add: sent_def)
qed

lemma sent_tick: "sent p r (upd_leader p (\<lambda>l. l\<lparr>l_heartbeatTicks := 0\<rparr>) r)"
  by (simp add: sent_def upd_leader_def same_lease_def split: option.splits role_obj.splits)

lemma sent_go: "sent p r (go g (set_inflight p node b r))"
  by (simp add: sent_def upd_leader_def set_inflight_def go_def same_lease_def split: option.splits role_obj.splits)

lemma sent_fields:
  assumes "sent p r r'"
  shows "config r' = config r" "store r' = store r" "fdisk r' = fdisk r" "role r' = role r" "nid r' = nid r"
    "nodes r' = nodes r" "chans r' = chans r" "rgen r' = rgen r" "enabled r' = enabled r"
  using assms by (cases r, cases r', simp add: sent_def)+

lemma send_to_spec:
  assumes "heap r p = Some (Leader l)"
  shows "\<exists>r'. send_to E p ct li node r = Ret r' () \<and> sent p r r'"
  using assms sent_go sent_refl by (auto simp: send_to_def with_leader_def Let_def)

lemma sent_leader: "sent p r r' \<Longrightarrow> heap r p = Some (Leader l) \<Longrightarrow> \<exists>l'. heap r' p = Some (Leader l') \<and> same_lease l l'"
  by (simp add: sent_def)

lemma send_to_each_spec:
  "heap r p = Some (Leader l) \<Longrightarrow> \<exists>r'. send_to_each E p ct li ns r = Ret r' () \<and> sent p r r'"
proof (induction ns arbitrary: r l)
  case (Cons n ns)
  obtain r1 where r1: "send_to E p ct li n r = Ret r1 ()" "sent p r r1" using send_to_spec [OF Cons.prems] by blast
  obtain l1 where "heap r1 p = Some (Leader l1)" using sent_leader [OF r1(2) Cons.prems] by blast
  from Cons.IH [OF this] obtain r2 where "send_to_each E p ct li ns r1 = Ret r2 ()" "sent p r1 r2" by blast
  then show ?case using r1 sent_trans by (auto intro!: exI [of _ r2])
qed (simp add: sent_refl)

lemma send_all_spec:
  assumes "heap r p = Some (Leader l)"
  shows "\<exists>r'. sendAppendEntriesToAllNodes E p r = Ret r' () \<and> sent p r r'"
proof -
  let ?r = "upd_leader p (\<lambda>l. l\<lparr>l_heartbeatTicks := 0\<rparr>) r"
  have "\<exists>l'. heap ?r p = Some (Leader l')" using sent_leader [OF sent_tick assms] by blast
  then obtain r' where "sendAppendEntriesToAllNodes E p r = Ret r' ()" "sent p ?r r'"
    unfolding sendAppendEntriesToAllNodes_def Let_def using send_to_each_spec by blast
  then show ?thesis using sent_trans [OF sent_tick] by blast
qed

section \<open>Properties\<close>

text \<open>
  C17. A leader whose lease has run out steps down: when, at a tick later than one election timeout
  after it took office, fewer than a majority of the nodes, itself included, have acknowledged
  anything within the last election timeout, the node is a follower of the same term after the tick.
\<close>

theorem expired_lease_steps_down:
  assumes "role r = Some p" and "heap r p = Some (Leader l)" and "enabled r" and "healthy r"
    and "can_exit r" and "Validate (config r) = None"
    and "ElectionTimeoutMinTicks (config r) \<le> l_leaderTicks l"
    and "Suc (length (filter (\<lambda>q. q \<noteq> nid r \<and> l_leaderTicks l + 1 - l_lastAckTicks l q < ElectionTimeoutMinTicks (config r))
           (nodes r))) \<le> length (nodes r) div 2"
  shows "\<exists>r'. Tick E r = Ret r' () \<and> role_kind_of r' = Some KFollower \<and> currentTerm (store r') = currentTerm (store r)"
proof -
  define l1 where "l1 = l\<lparr>l_heartbeatTicks := l_heartbeatTicks l + 1, l_leaderTicks := l_leaderTicks l + 1\<rparr>"
  define r1 where "r1 = upd_leader p (\<lambda>l. l\<lparr>l_heartbeatTicks := l_heartbeatTicks l + 1,
                                   l_leaderTicks := l_leaderTicks l + 1\<rparr>) r"
  have r1: "heap r1 p = Some (Leader l1)" "role r1 = Some p" "config r1 = config r" "store r1 = store r"
    "chans r1 = chans r" "nid r1 = nid r" "nodes r1 = nodes r"
    using assms(1,2) by (simp_all add: r1_def upd_leader_def l1_def)
  obtain r2 where r2: "(if l_heartbeatTicks l1 \<ge> l_heartbeatDeadline l1
                      then sendAppendEntriesToAllNodes E p r1 else Ret r1 ()) = Ret r2 ()" and s: "sent p r1 r2"
    using send_all_spec [OF r1(1), of E] sent_refl by (cases "l_heartbeatTicks l1 \<ge> l_heartbeatDeadline l1") auto
  note f2 = sent_fields [OF s]
  obtain l' where l2: "heap r2 p = Some (Leader l')" and same: "same_lease l1 l'"
    using sent_leader [OF s r1(1)] by blast
  have ex: "lease_expired r2 l'"
    using assms(7,8) same by (simp add: lease_expired_def lease_acked_def same_lease_def l1_def f2 r1)
  have "waiters_open r l" "\<not> l_applierStopped l" using assms(1,2,5) by (auto simp: can_exit_def)
  then have "can_exit r2"
    using l2 same by (simp add: can_exit_def f2 r1 waiters_open_def l1_def same_lease_def)
  then obtain r3 q where r3: "becomeFollower (currentTerm (store r2)) r2 = Ret r3 q" "entered r2 r3 q"
    using becomeFollower_spec [of r2 "currentTerm (store r2)"] assms(6) f2(1) r1(3) by metis
  have "on_states (calm r2) (becomeFollower (currentTerm (store r2)) r2)" by (rule calm_becomeFollower) simp
  then have "currentTerm (store r3) = currentTerm (store r)" using r3(1) by (simp add: calm_def f2 r1)
  moreover have "Tick E r = Ret r3 ()"
    using r2 r3(1) ex l2 assms(1-4)
    by (simp add: Tick_def on_role_def Leader_Tick_def r1_def [symmetric] Let_def with_leader_def r1(1))
  moreover have "role_kind_of r3 = Some KFollower"
    using r3(2) by (auto simp: entered_def follower_here_def role_kind_of_def)
  ultimately show ?thesis by blast
qed

theorem expired_lease_steps_down_witness:
  "\<exists>r'. Tick sample_env (steady\<lparr>heap := [0 \<mapsto> Leader ((NewLeaderRole DefaultConfig)\<lparr>l_leaderTicks := 12\<rparr>)]\<rparr>) = Ret r' ()
     \<and> role_kind_of r' = Some KFollower \<and> currentTerm (store r') = 2"
proof -
  let ?l = "(NewLeaderRole DefaultConfig)\<lparr>l_leaderTicks := 12\<rparr>"
  let ?r = "steady\<lparr>heap := [0 \<mapsto> Leader ?l]\<rparr>"
  have f: "role ?r = Some 0" "heap ?r 0 = Some (Leader ?l)" "enabled ?r" "healthy ?r" "config ?r = DefaultConfig"
    "nodes ?r = trio" "currentTerm (store ?r) = 2"
    by (simp_all add: steady_def sample_leader_def blank_def)
  have "can_exit ?r" by (simp add: can_exit_def steady(1) waiters_open_def NewLeaderRole_def)
  from expired_lease_steps_down [OF f(1-4) this, unfolded f(5-7), OF DefaultConfig_valid, of sample_env] show ?thesis
    by (simp add: DefaultConfig_def NewLeaderRole_def trio_def)
qed

end
