(* ===== verification/Well_Formed.thy ===== *)
theory Well_Formed
  imports Handlers Requests Samples
begin

text \<open>
  A well-formedness invariant of a node's memory: its role object exists, addresses of objects and
  channels are fresh, the channel of every waiting proposal of every leader object is open, empty
  and used once, and the applier of an enabled leader runs. Every step keeps it, so that in every
  run of a cluster a node that is up can always leave its role, and answers.
\<close>

section \<open>The invariant\<close>

definition chans_of :: "LeaderRole \<Rightarrow> nat set" where
  "chans_of l = (\<Union>iw\<in>set (l_pending l). set (snd iw))"

definition node_wf :: "('l, 's) raft \<Rightarrow> bool" where
  "node_wf r \<longleftrightarrow>
     (\<forall>p. role r = Some p \<longrightarrow> heap r p \<noteq> None)
     \<and> (\<forall>p. nextPtr r \<le> p \<longrightarrow> heap r p = None)
     \<and> (\<forall>c. nextChan r \<le> c \<longrightarrow> chans r c = None)
     \<and> (\<forall>p l. heap r p = Some (Leader l) \<longrightarrow> waiters_open r l)
     \<and> (\<forall>p q l m. heap r p = Some (Leader l) \<longrightarrow> heap r q = Some (Leader m) \<longrightarrow> p \<noteq> q \<longrightarrow> chans_of l \<inter> chans_of m = {})
     \<and> Validate (config r) = None"

definition node_ok :: "('l, 's) raft \<Rightarrow> bool" where
  "node_ok r \<longleftrightarrow>
     node_wf r \<and> role r \<noteq> None
     \<and> (enabled r \<longrightarrow> (\<forall>p l. role r = Some p \<longrightarrow> heap r p = Some (Leader l) \<longrightarrow> \<not> l_applierStopped l))"

text \<open>
  What goroutines rely on between two of their steps. \<open>H\<close>: channels that appliers have taken from
  the waiting proposals; they are open, empty where they are marked so, and no proposal of a leader
  object waits on them any more. \<open>A\<close>: addresses of leader objects whose appliers run.
\<close>

definition holds :: "(nat \<times> bool) set \<Rightarrow> nat set \<Rightarrow> ('l, 's) raft \<Rightarrow> bool" where
  "holds H A r \<longleftrightarrow>
     (\<forall>c b. (c, b) \<in> H \<longrightarrow>
        (\<exists>ch. chans r c = Some ch \<and> \<not> ch_closed ch \<and> (b \<longrightarrow> ch_buf ch = [])) \<and> \<not> pending_on r c)
     \<and> (\<forall>p\<in>A. \<exists>l. heap r p = Some (Leader l))"

definition mem_wf :: "(nat \<times> bool) set \<Rightarrow> nat set \<Rightarrow> ('l, 's) raft \<Rightarrow> bool" where
  "mem_wf H A r \<longleftrightarrow> node_wf r \<and> holds H A r"

definition mem_ok :: "(nat \<times> bool) set \<Rightarrow> nat set \<Rightarrow> ('l, 's) raft \<Rightarrow> bool" where
  "mem_ok H A r \<longleftrightarrow> node_ok r \<and> holds H A r"

lemma holds_none [simp]: "holds {} {} r"
  by (simp add: holds_def)

lemma holds_Un: "holds (H \<union> K) A r \<longleftrightarrow> holds H A r \<and> holds K A r"
  by (auto simp: holds_def)

lemma mem_ok_none: "mem_ok {} {} r \<longleftrightarrow> node_ok r"
  by (simp add: mem_ok_def)

lemma mem_wf_none: "mem_wf {} {} r \<longleftrightarrow> node_wf r"
  by (simp add: mem_wf_def)

lemma mem_ok_iff:
  "mem_ok H A r \<longleftrightarrow>
     mem_wf H A r \<and> role r \<noteq> None
     \<and> (enabled r \<longrightarrow> (\<forall>p l. role r = Some p \<longrightarrow> heap r p = Some (Leader l) \<longrightarrow> \<not> l_applierStopped l))"
  by (auto simp: mem_ok_def mem_wf_def node_ok_def)

lemma mem_wf_holds: "mem_wf H A r \<Longrightarrow> holds H A r"
  by (simp add: mem_wf_def)

text \<open>What is held depends on the channels and on the leader objects only.\<close>

lemma holds_change:
  assumes "holds H A r" and "\<And>c b. (c, b) \<in> H \<Longrightarrow> \<not> pending_on r c \<Longrightarrow> chans r c \<noteq> None \<Longrightarrow>
      chans r' c = chans r c \<and> \<not> pending_on r' c"
    and "\<And>p l. heap r p = Some (Leader l) \<Longrightarrow> \<exists>l'. heap r' p = Some (Leader l')"
  shows "holds H A r'"
  using assms unfolding holds_def by (metis option.distinct(1))

lemma node_wfD:
  assumes "mem_wf H A r"
  shows "role r = Some p \<Longrightarrow> heap r p \<noteq> None" "nextPtr r \<le> p \<Longrightarrow> heap r p = None"
    "nextChan r \<le> c \<Longrightarrow> chans r c = None" "heap r p = Some (Leader l) \<Longrightarrow> waiters_open r l"
    "heap r p = Some (Leader l) \<Longrightarrow> heap r q = Some (Leader m) \<Longrightarrow> p \<noteq> q \<Longrightarrow> chans_of l \<inter> chans_of m = {}"
    "Validate (config r) = None"
  using assms unfolding mem_wf_def node_wf_def by blast+

lemma node_wfI:
  assumes "\<And>p. role r = Some p \<Longrightarrow> heap r p \<noteq> None" "\<And>p. nextPtr r \<le> p \<Longrightarrow> heap r p = None"
    "\<And>c. nextChan r \<le> c \<Longrightarrow> chans r c = None" "\<And>p l. heap r p = Some (Leader l) \<Longrightarrow> waiters_open r l"
    "\<And>p q l m. heap r p = Some (Leader l) \<Longrightarrow> heap r q = Some (Leader m) \<Longrightarrow> p \<noteq> q \<Longrightarrow> chans_of l \<inter> chans_of m = {}"
    "Validate (config r) = None" "holds H A r"
  shows "mem_wf H A r"
  using assms unfolding mem_wf_def node_wf_def by blast

lemma node_ok_can_exit: "node_ok r \<Longrightarrow> enabled r \<Longrightarrow> can_exit r"
  unfolding mem_ok_none [symmetric] mem_ok_iff can_exit_def using node_wfD(1,4) by blast

definition intact :: "(nat \<times> bool) set \<Rightarrow> nat set \<Rightarrow> ('l, 's) raft \<Rightarrow> ('l, 's) raft \<Rightarrow> bool" where
  "intact H A r r' \<longleftrightarrow> (mem_ok H A r \<longrightarrow> mem_ok H A r')"

interpretation intact: step_preorder "intact H A" for H A
  by unfold_locales (auto simp: intact_def)

section \<open>Updates that leave memory alone\<close>

definition inert :: "('l, 's) raft \<Rightarrow> ('l, 's) raft \<Rightarrow> bool" where
  "inert r r' \<longleftrightarrow>
     heap r' = heap r \<and> chans r' = chans r \<and> role r' = role r \<and> nextPtr r' = nextPtr r
     \<and> nextChan r' = nextChan r \<and> config r' = config r \<and> (enabled r' \<longrightarrow> enabled r)"

lemma inert_keeps: "inert r r' \<Longrightarrow> intact H A r r'"
  by (auto simp: intact_def mem_ok_iff mem_wf_def node_wf_def holds_def pending_on_def inert_def waiters_open_def)

interpretation inert: step_preorder inert
  by unfold_locales (auto simp: inert_def)

lemma inert_fields [simp]:
  "inert r (r\<lparr>store := s\<rparr>)" "inert r (r\<lparr>fdisk := d\<rparr>)" "inert r (r\<lparr>store := s, fdisk := d\<rparr>)" "inert r (r\<lparr>wal := w\<rparr>)"
  "inert r (r\<lparr>fsm := m\<rparr>)" "inert r (r\<lparr>sessions := ss\<rparr>)" "inert r (r\<lparr>rgen := g\<rparr>)" "inert r (r\<lparr>roleEpoch := e\<rparr>)"
  "inert r (r\<lparr>spawned := gs\<rparr>)" "inert r (r\<lparr>enabled := False\<rparr>)" "inert r (r\<lparr>healthy := b, enabled := False\<rparr>)"
  "inert r (r\<lparr>shutdownClosed := b\<rparr>)" "inert r (upd_store f r)" "inert r (go g' r)" "inert r (setCommitIndex E ci r)"
  by (simp_all add: inert_def upd_store_def go_def setCommitIndex_def Let_def split: prod.splits)

lemma inert_on_store: "on_store g r = (e, r') \<Longrightarrow> inert r r'"
  by (auto simp: on_store_def split: prod.splits)

lemma inert_apply_command: "on_states (inert r) (apply_command E e r)"
  by (auto simp: apply_command_def run_machine_def Let_def inert_def split: outcome.splits prod.splits bool.splits)

lemma inert_apply_loop: "on_states (inert r) (apply_loop E n i r)"
proof (induction n arbitrary: i r)
  case (Suc n)
  have "on_states (inert r) (bindO (apply_command E e r)
      (\<lambda>r a. apply_loop E n (i + 1) (upd_store (\<lambda>s. s\<lparr>lastApplied := i\<rparr>) r)))" for e
    by (intro inert.bind [OF inert_apply_command] inert.via [OF inert_fields(13) Suc.IH])
  then show ?case by (auto simp: inert.R_refl split: option.splits sum.splits)
qed (simp add: inert.R_refl)

lemma inert_installSnapshot: "inert r (snd (installSnapshot E i t bs r))"
  by (auto simp: installSnapshot_def Let_def resetLog_def upd_store_def inert_def split: prod.splits option.splits bool.splits)

lemma inert_TakeSnapshot_finish: "inert r (TakeSnapshot_finish E snap r)"
  by (simp add: TakeSnapshot_finish_def Let_def inert_def)

lemma inert_TakeSnapshot: "inert r (snd (TakeSnapshot E r))"
  unfolding TakeSnapshot_def
  by (auto simp: inert.R_refl intro: inert.R_trans [OF inert_fields(2) inert_TakeSnapshot_finish]
      split: prod.splits option.splits sum.splits)

section \<open>Updates of role objects\<close>

lemma intact_upd_follower: "intact H A r (upd_follower p g r)"
  unfolding intact_def mem_ok_iff mem_wf_def node_wf_def holds_def pending_on_def upd_follower_def waiters_open_def
  by (auto split: option.splits role_obj.splits if_splits)

lemma intact_upd_candidate: "intact H A r (upd_candidate p g r)"
  unfolding intact_def mem_ok_iff mem_wf_def node_wf_def holds_def pending_on_def upd_candidate_def waiters_open_def
  by (auto split: option.splits role_obj.splits if_splits)

text \<open>A leader object is replaced by one with fewer waiting proposals, or with one on a new channel.\<close>

lemma pending_on_chans: "pending_on r c \<longleftrightarrow> (\<exists>p l. heap r p = Some (Leader l) \<and> c \<in> chans_of l)"
  unfolding pending_on_def chans_of_def by blast

lemma node_wf_leader:
  assumes wf: "mem_wf H A r" and p: "heap r p = Some (Leader l)"
    and r': "r' = r\<lparr>heap := (heap r)(p \<mapsto> Leader l'), chans := cs, nextChan := n\<rparr>"
    and fresh: "\<And>c. n \<le> c \<Longrightarrow> cs c = None" and l': "waiters_open r' l'"
    and old: "\<And>c. c \<in> chans_of l' \<Longrightarrow> c \<in> chans_of l \<or> nextChan r \<le> c"
    and same: "\<And>c. c \<notin> chans_of l \<Longrightarrow> c < nextChan r \<Longrightarrow> cs c = chans r c"
  shows "mem_wf H A r'"
proof -
  have in_use: "c < nextChan r" if "heap r q = Some (Leader m)" "c \<in> chans_of m" for q m c
  proof (rule ccontr)
    assume "\<not> c < nextChan r"
    then have "chans r c = None" using node_wfD(3) [OF wf] by simp
    moreover have "chans r c = Some open_chan"
      using node_wfD(4) [OF wf that(1)] that(2) by (auto simp: waiters_open_def chans_of_def)
    ultimately show False by simp
  qed
  have other: "waiters_open r' m \<and> chans_of m \<inter> chans_of l' = {}" if "heap r q = Some (Leader m)" "q \<noteq> p" for q m
  proof -
    have d: "chans_of m \<inter> chans_of l = {}" using node_wfD(5) [OF wf that(1) p that(2)] .
    have "cs c = Some open_chan" if "(i, ws) \<in> set (l_pending m)" "c \<in> set ws" for i ws c
    proof -
      have c: "c \<in> chans_of m" using that by (force simp: chans_of_def)
      then have "cs c = chans r c" using same [of c] d in_use [OF \<open>heap r q = Some (Leader m)\<close> c] by blast
      then show ?thesis using node_wfD(4) [OF wf \<open>heap r q = Some (Leader m)\<close>] that by (force simp: waiters_open_def)
    qed
    then have "waiters_open r' m"
      using node_wfD(4) [OF wf that(1)] by (auto simp: waiters_open_def r')
    moreover have "c \<notin> chans_of l'" if "c \<in> chans_of m" for c
      using old [of c] d in_use [OF \<open>heap r q = Some (Leader m)\<close> that] that by auto
    ultimately show ?thesis by blast
  qed
  show ?thesis
  proof (rule node_wfI)
    show "waiters_open r' m" if "heap r' q = Some (Leader m)" for q m
      using that other [of q m] l' by (cases "q = p") (auto simp: r')
    show "chans_of m \<inter> chans_of m' = {}" if "heap r' q = Some (Leader m)" "heap r' q' = Some (Leader m')" "q \<noteq> q'" for q q' m m'
      using that other [of q m] other [of q' m'] node_wfD(5) [OF wf, of q m q' m'] by (auto simp: r' split: if_splits)
    have "nextPtr r > p" using p node_wfD(2) [OF wf, of p] by (metis not_le option.distinct(1))
    then show "heap r' q = None" if "nextPtr r' \<le> q" for q using that node_wfD(2) [OF wf, of q] by (auto simp: r')
    show "holds H A r'"
    proof (rule holds_change [OF mem_wf_holds [OF wf]])
      fix c
      assume c: "\<not> pending_on r c" "chans r c \<noteq> None"
      have "c < nextChan r" using c(2) node_wfD(3) [OF wf, of c] by (metis not_le)
      moreover have "c \<notin> chans_of l" using c(1) p by (auto simp: pending_on_chans)
      ultimately have "c \<notin> chans_of l'" "cs c = chans r c" using old [of c] same [of c] by auto
      then show "chans r' c = chans r c \<and> \<not> pending_on r' c"
        using c(1) by (auto simp: pending_on_chans r' split: if_splits)
    qed (auto simp: r')
  qed (use node_wfD(1,6) [OF wf] fresh in \<open>auto simp: r'\<close>)
qed

lemma intact_upd_leader:
  assumes "tracks g"
  shows "intact H A r (upd_leader p g r)"
proof (cases "\<exists>l. heap r p = Some (Leader l)")
  case True
  then obtain l where p: "heap r p = Some (Leader l)" by blast
  let ?r = "r\<lparr>heap := (heap r)(p \<mapsto> Leader (g l)), chans := chans r, nextChan := nextChan r\<rparr>"
  have eq: "upd_leader p g r = ?r" using p by (simp add: upd_leader_def)
  have g: "l_pending (g l) = l_pending l" "l_applierStopped (g l) = l_applierStopped l" using assms by (auto simp: tracks_def)
  have "mem_wf H A ?r" if "mem_wf H A r"
    by (rule node_wf_leader [OF that p refl])
      (use node_wfD(3) [OF that] node_wfD(4) [OF that p] g in \<open>auto simp: waiters_open_def chans_of_def\<close>)
  then show ?thesis using p g unfolding intact_def eq mem_ok_iff by (auto split: if_splits)
qed (auto simp: upd_leader_def intact.R_refl split: option.splits role_obj.splits)

interpretation intact_leader: leader_preorder "intact H A" E UNIV for H A E
  by unfold_locales (auto intro: intact_upd_leader inert_keeps)

section \<open>Waiting proposals\<close>

lemma pending_chans: "set (pending_at l i) \<subseteq> chans_of l"
  using pending_at_in by (force simp: chans_of_def)

lemma chans_of_del: "chans_of (del_pending i l) \<subseteq> chans_of l"
  by (auto simp: chans_of_def del_pending_def)

text \<open>The proposals that wait for an index are taken from the object, and their channels are used up.\<close>

lemma node_wf_release:
  assumes wf: "mem_wf H A r" and p: "heap r p = Some (Leader l)"
    and cs: "\<And>c. c \<notin> set (pending_at l i) \<Longrightarrow> cs c = chans r c"
  shows "mem_wf H A (r\<lparr>heap := (heap r)(p \<mapsto> Leader (del_pending i l)), chans := cs\<rparr>)"
proof -
  let ?r = "r\<lparr>heap := (heap r)(p \<mapsto> Leader (del_pending i l)), chans := cs, nextChan := nextChan r\<rparr>"
  note w = node_wfD(4) [OF wf p]
  have "cs c = None" if "nextChan r \<le> c" for c
    using that cs [of c] node_wfD(3) [OF wf that] waiters_open_at(2) [OF w, of c i] by fastforce
  moreover have "waiters_open ?r (del_pending i l)"
    by (rule waiters_open_del [OF w]) (use cs in simp)
  moreover have "cs c = chans r c" if "c \<notin> chans_of l" for c
    using that cs [of c] pending_chans [of l i] by blast
  ultimately have "mem_wf H A ?r"
    by (intro node_wf_leader [OF wf p refl]) (use chans_of_del in blast)+
  then show ?thesis by simp
qed

lemma node_wf_drain:
  assumes "mem_wf H A r" and "heap r p = Some (Leader l)" and "l_pending l = ps"
  shows "\<exists>r'. drain_pending p ps r = Ret r' () \<and> retired r r' \<and> mem_wf H A r'"
  using assms
proof (induction ps arbitrary: r l)
  case (Cons iw ps)
  obtain i ws where iw: "iw = (i, ws)" by fastforce
  note w = node_wfD(4) [OF Cons.prems(1,2)]
  have ws: "pending_at l i = ws" using Cons.prems(3) by (simp add: pending_at_def iw)
  define cs where "cs = (\<lambda>c. if c \<in> set ws then Some closed_chan else chans r c)"
  have closed: "close_chans ws r = Ret (r\<lparr>chans := cs\<rparr>) ()"
    unfolding cs_def by (rule close_chans_spec) (use waiters_open_at [OF w, where i = i] ws in auto)
  define r2 where "r2 = r\<lparr>heap := (heap r)(p \<mapsto> Leader (del_pending i l)), chans := cs\<rparr>"
  have upd: "upd_leader p (\<lambda>l. l\<lparr>l_pending := filter (\<lambda>jw. fst jw \<noteq> fst iw) (l_pending l)\<rparr>) (r\<lparr>chans := cs\<rparr>) = r2"
    using Cons.prems(2) by (simp add: upd_leader_def r2_def del_pending_def iw)
  have step: "drain_pending p (iw # ps) r = drain_pending p ps r2" using closed upd by (simp add: iw)
  have "mem_wf H A r2"
    unfolding r2_def by (rule node_wf_release [OF Cons.prems(1,2)]) (simp add: cs_def ws)
  moreover have "heap r2 p = Some (Leader (del_pending i l))" by (simp add: r2_def)
  moreover have "l_pending (del_pending i l) = ps"
  proof -
    have "i \<notin> fst ` set ps" using w Cons.prems(3) by (simp add: waiters_open_def iw)
    then have "filter (\<lambda>jw. fst jw \<noteq> i) ps = ps" by (force simp: filter_id_conv)
    then show ?thesis using Cons.prems(3) by (simp add: del_pending_def iw)
  qed
  ultimately obtain r' where r': "drain_pending p ps r2 = Ret r' ()" "retired r2 r'" "mem_wf H A r'"
    using Cons.IH by blast
  have "retired r r2" by (simp add: retired_def r2_def)
  then show ?case using step r' retired_trans by metis
qed (auto simp: retired_refl)

text \<open>
  A node leaves its role, unless its applier was stopped before: then closing the channel again
  panics at once.
\<close>

lemma node_wf_OnExit:
  assumes wf: "mem_wf H A r" and p: "heap r p \<noteq> None"
  shows "OnExit p r = Panic r \<or> (\<exists>r'. OnExit p r = Ret r' () \<and> retired r r' \<and> mem_wf H A r')"
proof (cases "\<exists>l. heap r p = Some (Leader l) \<and> \<not> l_applierStopped l")
  case True
  then obtain l where l: "heap r p = Some (Leader l)" "\<not> l_applierStopped l" by blast
  let ?l = "l\<lparr>l_applierStopped := True\<rparr>"
  define r1 where "r1 = r\<lparr>heap := (heap r)(p \<mapsto> Leader ?l), chans := chans r, nextChan := nextChan r\<rparr>"
  have "mem_wf H A r1"
    unfolding r1_def
    by (rule node_wf_leader [OF wf l(1) refl])
      (use node_wfD(3) [OF wf] node_wfD(4) [OF wf l(1)] in \<open>auto simp: waiters_open_def chans_of_def\<close>)
  moreover have "heap r1 p = Some (Leader ?l)" by (simp add: r1_def)
  ultimately obtain r' where r': "drain_pending p (l_pending l) r1 = Ret r' ()" "retired r1 r'" "mem_wf H A r'"
    using node_wf_drain [of H A r1 p ?l "l_pending l"] by auto
  have "OnExit p r = Ret r' ()"
    using l r'(1) by (simp add: OnExit_def stopApplier_def upd_leader_def r1_def)
  moreover have "retired r r1" by (simp add: retired_def r1_def)
  ultimately show ?thesis using r' retired_trans by metis
next
  case False
  then have "OnExit p r = Panic r \<or> OnExit p r = Ret r ()"
    using p by (auto simp: OnExit_def stopApplier_def split: role_obj.splits)
  then show ?thesis using wf retired_refl by metis
qed

lemma node_wf_exit_role:
  assumes "mem_wf H A r"
  shows "exit_role r = Panic r \<or> (\<exists>r'. exit_role r = Ret r' () \<and> retired r r' \<and> mem_wf H A r')"
proof (cases "role r")
  case None
  then show ?thesis using assms retired_refl [of r] by (simp add: exit_role_def)
next
  case (Some p)
  then show ?thesis using node_wf_OnExit [OF assms node_wfD(1) [OF assms Some]] by (simp add: exit_role_def)
qed

section \<open>New roles\<close>

text \<open>A new role object: it has no waiting proposals, and its applier has not been stopped.\<close>

fun new_role :: "role_obj \<Rightarrow> bool" where
  "new_role (Leader l) \<longleftrightarrow> l_pending l = [] \<and> \<not> l_applierStopped l"
| "new_role _ \<longleftrightarrow> True"

lemma node_ok_enter:
  assumes wf: "mem_wf H A r" and ob: "new_role ob"
  shows "mem_ok H A (r\<lparr>heap := (heap r)(nextPtr r \<mapsto> ob), nextPtr := Suc (nextPtr r), role := Some (nextPtr r)\<rparr>)"
    (is "mem_ok H A ?r")
proof -
  have none: "chans_of l = {}" "waiters_open ?r l" if "ob = Leader l" for l
    using ob that by (simp_all add: chans_of_def waiters_open_def)
  have old: "waiters_open ?r l" if "heap r p = Some (Leader l)" for p l
    using node_wfD(4) [OF wf that] by (simp add: waiters_open_def)
  have free: "heap r (nextPtr r) = None" by (rule node_wfD(2) [OF wf order_refl])
  then have "holds H A ?r"
    by (intro holds_change [OF mem_wf_holds [OF wf]]) (use none in \<open>auto simp: pending_on_chans split: if_splits\<close>)
  then have "mem_wf H A ?r"
    by (intro node_wfI)
      (use node_wfD(1-3,6) [OF wf] node_wfD(5) [OF wf] old none in \<open>auto split: if_splits\<close>)
  then show ?thesis using ob by (auto simp: mem_ok_iff)
qed

lemma intact_OnExit_off:
  assumes "\<not> enabled r" and p: "role r = Some p"
  shows "on_states (intact H A r) (OnExit p r)"
proof (cases "mem_wf H A r")
  case True
  from node_wf_OnExit [OF True node_wfD(1) [OF True p]] show ?thesis
  proof (elim disjE exE conjE)
    fix r'
    assume "OnExit p r = Ret r' ()" "retired r r'" "mem_wf H A r'"
    then show ?thesis using assms retired_fields [of r r'] by (simp add: intact_def mem_ok_iff)
  qed (simp add: intact.R_refl)
qed (rule on_states_all, simp add: intact_def mem_ok_iff)

lemma intact_markUnhealthy: "on_states (intact H A r) (markUnhealthy r)"
proof -
  let ?r = "r\<lparr>healthy := False, enabled := False\<rparr>"
  have "on_states (intact H A ?r) (exit_role ?r)"
    using intact_OnExit_off [of ?r] by (auto simp: exit_role_def intact.R_refl split: option.splits)
  then show ?thesis
    unfolding markUnhealthy_def by (rule intact.via [OF inert_keeps [OF inert_fields(11)]])
qed

text \<open>Leaving one role and entering another.\<close>

lemma intact_change_role:
  assumes enter: "\<And>r1. retired r r1 \<Longrightarrow> mem_wf H A r1 \<Longrightarrow> on_states (mem_ok H A) (f r1 ())"
  shows "on_states (intact H A r) (bindO (exit_role r) f)"
proof (cases "mem_ok H A r")
  case True
  then have "mem_wf H A r" by (simp add: mem_ok_iff)
  from node_wf_exit_role [OF this] show ?thesis
  proof (elim disjE exE conjE)
    fix r1
    assume e: "exit_role r = Ret r1 ()" "retired r r1" "mem_wf H A r1"
    have "on_states (intact H A r) (f r1 ())" by (rule on_states_mono [OF enter [OF e(2,3)]]) (simp add: intact_def)
    then show ?thesis using e(1) by simp
  qed (simp add: intact.R_refl)
qed (rule on_states_all, simp add: intact_def)

lemma intact_ok: "mem_ok H A r \<Longrightarrow> on_states (intact H A r) m \<Longrightarrow> on_states (mem_ok H A) m"
  by (cases m) (auto simp: intact_def)

lemma intact_Follower_OnEnter: "on_states (intact H A r) (Follower_OnEnter t r)"
  unfolding Follower_OnEnter_def
  by (auto intro: intact.via [OF inert_keeps [OF inert_on_store] intact_markUnhealthy]
      inert_keeps inert.R_trans [OF inert_on_store inert_fields(13)] split: prod.splits option.splits)

lemma becomeFollower_enters:
  assumes r1: "mem_wf H A r1"
  shows "on_states (mem_ok H A) (bindO (NewFollowerRole (r1\<lparr>roleEpoch := roleEpoch r1 + 1\<rparr>))
      (\<lambda>r p. bindO (Follower_OnEnter t (r\<lparr>role := Some p\<rparr>)) (\<lambda>r u. Ret r p)))"
proof -
  obtain k g where k: "electionDeadline_of (config r1) (rgen r1) = Some (k, g)"
    by (rule deadline_drawn [OF node_wfD(6) [OF r1]])
  let ?ob = "Follower \<lparr>f_electionDeadline = k, f_electionTicks = 0\<rparr>"
  define r2 where "r2 = r1\<lparr>roleEpoch := roleEpoch r1 + 1, rgen := g\<rparr>"
  have "mem_wf H A r2" using r1 by (simp add: r2_def mem_wf_def node_wf_def holds_def pending_on_def waiters_open_def)
  from node_ok_enter [OF this, of ?ob]
  have "on_states (mem_ok H A) (bindO (Follower_OnEnter t (r2\<lparr>heap := (heap r2)(nextPtr r2 \<mapsto> ?ob), nextPtr := Suc (nextPtr r2), role := Some (nextPtr r2)\<rparr>))
      (\<lambda>r u. Ret r (nextPtr r2)))"
    by (intro on_states_ret intact_ok [OF _ intact_Follower_OnEnter]) simp
  then show ?thesis using k by (simp add: NewFollowerRole_eq r2_def)
qed

lemma intact_becomeFollower: "on_states (intact H A r) (becomeFollower t r)"
  unfolding becomeFollower_def by (rule intact_change_role) (rule becomeFollower_enters)

lemma intact_step_down: "on_states (intact H A r) (bindO (becomeFollower t r) (\<lambda>r q. Ret r a))"
  by (rule intact.bind [OF intact_becomeFollower intact.ret])

lemma intact_Leader_OnEnter: "on_states (intact H A r) (Leader_OnEnter E p t r)"
proof -
  have r2: "intact H A r ((upd_leader p (init_progress me ns i) (upd_store f r))\<lparr>wal := w\<rparr>)" for me ns i f w
    by (rule intact.R_trans [OF inert_keeps [OF inert_fields(13)]
          intact.R_trans [OF intact_upd_leader [OF tracks_updates(5)] inert_keeps [OF inert_fields(4)]]])
  have send: "on_states (intact H A r) (bindO (sendAppendEntriesToAllNodes E p r) (\<lambda>r u.
      bindO (tryToAdvanceCommitIndex E p r) (\<lambda>r. Ret (go (RunApplier p) r))))" for r
    by (rule intact.bind [OF intact_leader.send_all [OF UNIV_I]], rule intact.bind [OF intact_leader.tryAdvance])
      (simp add: inert_keeps)
  note own = intact.via [OF intact_upd_leader [OF tracks_updates(6)] send]
  show ?thesis
    unfolding Leader_OnEnter_def Let_def
    by (auto intro: intact_step_down intact.via [OF r2 intact_step_down] intact.via [OF r2 own]
        split: prod.splits option.splits)
qed

lemma intact_becomeLeader: "on_states (intact H A r) (becomeLeader E t r)"
  unfolding becomeLeader_def
proof (rule intact_change_role)
  fix r1
  assume r1: "mem_wf H A (r1 :: ('a, 'b) raft)"
  let ?ob = "Leader (NewLeaderRole (config r1))"
  define r2 where "r2 = r1\<lparr>roleEpoch := roleEpoch r1 + 1\<rparr>"
  have "mem_wf H A r2" using r1 by (simp add: r2_def mem_wf_def node_wf_def holds_def pending_on_def waiters_open_def)
  from node_ok_enter [OF this, of ?ob]
  have "on_states (mem_ok H A) (bindO (Leader_OnEnter E (nextPtr r2) t (r2\<lparr>heap := (heap r2)(nextPtr r2 \<mapsto> ?ob), nextPtr := Suc (nextPtr r2), role := Some (nextPtr r2)\<rparr>))
      (\<lambda>r u. Ret r (nextPtr r2)))"
    by (intro on_states_ret intact_ok [OF _ intact_Leader_OnEnter]) (simp add: NewLeaderRole_def)
  then show "on_states (mem_ok H A) (case alloc ?ob (r1\<lparr>roleEpoch := roleEpoch r1 + 1\<rparr>) of
      (p, r1) \<Rightarrow> bindO (Leader_OnEnter E p t (r1\<lparr>role := Some p\<rparr>)) (\<lambda>r u. Ret r p))"
    by (simp add: alloc_def r2_def)
qed

section \<open>Elections\<close>

lemma intact_startElection: "on_states (intact H A r) (startElection E p r)"
proof -
  obtain ct e r1 where inc: "on_store IncrementCurrentTerm r = ((ct, e), r1)" by (metis prod.exhaust)
  obtain e2 r2 where sv: "on_store (SetVotedFor (nid r1)) r1 = (e2, r2)" by (metis prod.exhaust)
  have s1: "intact H A r r1" by (rule inert_keeps [OF inert_on_store [OF inc]])
  have s2: "intact H A r r2" by (rule intact.R_trans [OF s1 inert_keeps [OF inert_on_store [OF sv]]])
  note un = intact.via [OF s1 intact_markUnhealthy] intact.via [OF s2 intact_markUnhealthy]
  have "on_states (intact H A r) (with_candidate p (\<lambda>c r.
        if c_votes c \<ge> c_majority c then bindO (becomeLeader E ct r) (\<lambda>r q. Ret r ())
        else case getLastLogEntryIndexAndTerm E r of (li, lt) \<Rightarrow>
          Ret (go_all (map (\<lambda>n. SendRequestVote p n ct (nid r) li lt) (peers (nid r) (c_nodes c))) r) ())
        (upd_candidate p (\<lambda>c. c\<lparr>c_votes := c_votes c + 1\<rparr>) r2))"
    by (rule intact.via [OF intact.R_trans [OF s2 intact_upd_candidate]], rule with_candidate_states)
      (auto simp: intact.R_refl inert.R_refl go_all_eq intro!: on_states_ret intact_becomeLeader inert_keeps split: prod.splits)
  then show ?thesis
    using inc sv un by (cases e; cases e2) (simp_all add: startElection_def)
qed

lemma intact_startPreElection: "on_states (intact H A r) (startPreElection E p r)"
  unfolding startPreElection_def Let_def
  by (rule intact.via [OF intact_upd_candidate], rule with_candidate_states)
    (auto simp: intact.R_refl inert.R_refl go_all_eq intro!: intact.via [OF intact_upd_candidate intact_startElection] inert_keeps
      split: prod.splits)

lemma intact_becomeCandidate: "on_states (intact H A r) (becomeCandidate E r)"
  unfolding becomeCandidate_def
proof (rule intact_change_role)
  fix r1
  assume r1: "mem_wf H A (r1 :: ('a, 'b) raft)"
  obtain k g where k: "electionDeadline_of (config r1) (rgen r1) = Some (k, g)"
    by (rule deadline_drawn [OF node_wfD(6) [OF r1]])
  let ?ob = "Candidate \<lparr>c_electionDeadline = k, c_electionTicks = 0, c_majority = length (nodes r1) div 2 + 1,
     c_nodes = nodes r1, c_preVote = True, c_preVotes = 0, c_votes = 0\<rparr>"
  define r2 where "r2 = r1\<lparr>roleEpoch := roleEpoch r1 + 1, rgen := g\<rparr>"
  have "mem_wf H A r2" using r1 by (simp add: r2_def mem_wf_def node_wf_def holds_def pending_on_def waiters_open_def)
  note ok = node_ok_enter [OF this, of ?ob]
  have "on_states (intact H A r) (Candidate_OnEnter E p r)" for p r
    unfolding Candidate_OnEnter_def
    by (rule with_candidate_states) (auto simp: intact.R_refl intact_startPreElection intact_startElection)
  from ok have "on_states (mem_ok H A) (bindO (Candidate_OnEnter E (nextPtr r2) (r2\<lparr>heap := (heap r2)(nextPtr r2 \<mapsto> ?ob), nextPtr := Suc (nextPtr r2), role := Some (nextPtr r2)\<rparr>))
      (\<lambda>r u. Ret r (nextPtr r2)))"
    by (intro on_states_ret intact_ok [OF _ \<open>\<And>r p. on_states (intact H A r) (Candidate_OnEnter E p r)\<close>]) simp
  then show "on_states (mem_ok H A) (bindO (NewCandidateRole (r1\<lparr>roleEpoch := roleEpoch r1 + 1\<rparr>))
      (\<lambda>r p. bindO (Candidate_OnEnter E p (r\<lparr>role := Some p\<rparr>)) (\<lambda>r u. Ret r p)))"
    using k by (simp add: NewCandidateRole_def alloc_def r2_def)
qed

lemma intact_Leader_Tick: "on_states (intact H A r) (Leader_Tick E p r)"
  unfolding Leader_Tick_def Let_def
  by (rule intact.via [OF intact_upd_leader [OF tracks_updates(4)]], rule intact.bind; rule with_leader_states)
    (auto simp: intact.R_refl intro: intact_leader.send_all intact_step_down)

lemma intact_Tick: "on_states (intact H A r) (Tick E r)"
proof -
  have f: "on_states (intact H A r) (Follower_Tick E p r)" for p
    unfolding Follower_Tick_def
    by (rule intact.via [OF intact_upd_follower], rule with_follower_states)
      (auto simp: intact.R_refl intro: on_states_ret intact_becomeCandidate)
  have c: "on_states (intact H A r) (Candidate_Tick E p r)" for p
    unfolding Candidate_Tick_def
    by (rule intact.via [OF intact_upd_candidate], rule with_candidate_states)
      (auto simp: intact.R_refl intro: on_states_ret intact_becomeCandidate)
  show ?thesis
    unfolding Tick_def by (auto simp: intact.R_refl intro: on_role_states f c intact_Leader_Tick)
qed

lemma intact_PreVote_reply: "on_states (intact H A r) (PreVote_reply E p t reply r)"
proof -
  have "on_states (intact H A r) (startElection E p (upd_candidate p g (upd_candidate p h r)))" for g h
    by (rule intact.via [OF intact.R_trans [OF intact_upd_candidate intact_upd_candidate] intact_startElection])
  then show ?thesis
    unfolding PreVote_reply_def Let_def case_prod_beta'
    by (intro on_states_recover_vote)
      (auto simp: intact.R_refl intact_upd_candidate intro!: with_candidate_states intro: intact_step_down)
qed

lemma intact_RequestVote_reply: "on_states (intact H A r) (RequestVote_reply E p t reply r)"
proof -
  have "on_states (intact H A r) (bindO (becomeLeader E t (upd_candidate p g r)) (\<lambda>r q. Ret r ()))" for g t
    by (rule on_states_ret, rule intact.via [OF intact_upd_candidate intact_becomeLeader])
  then show ?thesis
    unfolding RequestVote_reply_def Let_def case_prod_beta'
    by (intro on_states_recover_vote)
      (auto simp: intact.R_refl intact_upd_candidate intro!: with_candidate_states intro: intact_step_down)
qed

section \<open>Requests\<close>

lemma intact_resetElectionTimer: "on_states (intact H A r) (resetElectionTimer p r)"
  by (auto simp: resetElectionTimer_def intact.R_refl split: option.splits
      intro: intact.R_trans [OF inert_keeps [OF inert_fields(7)] intact_upd_follower])

lemma intact_accept_append: "on_states (intact H A r) (accept_append E p l prev pt es ci r)"
proof -
  have w: "inert r (setCommitIndex E ci ((upd_store f r)\<lparr>wal := x\<rparr>))" for f x and r :: "('a, 'b) raft"
    by (rule inert.R_trans [OF inert_fields(13) inert.R_trans [OF inert_fields(4) inert_fields(15)]])
  have "on_states (inert r) (applyToFiniteStateMachine_follower E r)" for r
    by (simp add: applyToFiniteStateMachine_follower_def Let_def inert_apply_loop inert.R_refl)
  then have "on_states (intact H A r) (bindO (applyToFiniteStateMachine_follower E (setCommitIndex E ci ((upd_store f r)\<lparr>wal := x\<rparr>)))
      (\<lambda>r u. Ret r a))" for f x r and a :: append_reply
    by (intro on_states_ret on_states_mono [OF inert.via [OF w] inert_keeps])
  then show ?thesis
    unfolding accept_append_def Let_def
    by (intro intact.bind [OF intact_resetElectionTimer]) (auto simp: intact.R_refl split: prod.splits bool.splits)
qed

lemma intact_Follower_AppendEntries: "on_states (intact H A r) (Follower_HandleAppendEntries n E p t l prev pt es ci r)"
proof (induction n arbitrary: p r)
  case (Suc n)
  then show ?case by (auto simp: intact.R_refl intro: intact.bind [OF intact_becomeFollower] intact_accept_append)
qed simp

lemma intact_HandleAppendEntries: "on_states (intact H A r) (HandleAppendEntries E t l prev pt es ci r)"
  unfolding HandleAppendEntries_def Candidate_HandleAppendEntries_def Leader_HandleAppendEntries_def
  by (auto simp: intact.R_refl intro!: on_role_states intact_Follower_AppendEntries intact.bind [OF intact_becomeFollower])

lemma intact_decide_vote: "on_states (intact H A r) (decide_vote E p c i lt r)"
proof -
  have "on_states (intact H A r) (bindO (markUnhealthy r1) (\<lambda>r u. Ret r a))"
    "on_states (intact H A r) (bindO (resetElectionTimer p r1) (\<lambda>r u. Ret r a))"
    if "on_store (SetVotedFor c) r = (e, r1)" for e r1 and a :: vote_reply
    by (rule intact.via [OF inert_keeps [OF inert_on_store [OF that]]], rule on_states_ret,
        rule intact_markUnhealthy intact_resetElectionTimer)+
  then show ?thesis unfolding decide_vote_def Let_def by (auto simp: intact.R_refl split: prod.splits option.splits)
qed

lemma intact_Follower_RequestVote: "on_states (intact H A r) (Follower_HandleRequestVote n E p t c i lt r)"
proof (induction n arbitrary: p r)
  case (Suc n)
  then show ?case by (auto simp: intact.R_refl intro: intact.bind [OF intact_becomeFollower] intact_decide_vote)
qed simp

lemma intact_HandleRequestVote: "on_states (intact H A r) (HandleRequestVote E t c i lt r)"
  unfolding HandleRequestVote_def Candidate_HandleRequestVote_def Leader_HandleRequestVote_def
  by (auto simp: intact.R_refl intro!: on_role_states intact_Follower_RequestVote intact.bind [OF intact_becomeFollower])

lemma intact_HandlePreVote: "on_states (intact H A r) (HandlePreVote E t c i lt r)"
  unfolding HandlePreVote_def Candidate_HandlePreVote_def Leader_HandlePreVote_def Follower_HandlePreVote_def
  by (auto simp: intact.R_refl intro!: on_role_states)

lemma intact_accept_snapshot: "on_states (intact H A r) (accept_snapshot E p ct l i lt bs r)"
  unfolding accept_snapshot_def Let_def
  by (rule intact.bind [OF intact_resetElectionTimer])
    (auto intro: inert_keeps inert.R_trans [OF inert_fields(13) inert_installSnapshot])

lemma intact_Follower_InstallSnapshot: "on_states (intact H A r) (Follower_HandleInstallSnapshot E p t l i lt bs r)"
proof -
  have "on_states (intact H A r) (bindO (markUnhealthy r1) (\<lambda>r u. Ret r ct))"
    "on_states (intact H A r) (accept_snapshot E p ct l i lt bs r1)"
    if "on_store (SetCurrentTermAndVotedFor t []) r = (e, r1)" for e r1 ct
    by (rule intact.via [OF inert_keeps [OF inert_on_store [OF that]]],
        rule on_states_ret [OF intact_markUnhealthy] intact_accept_snapshot)+
  then show ?thesis
    unfolding Follower_HandleInstallSnapshot_def Let_def
    by (auto simp: intact.R_refl intact_accept_snapshot split: prod.splits option.splits)
qed

lemma intact_HandleInstallSnapshot: "on_states (intact H A r) (HandleInstallSnapshot E t l i lt bs r)"
  unfolding HandleInstallSnapshot_def Candidate_HandleInstallSnapshot_def Leader_HandleInstallSnapshot_def
  by (auto simp: intact.R_refl intro!: on_role_states intact_Follower_InstallSnapshot intact.bind [OF intact_becomeFollower])

section \<open>Proposals\<close>

lemma chans_of_put: "chans_of (put_pending i ws l) \<subseteq> chans_of l \<union> set ws"
  using chans_of_del [of i l] by (auto simp: chans_of_def put_pending_def)

lemma waiters_open_put:
  assumes w: "waiters_open r l" and ws: "distinct ws" "\<And>c. c \<in> set ws \<Longrightarrow> chans r' c = Some open_chan"
    and old: "\<And>c. c \<in> chans_of l \<Longrightarrow> chans r' c = chans r c"
    and apart: "\<And>c. c \<in> set ws \<Longrightarrow> c \<in> set (pending_at l i) \<or> c \<notin> chans_of l"
  shows "waiters_open r' (put_pending i ws l)"
proof -
  have del: "waiters_open r (del_pending i l)" by (rule waiters_open_del [OF w]) simp
  have no: "c \<notin> chans_of (del_pending i l)" if "c \<in> set ws" for c
  proof
    assume d: "c \<in> chans_of (del_pending i l)"
    then obtain j ws' where j: "(j, ws') \<in> set (l_pending l)" "j \<noteq> i" "c \<in> set ws'"
      by (auto simp: chans_of_def del_pending_def)
    have "c \<in> set (pending_at l i)" using apart [OF that] d chans_of_del by blast
    then show False
      using distinct_concat_pairs [of "l_pending l" j ws' i "pending_at l i" c] j pending_at_in w
      by (auto simp: waiters_open_def)
  qed
  have "chans r' c = Some open_chan" if "(j, ws') \<in> set (l_pending (del_pending i l))" "c \<in> set ws'" for j ws' c
  proof -
    have "c \<in> chans_of l" using that by (force simp: chans_of_def del_pending_def)
    then show ?thesis using old del that by (force simp: waiters_open_def)
  qed
  moreover have "set ws \<inter> (\<Union>iw\<in>set (l_pending (del_pending i l)). set (snd iw)) = {}"
    using no by (auto simp: chans_of_def)
  moreover have "i \<notin> fst ` set (l_pending (del_pending i l))" by (auto simp: del_pending_def)
  ultimately show ?thesis
    using del ws unfolding waiters_open_def put_pending_def by (auto simp: Int_commute)
qed

lemma intact_new_waiter:
  assumes p: "heap r p = Some (Leader l)"
  shows "intact H A r (upd_leader p (\<lambda>l. put_pending i (pending_at l i @ [nextChan r]) l) (snd (make_chan r)))"
proof -
  let ?l = "put_pending i (pending_at l i @ [nextChan r]) l"
  define cs where "cs = (chans r)(nextChan r \<mapsto> open_chan)"
  define r' where "r' = r\<lparr>heap := (heap r)(p \<mapsto> Leader ?l), chans := cs, nextChan := Suc (nextChan r)\<rparr>"
  have eq: "upd_leader p (\<lambda>l. put_pending i (pending_at l i @ [nextChan r]) l) (snd (make_chan r)) = r'"
    using p by (simp add: make_chan_def upd_leader_def r'_def cs_def)
  have "mem_wf H A r'" if wf: "mem_wf H A r"
  proof -
    note w = node_wfD(4) [OF wf p]
    have new: "nextChan r \<notin> chans_of l"
      using node_wfD(3) [OF wf, of "nextChan r"] w by (force simp: waiters_open_def chans_of_def)
    then have np: "nextChan r \<notin> set (pending_at l i)" using pending_chans by blast
    have "waiters_open r' ?l"
      by (rule waiters_open_put [OF w])
        (use waiters_open_at [OF w, where i = i] np new in \<open>auto simp: r'_def cs_def\<close>)
    then show ?thesis
      using chans_of_put [of i "pending_at l i @ [nextChan r]" l] pending_chans [of l i] node_wfD(3) [OF wf]
      by (intro node_wf_leader [OF wf p r'_def]) (auto simp: cs_def)
  qed
  then show ?thesis unfolding eq intact_def mem_ok_iff using p
    by (auto simp: r'_def put_pending_def del_pending_def split: if_splits)
qed

lemma intact_HandlePropose_begin: "on_states (intact H A r) (HandlePropose_begin E p bs cid sn ep r)"
proof -
  have send: "on_states (intact H A r) (bindO (sendAppendEntriesToAllNodes E p r)
     (\<lambda>r u. Ret (upd_leader p (raise_own (nid r) i) r) (Waiting i ch)))" for r i ch
    by (rule intact.bind [OF intact_leader.send_all [OF UNIV_I]]) (simp add: intact_upd_leader tracks_updates)
  have wait: "intact H A r (upd_leader p (\<lambda>l. put_pending i (pending_at l i @ [nextChan r]) l)
      (r\<lparr>wal := w, chans := (chans r)(nextChan r \<mapsto> open_chan), nextChan := Suc (nextChan r)\<rparr>))"
    if "heap r p = Some (Leader l)" for l i w
    using intact.R_trans [OF inert_keeps [OF inert_fields(4)] intact_new_waiter [of "r\<lparr>wal := w\<rparr>" p l _ _ i]] that
    by (simp add: make_chan_def)
  show ?thesis
    unfolding HandlePropose_begin_def
    by (rule with_leader_states)
      (auto simp: Let_def case_prod_beta' intact.R_refl make_chan_def
        intro: inert_keeps intact.via [OF wait send] split: option.splits)
qed

lemma intact_HandlePropose: "on_states (intact H A r) (HandlePropose E p bs cid sn ep r)"
  unfolding HandlePropose_def
  by (auto simp: intact.R_refl intro: on_states_ret [OF intact_HandlePropose_begin] split: option.splits role_obj.splits)

text \<open>A channel with a value in it is no longer pending.\<close>

lemma intact_receive: "HandlePropose_receive ch r = Some (x, r') \<Longrightarrow> intact H A r r'"
proof -
  assume "HandlePropose_receive ch r = Some (x, r')"
  then consider "r' = r" | c v rest where "chans r ch = Some c" "ch_buf c = v # rest"
      "r' = r\<lparr>chans := (chans r)(ch \<mapsto> c\<lparr>ch_buf := rest\<rparr>)\<rparr>"
    by (auto simp: HandlePropose_receive_def split: option.splits list.splits if_splits)
  then show ?thesis
  proof cases
    case (2 c v rest)
    have "mem_wf H A r'" if wf: "mem_wf H A r"
    proof (rule node_wfI)
      show "waiters_open r' l" if "heap r' p = Some (Leader l)" for p l
        using node_wfD(4) [OF wf, of p l] that 2 by (force simp: waiters_open_def)
      show "chans r' d = None" if "nextChan r' \<le> d" for d
        using node_wfD(3) [OF wf, of d] that 2 by auto
      show "holds H A r'"
        using mem_wf_holds [OF wf] 2 unfolding holds_def pending_on_def by fastforce
    qed (use node_wfD [OF wf] 2(3) in auto)
    then show ?thesis using 2(3) by (auto simp: intact_def mem_ok_iff)
  qed (simp add: intact.R_refl)
qed

lemma remove_waiter_subset: "set (remove_waiter ch ws) \<subseteq> set ws \<and> (distinct ws \<longrightarrow> distinct (remove_waiter ch ws))"
proof (induction ws)
  case (Cons w ws)
  show ?case
  proof (cases "ws = []")
    case False
    then have "mset (last ws # butlast ws) = mset ws"
      by (metis add.commute append_butlast_last_id mset.simps(2) mset_append union_mset_add_mset_right add_mset_add_single mset.simps(1))
    then have "set (last ws # butlast ws) = set ws" "distinct (last ws # butlast ws) = distinct ws"
      by (metis set_mset_mset, metis mset_eq_imp_distinct_iff)
    then show ?thesis using Cons False by auto
  qed simp
qed simp

lemma intact_fewer_waiters:
  assumes p: "heap r p = Some (Leader l)" and g: "g l = del_pending i l \<or> (\<exists>ws. g l = put_pending i ws l
      \<and> set ws \<subseteq> set (pending_at l i) \<and> (distinct (pending_at l i) \<longrightarrow> distinct ws))"
  shows "intact H A r (upd_leader p g r)"
proof -
  define r' where "r' = r\<lparr>heap := (heap r)(p \<mapsto> Leader (g l)), chans := chans r, nextChan := nextChan r\<rparr>"
  have eq: "upd_leader p g r = r'" using p by (simp add: upd_leader_def r'_def)
  have "mem_wf H A r'" if wf: "mem_wf H A r"
  proof -
    note w = node_wfD(4) [OF wf p]
    have "waiters_open r' (g l) \<and> chans_of (g l) \<subseteq> chans_of l"
      using g
    proof (elim disjE exE conjE)
      assume "g l = del_pending i l"
      then show ?thesis using waiters_open_del [OF w, of i r'] chans_of_del by (simp add: r'_def)
    next
      fix ws
      assume ws: "g l = put_pending i ws l" "set ws \<subseteq> set (pending_at l i)" "distinct (pending_at l i) \<longrightarrow> distinct ws"
      have "waiters_open r' (put_pending i ws l)"
        by (rule waiters_open_put [OF w]) (use ws waiters_open_at [OF w, where i = i] in \<open>auto simp: r'_def\<close>)
      then show ?thesis using ws chans_of_put [of i ws l] pending_chans [of l i] by auto
    qed
    then show ?thesis by (intro node_wf_leader [OF wf p r'_def]) (use node_wfD(3) [OF wf] in auto)
  qed
  moreover have "l_applierStopped (g l) = l_applierStopped l"
    using g by (auto simp: put_pending_def del_pending_def)
  ultimately show ?thesis unfolding eq intact_def mem_ok_iff using p by (auto simp: r'_def split: if_splits)
qed

lemma intact_cancel: "on_states (intact H A r) (HandlePropose_cancel p i ch r)"
  unfolding HandlePropose_cancel_def
proof (rule with_leader_states, goal_cases)
  case (2 l)
  have "intact H A r (upd_leader p (if remove_waiter ch (pending_at l i) \<noteq> [] then put_pending i (remove_waiter ch (pending_at l i)) else del_pending i) r)"
    by (rule intact_fewer_waiters [OF 2, where i = i])
      (use remove_waiter_subset [of ch "pending_at l i"] in \<open>cases "remove_waiter ch (pending_at l i) = []"; auto\<close>)
  then show ?case by (simp add: Let_def intact.R_refl)
qed (rule intact.R_refl)

section \<open>The applier\<close>

lemma intact_answer:
  assumes p: "heap r p = Some (Leader l)"
  shows "on_states (intact H A r) (answer_waiters v (pending_at l i) (if pending_at l i \<noteq> [] then upd_leader p (del_pending i) r else r))"
proof (cases "pending_at l i \<noteq> [] \<and> mem_ok H A r")
  case True
  then have wf: "mem_wf H A r" by (simp add: mem_ok_iff)
  note w = waiters_open_at [OF node_wfD(4) [OF wf p], where i = i]
  let ?r = "upd_leader p (del_pending i) r"
  define cs where "cs = (\<lambda>c. if c \<in> set (pending_at l i) then Some \<lparr>ch_buf = [v], ch_closed = True\<rparr> else chans r c)"
  have r1: "?r = r\<lparr>heap := (heap r)(p \<mapsto> Leader (del_pending i l))\<rparr>" using p by (simp add: upd_leader_def)
  have cs: "cs = (\<lambda>c. if c \<in> set (pending_at l i) then Some \<lparr>ch_buf = [v], ch_closed = True\<rparr> else chans ?r c)"
    by (rule ext) (simp add: cs_def r1)
  have "answer_waiters v (pending_at l i) ?r = Ret (?r\<lparr>chans := cs\<rparr>) ()"
    unfolding cs by (rule answer_waiters_spec) (use w in \<open>simp_all add: r1\<close>)
  moreover have "mem_wf H A (?r\<lparr>chans := cs\<rparr>)"
    using node_wf_release [OF wf p, of i cs] by (simp add: r1 cs_def)
  ultimately show ?thesis
    using True p by (auto simp: intact_def mem_ok_iff r1 del_pending_def split: if_splits)
next
  case False
  then show ?thesis by (cases "pending_at l i = []") (auto simp: intact.R_refl intro: on_states_all simp: intact_def)
qed

lemma intact_leader_apply_entry: "on_states (intact H A r) (leader_apply_entry E p idx r)"
proof -
  have w: "on_states (intact H A r) (with_leader p (\<lambda>l r. answer_waiters (a l) (pending_at l idx)
      (if pending_at l idx \<noteq> [] then upd_leader p (del_pending idx) r else r)) r)" for a and r :: "('l, 's) raft"
    by (rule with_leader_states [OF intact.R_refl]) (rule intact_answer)
  show ?thesis
    unfolding leader_apply_entry_def Let_def
    by (auto simp: intact.R_refl inert_keeps intro!: intact.bind [OF on_states_mono [OF inert_apply_command inert_keeps]]
        intact.bind [OF w] split: option.splits sum.splits)
qed

lemma intact_applier_round: "on_states (intact H A r) (applier_round E p stops r)"
proof -
  have loop: "on_states (intact H A r) (leader_apply_loop E p n idx r)" for n idx r
  proof (induction n arbitrary: idx r)
    case (Suc n)
    then show ?case by (auto simp: intact.R_refl intro: intact.bind [OF intact_leader_apply_entry])
  qed (simp add: intact.R_refl)
  have un: "on_states (intact H A r) (bindO (markUnhealthy r) (\<lambda>r u. Ret r False))" for r :: "('l, 's) raft"
    by (rule on_states_ret [OF intact_markUnhealthy])
  have ap: "on_states (intact H A r) (applyToFiniteStateMachine_leader E p (upd_leader p (\<lambda>l. l\<lparr>l_applierCh := False\<rparr>) r))"
    unfolding applyToFiniteStateMachine_leader_def case_prod_beta'
    by (rule intact.via [OF intact_upd_leader [OF tracks_updates(3)] loop])
  note ret = on_states_dest(1) [OF ap] and panics = intact.via [OF on_states_dest(2) [OF ap] un]
  show ?thesis
    unfolding applier_round_def
    by (rule with_leader_states) (auto simp: intact.R_refl split: outcome.splits intro: ret panics)
qed

text \<open>One step of an applier that runs beside the others keeps what the others rely on.\<close>

lemma intact_chan:
  assumes "\<not> pending_on r c" "chans r c \<noteq> None" "\<And>b. (c, b) \<notin> H"
  shows "intact H A r (r\<lparr>chans := (chans r)(c \<mapsto> ch)\<rparr>)"
proof -
  let ?r = "r\<lparr>chans := (chans r)(c \<mapsto> ch)\<rparr>"
  have "mem_wf H A ?r" if wf: "mem_wf H A r"
  proof (rule node_wfI)
    show "waiters_open ?r l" if "heap ?r p = Some (Leader l)" for p l
    proof -
      have "c \<notin> chans_of l" using assms(1) that by (auto simp: pending_on_chans)
      then show ?thesis using node_wfD(4) [OF wf, of p l] that by (force simp: waiters_open_def chans_of_def)
    qed
    show "chans ?r d = None" if "nextChan ?r \<le> d" for d using node_wfD(3) [OF wf, of d] that assms(2) by auto
    show "holds H A ?r" using mem_wf_holds [OF wf] assms(3) unfolding holds_def pending_on_def by auto
  qed (use node_wfD [OF wf] in auto)
  then show ?thesis by (auto simp: intact_def mem_ok_iff)
qed

lemma intact_applier_micro:
  assumes "\<And>c b. (c, b) \<in> set (held pc) \<Longrightarrow> \<not> pending_on r c" "\<And>c b b'. (c, b) \<in> set (held pc) \<Longrightarrow> (c, b') \<notin> H"
  shows "on_states (intact H A r) (applier_micro E p stops pc r)"
proof -
  have machine: "on_states (intact H A r) (run_machine E bs r)" for bs
    by (auto simp: run_machine_def inert_keeps split: outcome.splits)
  have chan: "on_states (intact H A r) (send_chan c v r)" "on_states (intact H A r) (close_chan c r)"
    if "(c, b) \<in> set (held pc)" for c b v
    using intact_chan [of r c H A] assms that
    by (auto simp: send_chan_def close_chan_def intact.R_refl split: option.splits)
  have take_ws: "intact H A r (upd_leader p (del_pending i) r)" if "heap r p = Some (Leader l)" for l i
    by (rule intact_fewer_waiters [OF that]) blast
  have token: "intact H A r (upd_leader p (\<lambda>l. l\<lparr>l_applierCh := False\<rparr>) r)"
    by (rule intact_upd_leader [OF tracks_updates(3)])
  show ?thesis
    using machine chan(1) chan(2) [of _ False] take_ws token
    by (cases "(E, p, stops, pc, r)" rule: applier_micro.cases)
      (auto simp: Let_def intact.R_refl inert_keeps intro!: with_leader_states on_states_ret
        split: option.splits sum.splits prod.splits bool.splits)
qed

lemma intact_applier_step:
  assumes "\<And>c b. (c, b) \<in> set (held pc) \<Longrightarrow> \<not> pending_on r c" "\<And>c b b'. (c, b) \<in> set (held pc) \<Longrightarrow> (c, b') \<notin> H"
  shows "on_states (intact H A r) (applier_step E p stops pc r)"
proof -
  note micro = intact_applier_micro [of pc r H A E p stops, OF assms]
  have un: "on_states (intact H A r) (bindO (markUnhealthy r) (\<lambda>r u. Ret r Stopped))" for r :: "('a, 'b) raft"
    by (rule on_states_ret [OF intact_markUnhealthy])
  show ?thesis
    unfolding applier_step_def using on_states_dest [OF micro]
    by (auto split: outcome.splits intro: intact.via [OF _ un])
qed

section \<open>Answers and switches\<close>

lemma intact_set_inflight: "intact H A r (set_inflight p node b r)"
  unfolding set_inflight_def by (rule intact_upd_leader [OF tracks_updates(1)])

lemma intact_recover: "on_states (intact H A r) m \<Longrightarrow> on_states (intact H A r) (recover_send p node m)"
  by (cases m) (auto simp: recover_send_def intro: intact.R_trans [OF _ intact_set_inflight])

lemma intact_retry: "on_states (intact H A r) (retrySendAppendEntriesToNode E p node t r)"
proof -
  have "intact H A r (go g (set_inflight p node b r))" for g b
    by (rule intact.R_trans [OF intact_set_inflight inert_keeps [OF inert_fields(14)]])
  then show ?thesis
    unfolding retrySendAppendEntriesToNode_def
    by (intro with_leader_states) (simp_all add: Let_def intact.R_refl)
qed

lemma intact_AppendEntries_reply: "on_states (intact H A r) (AppendEntries_reply E p n t pi es reply r)"
proof -
  have adv: "on_states (intact H A r) (bindO (tryToAdvanceCommitIndex E p (upd_leader p (acknowledge n i) r)) (\<lambda>r u.
      with_leader p (\<lambda>l r. if l_nextIndex l n \<le> fst (gl_GetLastIndex E (wal r))
         then retrySendAppendEntriesToNode E p n t r else Ret r ()) r))" for r i t
    by (rule intact.bind [OF intact.via [OF intact_upd_leader [OF tracks_updates(8)] intact_leader.tryAdvance]],
        rule with_leader_states) (auto simp: intact.R_refl intact_retry)
  have retreat: "on_states (intact H A r) (with_leader p (\<lambda>l r. if 1 < l_nextIndex l n
      then retrySendAppendEntriesToNode E p n t (upd_leader p (back_off E (wal r) n ci ct) r) else Ret r ()) r)" for r t ci ct
    by (rule with_leader_states)
      (auto simp: intact.R_refl intro: intact.via [OF intact_upd_leader [OF tracks_updates(9)] intact_retry])
  show ?thesis
    unfolding AppendEntries_reply_def Let_def case_prod_beta'
    by (rule intact_recover, rule intact.via [OF intact_set_inflight])
      (auto simp: intact.R_refl intro: intact_step_down adv retreat)
qed

lemma intact_InstallSnapshot_reply: "on_states (intact H A r) (InstallSnapshot_reply E p n snap t r)"
  unfolding InstallSnapshot_reply_def Let_def
  by (rule intact_recover, rule intact.via [OF intact_set_inflight])
    (auto simp: intact.R_refl intro: intact_step_down
      intact.via [OF intact_upd_leader [OF tracks_updates(8)] intact_leader.tryAdvance])

lemma intact_snapshot_load: "intact H A r (snd (sendInstallSnapshot_load p n r))"
  unfolding sendInstallSnapshot_load_def
  by (auto intro: inert_keeps intact.R_trans [OF inert_keeps [OF inert_fields(2)] intact_set_inflight]
      split: prod.splits sum.splits)

lemma intact_Disable: "on_states (intact H A r) (Disable r)"
proof -
  have "on_states (intact H A r) (bindO (OnExit p (r\<lparr>enabled := False\<rparr>)) (\<lambda>r. Ret (upd_store f r)))" if "role r = Some p" for p f
    by (rule intact.bind [OF intact.via [OF inert_keeps [OF inert_fields(10)] intact_OnExit_off]])
      (simp_all add: that inert_keeps)
  then show ?thesis by (auto simp: Disable_def intact.R_refl inert_keeps split: option.splits)
qed

lemma intact_Shutdown: "on_states (intact H A r) (Shutdown r)"
proof -
  let ?r = "r\<lparr>shutdownClosed := True, enabled := False\<rparr>"
  have r: "intact H A r ?r" by (rule inert_keeps) (simp add: inert_def)
  have "on_states (intact H A ?r) (exit_role ?r)"
    using intact_OnExit_off [of ?r] by (auto simp: exit_role_def intact.R_refl split: option.splits)
  note out = intact.bind [OF intact.via [OF r this], where f = "\<lambda>r. Ret (upd_store f r)" for f]
  show ?thesis by (auto simp: Shutdown_def Let_def inert_keeps intro: out)
qed

text \<open>A follower may be enabled again; a disabled leader may not.\<close>

lemma intact_Enable: "on_states (intact H A r) (Enable r)"
proof -
  have "on_states (intact H A r) (bindO (becomeFollower t r) (\<lambda>r p. Ret (r\<lparr>enabled := True\<rparr>) ()))" for t
  proof (rule intact.bind [OF intact_becomeFollower])
    fix r1 q
    assume "becomeFollower t r = Ret r1 q"
    then have "\<not> leads r1" by (rule becomeFollower_not_leads)
    then have "heap r1 p \<noteq> Some (Leader l)" if "role r1 = Some p" for p l
      using that by (auto simp: leads_def role_kind_of_def)
    then show "on_states (intact H A r1) (Ret (r1\<lparr>enabled := True\<rparr>) ())"
      by (auto simp: intact_def mem_ok_iff mem_wf_def node_wf_def holds_def pending_on_def waiters_open_def)
  qed
  then show ?thesis by (simp add: Enable_def intact.R_refl)
qed

section \<open>Progress\<close>

lemma handlers_answer:
  assumes "node_ok r" and "fault_free (fdisk r)" and "returns E ok f" and "ok (fsm r)" and "2 \<le> stackDepth E"
  shows "(\<exists>r' x. HandleAppendEntries E t leader prev pt es ci r = Ret r' x)
    \<and> (\<exists>r' x. HandlePreVote E t who i lt r = Ret r' x)
    \<and> (\<exists>r' x. HandleRequestVote E t who i lt r = Ret r' x)
    \<and> (\<exists>r' x. HandleInstallSnapshot E t leader i lt bs r = Ret r' x)"
proof (cases "enabled r")
  case True
  obtain p where "role r = Some p" "Validate (config r) = None" using assms(1) by (auto simp: node_ok_def node_wf_def)
  then show ?thesis using handlers_return [OF _ node_ok_can_exit [OF assms(1) True] _ assms(2-5)] by blast
next
  case False
  then show ?thesis
    by (auto simp: HandleAppendEntries_def HandlePreVote_def HandleRequestVote_def HandleInstallSnapshot_def)
qed

section \<open>Every step, and the start\<close>

lemma local_step_intact:
  assumes "local_step E r r'"
  shows "intact {} {} r r'"
  using assms
proof cases
  case (propose_receive ch x)
  then show ?thesis by (rule intact_receive)
next
  case (applier_at pc p stops)
  from ends_states [OF applier_at(2) intact_applier_step [OF applier_at(1)]] show ?thesis by simp
qed (auto elim!: ends_states intro: intact_Tick intact_HandlePreVote intact_HandleRequestVote intact_HandleInstallSnapshot
    intact_HandlePropose intact_cancel intact_leader_apply_entry intact_applier_round intact_InstallSnapshot_reply
    intact_PreVote_reply intact_Disable intact_Enable intact_Shutdown inert_keeps
    simp: intact_snapshot_load inert_TakeSnapshot inert_TakeSnapshot_finish)

lemma node_step_intact:
  assumes "node_step E r r'"
  shows "intact {} {} r r'"
  using assms
  by cases (auto elim!: ends_states intro: local_step_intact intact_HandleAppendEntries intact_AppendEntries_reply)

lemma NewRaft_ok:
  assumes new: "NewRaft E gen d me dir ns w s machine cfg = Ret r' p"
  shows "config r' = cfg" and "Validate cfg = None \<Longrightarrow> node_ok r'"
proof -
  define r0 where "r0 = \<lparr>config = cfg, dataDir = dir, enabled = True, fsm = machine, healthy = True,
      nid = me, wal = w, nodes = ns, rgen = gen, role = None, roleEpoch = 0,
      snapshotIndex = 0, snapshotTerm = 0, sessions = NewSessionTable, store = s, shutdownClosed = False,
      heap = (\<lambda>_. None), nextPtr = 0, chans = (\<lambda>_. None), nextChan = 0, spawned = [], fdisk = d\<rparr>"
  have rec: "inert r0 (recover_snapshot E r0)"
    by (auto simp: recover_snapshot_def upd_store_def inert_def split: prod.splits sum.splits)
  have "on_states (inert r0) (replay_log E (recover_snapshot E r0))"
    by (rule inert.via [OF rec]) (simp add: replay_log_def Let_def inert_apply_loop)
  then obtain r1 where r1: "inert r0 r1" "becomeFollower 0 r1 = Ret r' p"
    using new unfolding NewRaft_def Let_def r0_def [symmetric] by (cases "replay_log E (recover_snapshot E r0)") auto
  show "config r' = cfg"
    using frame_becomeFollower [of r1 0] r1 by (simp add: frame_def kept_def inert_def r0_def)
  assume "Validate cfg = None"
  then have wf: "mem_wf {} {} r1" and "role r1 = None"
    using r1(1) by (simp_all add: inert_def mem_wf_def node_wf_def r0_def)
  then have ex: "exit_role r1 = Ret r1 ()" by (simp add: exit_role_def)
  have "on_states (mem_ok {} {}) (becomeFollower 0 r1)"
    using becomeFollower_enters [OF wf] ex by (simp add: becomeFollower_def)
  then show "node_ok r'" using r1(2) by (simp add: mem_ok_none)
qed

lemma boot_ok: "boot E gen machine r = Some (Ret r' p) \<Longrightarrow> Validate (config r') = None \<Longrightarrow> node_ok r'"
  using NewRaft_ok by (fastforce simp: boot_def split: prod.splits sum.splits)

section \<open>Every run\<close>

text \<open>No step of the cluster changes a configuration, so a valid one was valid from the start.\<close>

definition sound :: "bool \<Rightarrow> ('l, 's) raft \<Rightarrow> bool" where
  "sound b r \<longleftrightarrow> (b \<longrightarrow> Validate (config r) = None \<longrightarrow> node_ok r)"

lemma sound_change: "sound True r \<Longrightarrow> intact {} {} r r' \<Longrightarrow> kept r r' \<Longrightarrow> sound b r'"
  by (simp add: sound_def intact_def mem_ok_none kept_def)

lemma kept_goroutines: "kept r (r\<lparr>spawned := gs\<rparr>)"
  by (simp add: kept_def on_disk_def snapshotPath_def)

lemma sound_spawned: "sound b r \<Longrightarrow> sound b (r\<lparr>spawned := gs\<rparr>)"
  using sound_change [OF _ inert_keeps [OF inert_fields(9)] kept_goroutines] by (auto simp: sound_def)

lemma moves_sound:
  assumes "cluster_step E ns c c'" and s: "\<And>a. a \<in> set ns \<Longrightarrow> sound (up c a) (cnode c a)" and x: "x \<in> set ns"
  shows "sound (up c' x) (cnode c' x)"
  using assms(1)
proof cases
  case (local a r')
  have "sound b r'" for b
    using sound_change [OF _ node_step_intact [OF local(4)] node_step_kept [OF local(4)]] s [OF local(2)] local(3) by simp
  then show ?thesis using s [OF x] local(1) by (cases "x = a") simp_all
next
  case (ask a b p t me i lt r' t' granted)
  have "intact {} {} (cnode c b) r'" "kept (cnode c b) r'"
    using intact_HandleRequestVote [of "{}" "{}" "cnode c b" E t me i lt] frame_HandleRequestVote [of "cnode c b" E t me i lt] ask(8)
    by (simp_all add: frame_def)
  then have "sound d r'" for d using sound_change s [OF ask(3)] ask(6) by simp
  then show ?thesis
    using s [OF x] sound_spawned [OF s [OF ask(2)]] ask(1) by (cases "x = b"; cases "x = a") simp_all
next
  case (unanswered a p b t me i lt)
  then show ?thesis using s [OF x] sound_spawned [OF s [OF x]] by (cases "x = a") simp_all
next
  case (answer a p b t reply r')
  have "sound b r'" for b
    using sound_change [OF _ ends_states [OF answer(5) intact_RequestVote_reply] kept_RequestVote_reply [OF answer(5)]]
      s [OF answer(2)] answer(3) by simp
  then show ?thesis using s [OF x] answer(1) by (cases "x = a") simp_all
next
  case (start a g machine r' p)
  then have "sound b r'" for b using boot_ok [OF start(5)] by (simp add: sound_def)
  then show ?thesis using s [OF x] start(1) by (cases "x = a") simp_all
qed (use s [OF x] in \<open>auto simp: sound_def\<close>)

lemma run_sound: "run E ns c V W \<Longrightarrow> a \<in> set ns \<Longrightarrow> sound (up c a) (cnode c a)"
proof (induction arbitrary: a rule: run.induct)
  case (run_start c)
  then show ?case by (simp add: fresh_def sound_def)
next
  case (run_step c V W c')
  show ?case by (rule moves_sound [OF run_step.hyps(2) run_step.IH run_step.prems])
qed

section \<open>Properties\<close>

definition default_node :: "gostring \<Rightarrow> (logview, bytes list) raft" where
  "default_node a = (blank trio a)\<lparr>config := DefaultConfig\<rparr>"

lemma default_boots: "\<exists>r' p. boot sample_env sample_rng [] (default_node a) = Some (Ret r' p) \<and> fault_free (fdisk r')
    \<and> config r' = DefaultConfig"
  by (simp add: boot_def default_node_def node_simps fault_free_def)

lemma default_run:
  "\<exists>c V W. run sample_env trio c V W \<and> up c [97] \<and> config (cnode c [97]) = DefaultConfig \<and> fault_free (fdisk (cnode c [97]))"
proof -
  let ?c0 = "\<lparr>cnode = default_node, up = (\<lambda>_. False), calls = []\<rparr>"
  obtain r' p where b: "boot sample_env sample_rng [] (default_node [97]) = Some (Ret r' p)" "fault_free (fdisk r')"
    "config r' = DefaultConfig"
    using default_boots by blast
  have "fresh trio ?c0"
    by (simp add: fresh_def default_node_def blank_def on_disk_def snapshotPath_def sample_store_def empty_disk_def)
  then have "run sample_env trio ?c0 (stamps trio ?c0) (leaders trio ?c0)" by (rule run.run_start)
  moreover have "cluster_step sample_env trio ?c0 ((set_node [97] r' ?c0)\<lparr>up := (up ?c0)([97] := True)\<rparr>)"
    by (rule moves.start [where g = sample_rng and machine = "[]" and p = p])
      (use b(1) in \<open>simp_all add: trio_def default_node_def blank_def sample_store_def vote_ok_def\<close>)
  ultimately show ?thesis using run.run_step b by fastforce
qed

text \<open>
  C7. The memory of a node is well formed throughout every run of a cluster: its role points to an
  object, addresses not yet handed out are unused, each channel on which a proposal waits is open,
  empty and belongs to one proposal of one leader object, and the applier of an enabled leader has
  not been stopped.
\<close>

theorem nodes_well_formed:
  assumes "run E ns c V W" and "a \<in> set ns" and "up c a" and "Validate (config (cnode c a)) = None"
  shows "node_ok (cnode c a)"
  using run_sound [OF assms(1,2)] assms(3,4) by (simp add: sound_def)

theorem nodes_well_formed_witness:
  "\<exists>c V W. run sample_env trio c V W \<and> up c [97] \<and> node_ok (cnode c [97])"
proof -
  obtain c V W where r: "run sample_env trio c V W" "up c [97]" "config (cnode c [97]) = DefaultConfig"
    using default_run by blast
  then have "node_ok (cnode c [97])" by (intro nodes_well_formed [OF r(1)]) (simp_all add: trio_def DefaultConfig_valid)
  with r show ?thesis by blast
qed

text \<open>
  C6. Every request is answered: in every run of a cluster, a node that is up, in any role, with a
  valid configuration, a working disk and a state machine that returns from the state it is in on,
  returns from each of the four handlers, whatever the request holds; the nested calls need room
  for two.
\<close>

theorem requests_are_answered:
  assumes "run E ns c V W" and "a \<in> set ns" and "up c a" and "Validate (config (cnode c a)) = None"
    and "fault_free (fdisk (cnode c a))" and "returns E ok f" and "ok (fsm (cnode c a))" and "2 \<le> stackDepth E"
  shows "(\<exists>r' x. HandleAppendEntries E t leader prev pt es ci (cnode c a) = Ret r' x)
    \<and> (\<exists>r' x. HandlePreVote E t who i lt (cnode c a) = Ret r' x)
    \<and> (\<exists>r' x. HandleRequestVote E t who i lt (cnode c a) = Ret r' x)
    \<and> (\<exists>r' x. HandleInstallSnapshot E t leader i lt bs (cnode c a) = Ret r' x)"
  by (rule handlers_answer [OF _ assms(5-8)]) (use run_sound [OF assms(1,2)] assms(3,4) in \<open>simp add: sound_def\<close>)

theorem requests_are_answered_witness:
  "\<exists>c V W. run sample_env trio c V W \<and> up c [97]
     \<and> (\<exists>r' x. HandleAppendEntries sample_env 3 [98] 0 0 [] 0 (cnode c [97]) = Ret r' x)
     \<and> (\<exists>r' x. HandlePreVote sample_env 3 [98] 0 0 (cnode c [97]) = Ret r' x)
     \<and> (\<exists>r' x. HandleRequestVote sample_env 3 [98] 0 0 (cnode c [97]) = Ret r' x)
     \<and> (\<exists>r' x. HandleInstallSnapshot sample_env 3 [98] 0 0 [] (cnode c [97]) = Ret r' x)"
proof -
  obtain c V W where r: "run sample_env trio c V W" "up c [97]" "config (cnode c [97]) = DefaultConfig"
    "fault_free (fdisk (cnode c [97]))"
    using default_run by blast
  show ?thesis
    by (intro exI [of _ c] exI [of _ V] exI [of _ W] conjI [OF r(1) conjI [OF r(2)]]
        requests_are_answered [OF r(1) _ r(2) _ r(4) sample_returns])
      (simp_all add: r(3) trio_def DefaultConfig_valid sample_env_ops)
qed

end
