(* ===== verification/Progress.thy ===== *)
theory Progress
  imports Lease Well_Formed
begin

text \<open>
  That the goroutines a process runs on its own return: a tick, whatever role the node has and
  whatever its disk does, each step of a leader's applier, and the shutdown.
\<close>

section \<open>Elections\<close>

abbreviation as_candidate :: "nat \<Rightarrow> ('l, 's) raft \<Rightarrow> bool" where
  "as_candidate p r \<equiv> role r = Some p \<and> (\<exists>c. heap r p = Some (Candidate c))"

definition as_leader :: "nat \<Rightarrow> ('l, 's) raft \<Rightarrow> bool" where
  "as_leader p r \<longleftrightarrow> role r = Some p \<and> (\<exists>l. heap r p = Some (Leader l) \<and> l_pending l = [] \<and> \<not> l_applierStopped l)"

lemma as_leader_exit: "as_leader p r \<Longrightarrow> can_exit r"
  by (auto simp: as_leader_def can_exit_def waiters_open_def)

lemma as_candidate_exit: "as_candidate p r \<Longrightarrow> can_exit r"
  by (auto simp: can_exit_def)

lemma becomeFollower_returns: "can_exit r \<Longrightarrow> Validate (config r) = None \<Longrightarrow> \<exists>r' q. becomeFollower t r = Ret r' q"
  by (rule becomeFollower_spec [of r t]) auto

lemma tryToAdvance_returns: "heap r p = Some (Leader l) \<Longrightarrow> \<exists>r'. tryToAdvanceCommitIndex E p r = Ret r' ()"
  by (auto simp: tryToAdvanceCommitIndex_def with_leader_def split: option.splits sum.splits)

lemma Leader_OnEnter_returns:
  assumes "as_leader p r" and "Validate (config r) = None"
  shows "\<exists>r'. Leader_OnEnter E p t r = Ret r' ()"
proof -
  have down: "\<exists>r'. bindO (becomeFollower t x) (\<lambda>r q. Ret r ()) = Ret r' ()"
    if "as_leader p x" "config x = config r" for x :: "('a, 'b) raft"
    using becomeFollower_returns [OF as_leader_exit [OF that(1)], of t] that(2) assms(2) by auto
  have send: "\<exists>r'. bindO (sendAppendEntriesToAllNodes E p x) (\<lambda>r u.
      bindO (tryToAdvanceCommitIndex E p r) (\<lambda>r u. Ret (go (RunApplier p) r) ())) = Ret r' ()"
    if x: "as_leader p x" for x :: "('a, 'b) raft"
  proof -
    obtain l where l: "heap x p = Some (Leader l)" using x by (auto simp: as_leader_def)
    obtain x1 where x1: "sendAppendEntriesToAllNodes E p x = Ret x1 ()" "sent p x x1"
      using send_all_spec [OF l] by blast
    obtain l1 where "heap x1 p = Some (Leader l1)" using sent_leader [OF x1(2) l] by blast
    from tryToAdvance_returns [OF this] show ?thesis using x1(1) by auto
  qed
  have upd: "as_leader p (upd_leader p g x) \<and> config (upd_leader p g x) = config x"
    if x: "as_leader p x" "tracks g" for g and x :: "('a, 'b) raft"
  proof -
    obtain l where "role x = Some p" "heap x p = Some (Leader l)" "l_pending l = []" "\<not> l_applierStopped l"
      using x(1) unfolding as_leader_def by blast
    then show ?thesis using x(2) unfolding as_leader_def tracks_def by (simp add: upd_leader_def)
  qed
  have wal: "as_leader p (x\<lparr>wal := w\<rparr>) = as_leader p x" "as_leader p (upd_store f x) = as_leader p x"
    "config (upd_store f x) = config x" for w f and x :: "('a, 'b) raft"
    by (simp_all add: as_leader_def upd_store_def)
  let ?r2 = "upd_leader p (init_progress (nid r) (nodes r) (fst (gl_GetLastIndex E (wal r)))) (upd_store (SetLeaderId (nid r)) r)"
  have r2: "as_leader p (?r2\<lparr>wal := w\<rparr>)" "config ?r2 = config r" for w
    using upd [OF _ tracks_updates(5), of "upd_store (SetLeaderId (nid r)) r"] assms(1) by (simp_all add: wal)
  have r4: "as_leader p (upd_leader p (own_progress a b) (?r2\<lparr>wal := w\<rparr>))" for a b w
    using upd [OF r2(1) tracks_updates(6)] by simp
  have st: "nid (upd_store f r) = nid r" "nodes (upd_store f r) = nodes r" "wal (upd_store f r) = wal r" for f
    by (simp_all add: upd_store_def)
  show ?thesis
    unfolding Leader_OnEnter_def Let_def st
    using down [OF assms(1)] down [OF r2(1)] r2(2) send [OF r4]
    by (auto split: prod.splits option.splits)
qed

lemma exit_role_returns: "can_exit r \<Longrightarrow> \<exists>r'. exit_role r = Ret r' () \<and> retired r r'"
  by (erule exit_role_spec) (intro exI conjI)

lemma becomeLeader_returns:
  assumes "can_exit r" and "Validate (config r) = None"
  shows "\<exists>r' q. becomeLeader E t r = Ret r' q"
proof -
  obtain r1 where r1: "exit_role r = Ret r1 ()" "retired r r1" using exit_role_returns [OF assms(1)] by blast
  let ?r = "r1\<lparr>roleEpoch := roleEpoch r1 + 1, heap := (heap r1)(nextPtr r1 \<mapsto> Leader (NewLeaderRole (config r1))),
     nextPtr := Suc (nextPtr r1), role := Some (nextPtr r1)\<rparr>"
  have "\<exists>r'. Leader_OnEnter E (nextPtr r1) t ?r = Ret r' ()"
    by (rule Leader_OnEnter_returns) (use assms(2) retired_fields(1) [OF r1(2)] in \<open>simp_all add: as_leader_def NewLeaderRole_def\<close>)
  then show ?thesis using r1(1) by (auto simp: becomeLeader_def alloc_def)
qed

lemma markUnhealthy_returns: "can_exit r \<Longrightarrow> \<exists>r'. markUnhealthy r = Ret r' ()"
  unfolding markUnhealthy_def
  by (rule exit_role_spec [of "r\<lparr>healthy := False, enabled := False\<rparr>"]) (auto simp: can_exit_def waiters_open_def)

lemma candidate_updates:
  "as_candidate p r \<Longrightarrow> as_candidate p (upd_candidate p g r)" "config (upd_candidate p g r) = config r"
  by (auto simp: upd_candidate_def split: option.splits role_obj.splits)

lemma startElection_returns:
  assumes "as_candidate p r" and "Validate (config r) = None"
  shows "\<exists>r'. startElection E p r = Ret r' ()"
proof -
  have st: "as_candidate p x'" "config x' = config x" if "on_store g x = (e, x')" "as_candidate p x"
    for g and e :: 'e and x x' :: "('a, 'b) raft"
    using that by (auto simp: on_store_def split: prod.splits)
  have lead: "\<exists>r'. bindO (becomeLeader E t x) (\<lambda>r q. Ret r ()) = Ret r' ()" if "as_candidate p x" "config x = config r"
    for t and x :: "('a, 'b) raft"
    using becomeLeader_returns [OF as_candidate_exit [OF that(1)], of E t] that(2) assms(2) by auto
  obtain ct e1 r1 where s1: "on_store IncrementCurrentTerm r = ((ct, e1), r1)" by (metis prod.exhaust)
  obtain e2 r2 where s2: "on_store (SetVotedFor (nid r1)) r1 = (e2, r2)" by (metis prod.exhaust)
  note r1 = st [OF s1 assms(1)]
  note r2 = st [OF s2 r1(1)]
  obtain c where c: "heap r2 p = Some (Candidate c)" using r2(1) by blast
  let ?r3 = "upd_candidate p (\<lambda>c. c\<lparr>c_votes := c_votes c + 1\<rparr>) r2"
  have r3: "as_candidate p ?r3" "config ?r3 = config r" using candidate_updates(1) [OF r2(1)] r2(2) r1(2) by (simp_all add: candidate_updates(2))
  show ?thesis
    unfolding startElection_def
    using markUnhealthy_returns [OF as_candidate_exit [OF r1(1)]] markUnhealthy_returns [OF as_candidate_exit [OF r2(1)]]
      lead [OF r3] r3(1) s1 s2
    by (auto simp: with_candidate_def split: option.splits prod.splits)
qed

lemma Candidate_OnEnter_returns:
  assumes "as_candidate p r" and "Validate (config r) = None"
  shows "\<exists>r'. Candidate_OnEnter E p r = Ret r' ()"
proof -
  let ?r1 = "upd_candidate p (\<lambda>c. c\<lparr>c_preVotes := c_preVotes c + 1\<rparr>) r"
  have r1: "as_candidate p ?r1" "config ?r1 = config r" using candidate_updates assms(1) by blast+
  have "as_candidate p (upd_candidate p g ?r1)" "config (upd_candidate p g ?r1) = config r" for g
    using candidate_updates(1) [OF r1(1)] r1(2) by (simp_all add: candidate_updates(2))
  then have "\<exists>r'. startElection E p (upd_candidate p g ?r1) = Ret r' ()" for g
    using startElection_returns assms(2) by metis
  then have "\<exists>r'. startPreElection E p r = Ret r' ()"
    using r1(1) by (auto simp: startPreElection_def with_candidate_def Let_def split: prod.splits)
  then show ?thesis using assms startElection_returns [OF assms, of E] by (auto simp: Candidate_OnEnter_def with_candidate_def)
qed

lemma becomeCandidate_returns:
  assumes "can_exit r" and "Validate (config r) = None"
  shows "\<exists>r' q. becomeCandidate E r = Ret r' q"
proof -
  obtain r1 where r1: "exit_role r = Ret r1 ()" "retired r r1" using exit_role_returns [OF assms(1)] by blast
  note f1 = retired_fields [OF r1(2)]
  obtain k g where k: "electionDeadline_of (config r) (rgen r) = Some (k, g)"
    by (rule deadline_drawn [OF assms(2)])
  have "\<exists>r'. Candidate_OnEnter E p x = Ret r' ()" if "as_candidate p x" "config x = config r" for p and x :: "('a, 'b) raft"
    using Candidate_OnEnter_returns [OF that(1)] that(2) assms(2) by simp
  then show ?thesis
    using r1(1) k by (simp add: becomeCandidate_def NewCandidateRole_def f1 alloc_def)
qed

section \<open>Ticks\<close>

lemma Leader_Tick_returns:
  assumes "role r = Some p" "heap r p = Some (Leader l)" and "can_exit r" and "Validate (config r) = None"
  shows "\<exists>r'. Leader_Tick E p r = Ret r' ()"
proof -
  define l1 where "l1 = l\<lparr>l_heartbeatTicks := l_heartbeatTicks l + 1, l_leaderTicks := l_leaderTicks l + 1\<rparr>"
  define r1 where "r1 = upd_leader p (\<lambda>l. l\<lparr>l_heartbeatTicks := l_heartbeatTicks l + 1,
                                   l_leaderTicks := l_leaderTicks l + 1\<rparr>) r"
  have r1: "heap r1 p = Some (Leader l1)" "role r1 = Some p" "config r1 = config r" "chans r1 = chans r"
    using assms(1,2) by (simp_all add: r1_def upd_leader_def l1_def)
  obtain r2 where r2: "(if l_heartbeatTicks l1 \<ge> l_heartbeatDeadline l1
                      then sendAppendEntriesToAllNodes E p r1 else Ret r1 ()) = Ret r2 ()" and s: "sent p r1 r2"
    using send_all_spec [OF r1(1), of E] sent_refl by (cases "l_heartbeatTicks l1 \<ge> l_heartbeatDeadline l1") auto
  note f2 = sent_fields [OF s]
  obtain l' where l2: "heap r2 p = Some (Leader l')" and same: "same_lease l1 l'"
    using sent_leader [OF s r1(1)] by blast
  have "waiters_open r l" "\<not> l_applierStopped l" using assms(1-3) by (auto simp: can_exit_def)
  then have "can_exit r2"
    using l2 same by (simp add: can_exit_def f2 r1 waiters_open_def l1_def same_lease_def)
  then obtain r3 q where "becomeFollower (currentTerm (store r2)) r2 = Ret r3 q"
    using becomeFollower_returns assms(4) f2(1) r1(3) by metis
  then show ?thesis using r2 l2 by (simp add: Leader_Tick_def r1_def [symmetric] Let_def with_leader_def r1(1))
qed

lemma Tick_returns:
  assumes "role r = Some p" and "can_exit r" and "Validate (config r) = None"
  shows "\<exists>r'. Tick E r = Ret r' ()"
proof -
  obtain ob where ob: "heap r p = Some ob" using assms(1,2) by (auto simp: can_exit_def)
  have cand: "\<exists>r'. bindO (becomeCandidate E x) (\<lambda>r q. Ret r ()) = Ret r' ()" if "can_exit x" "config x = config r" for x
    using becomeCandidate_returns [OF that(1), of E] that(2) assms(3) by auto
  show ?thesis
  proof (cases ob)
    case (Follower f)
    have "can_exit (upd_follower p g r)" "config (upd_follower p g r) = config r" for g
      using ob Follower assms(1) by (simp_all add: upd_follower_def can_exit_def)
    from cand [OF this] show ?thesis
      using ob Follower assms(1) by (auto simp: Tick_def on_role_def Follower_Tick_def with_follower_def upd_follower_def)
  next
    case (Candidate c)
    have "can_exit (upd_candidate p g r)" "config (upd_candidate p g r) = config r" for g
      using ob Candidate assms(1) by (simp_all add: upd_candidate_def can_exit_def)
    from cand [OF this] show ?thesis
      using ob Candidate assms(1) by (auto simp: Tick_def on_role_def Candidate_Tick_def with_candidate_def upd_candidate_def)
  next
    case (Leader l)
    then show ?thesis using Leader_Tick_returns [OF assms(1) _ assms(2,3)] ob assms(1) by (simp add: Tick_def on_role_def)
  qed
qed

section \<open>The applier\<close>

text \<open>
  A step of an applier does not panic: its role object is there, the channels it holds are open, and
  the one it sends on is empty.
\<close>

lemma applier_micro_returns:
  assumes "returns E ok f" and "ok (fsm r)" and "holds (set (held pc)) A r" and "p \<in> A"
  shows "\<exists>r' pc'. applier_micro E p stops pc r = Ret r' pc'"
proof -
  obtain l where l: "heap r p = Some (Leader l)" using assms(3,4) by (auto simp: holds_def)
  have machine: "\<exists>r' a. run_machine E bs r = Ret r' a" for bs
    using assms(1,2) by (simp add: run_machine_def returns_def)
  have sends: "\<exists>r'. send_chan c v r = Ret r' ()" if "(c, True) \<in> set (held pc)" for c v
    using assms(3) that by (fastforce simp: holds_def send_chan_def)
  have closes: "\<exists>r'. close_chan c r = Ret r' ()" if "(c, b) \<in> set (held pc)" for c b
    using assms(3) that by (fastforce simp: holds_def close_chan_def)
  show ?thesis
    using machine sends closes [of _ False] l
    by (cases "(E, p, stops, pc, r)" rule: applier_micro.cases)
      (auto simp: Let_def with_leader_def split: option.splits sum.splits prod.splits bool.splits)
qed

text \<open>What an applier holds after a step: \<open>H\<close> is what the others hold.\<close>

lemma pending_taken:
  assumes wf: "node_wf r" and p: "heap r p = Some (Leader l)" and c: "c \<in> set (pending_at l i)"
  shows "\<not> pending_on (upd_leader p (del_pending i) r) c"
proof
  assume "pending_on (upd_leader p (del_pending i) r) c"
  then obtain q m where q: "heap (upd_leader p (del_pending i) r) q = Some (Leader m)" "c \<in> chans_of m"
    unfolding pending_on_chans by blast
  note w = wf [folded mem_wf_none]
  show False
  proof (cases "q = p")
    case True
    then have "m = del_pending i l" using p q(1) by (simp add: upd_leader_def)
    then obtain j ws where j: "(j, ws) \<in> set (l_pending l)" "j \<noteq> i" "c \<in> set ws"
      using q(2) by (auto simp: chans_of_def del_pending_def)
    then show False
      using distinct_concat_pairs [of "l_pending l" j ws i "pending_at l i" c] pending_at_in [OF c] node_wfD(4) [OF w p] c
      by (auto simp: waiters_open_def)
  next
    case False
    then have "heap r q = Some (Leader m)" using p q(1) by (simp add: upd_leader_def)
    then show False using node_wfD(5) [OF w p _ False [symmetric]] q(2) c pending_chans by blast
  qed
qed

definition apart :: "(nat \<times> bool) list \<Rightarrow> (nat \<times> bool) set \<Rightarrow> bool" where
  "apart hs H \<longleftrightarrow> distinct (map fst hs) \<and> fst ` set hs \<inter> fst ` H = {}"

lemma held_taking:
  assumes wf: "node_wf r" and H: "holds H A r" and m: "applier_micro E p stops (Taking ci idx e result) r = Ret r' pc'"
  shows "holds (set (held pc')) {} r' \<and> apart (held pc') H"
proof -
  obtain l where l: "heap r p = Some (Leader l)"
    using m by (auto simp: with_leader_def split: option.splits role_obj.splits)
  let ?ws = "pending_at l idx"
  have r': "r' = (if ?ws \<noteq> [] then upd_leader p (del_pending idx) r else r)" "held pc' = map (\<lambda>c. (c, True)) ?ws"
    using m l by (auto simp: with_leader_def Let_def)
  note w = waiters_open_at [OF node_wfD(4) [OF wf [folded mem_wf_none] l], where i = idx]
  have on: "pending_on r c" if "c \<in> set ?ws" for c
    using that l pending_chans [of l idx] by (auto simp: pending_on_chans)
  have "\<not> pending_on r' c" if "c \<in> set ?ws" for c
    using pending_taken [OF wf l that] that by (auto simp: r'(1))
  moreover have "chans r' = chans r" by (simp add: r'(1) upd_leader_def l)
  ultimately have "holds (set (held pc')) {} r'" using w(2) by (auto simp: holds_def r'(2))
  moreover have "apart (held pc') H"
    using w(1) on H unfolding apart_def r'(2) holds_def by (force simp: comp_def)
  ultimately show ?thesis by simp
qed

text \<open>One channel \<open>c\<close> that an applier holds changes; it goes on holding \<open>hs\<close>.\<close>

lemma held_chan:
  assumes K: "holds K {} r" and hs: "\<And>d b. (d, b) \<in> set hs \<Longrightarrow> d \<noteq> c \<Longrightarrow> (d, b) \<in> K"
    and c: "\<And>b. (c, b) \<in> set hs \<Longrightarrow> \<not> ch_closed ch \<and> \<not> b \<and> \<not> pending_on r c"
  shows "holds (set hs) {} (r\<lparr>chans := (chans r)(c \<mapsto> ch)\<rparr>)"
proof -
  have pend: "pending_on (r\<lparr>chans := (chans r)(c \<mapsto> ch)\<rparr>) d = pending_on r d" for d by (simp add: pending_on_def)
  show ?thesis
    unfolding holds_def pend
  proof (intro conjI allI impI)
    fix d b
    assume d: "(d, b) \<in> set hs"
    show "\<exists>x. chans (r\<lparr>chans := (chans r)(c \<mapsto> ch)\<rparr>) d = Some x \<and> \<not> ch_closed x \<and> (b \<longrightarrow> ch_buf x = [])"
      using d c hs [OF d] K by (cases "d = c") (auto simp: holds_def)
    show "\<not> pending_on r d" using d c hs [OF d] K by (cases "d = c") (auto simp: holds_def)
  qed simp
qed

lemma held_answering:
  assumes K: "holds (set (held (Answering ci idx a ws))) {} r" and ap: "apart (held (Answering ci idx a ws)) H"
    and m: "applier_micro E p stops (Answering ci idx a ws) r = Ret r' pc'"
  shows "holds (set (held pc')) {} r' \<and> apart (held pc') H"
proof (cases ws)
  case Nil
  then show ?thesis using m by (auto simp: apart_def)
next
  case (Cons c cs)
  then have r': "send_chan c a r = Ret r' ()" "pc' = Closing ci idx a c cs" using m by auto
  obtain ch where ch: "\<not> ch_closed ch" "r' = r\<lparr>chans := (chans r)(c \<mapsto> ch\<lparr>ch_buf := [a]\<rparr>)\<rparr>"
    using r'(1) by (auto simp: send_chan_def split: option.splits if_splits)
  have "c \<notin> set cs" "\<not> pending_on r c" using ap K Cons by (auto simp: apart_def holds_def comp_def)
  then have "holds (set (held pc')) {} r'"
    unfolding ch(2) r'(2) by (intro held_chan [OF K]) (use ch(1) Cons in auto)
  moreover have "apart (held pc') H" using ap Cons r'(2) by (simp add: apart_def comp_def)
  ultimately show ?thesis by simp
qed

lemma held_closing:
  assumes K: "holds (set (held (Closing ci idx a c ws))) {} r" and ap: "apart (held (Closing ci idx a c ws)) H"
    and m: "applier_micro E p stops (Closing ci idx a c ws) r = Ret r' pc'"
  shows "holds (set (held pc')) {} r' \<and> apart (held pc') H"
proof -
  have r': "close_chan c r = Ret r' ()" "pc' = Answering ci idx a ws" using m by auto
  obtain ch where ch: "r' = r\<lparr>chans := (chans r)(c \<mapsto> ch)\<rparr>"
    using r'(1) by (auto simp: close_chan_def split: option.splits if_splits)
  have "c \<notin> set ws" using ap by (auto simp: apart_def comp_def)
  then have "holds (set (held pc')) {} r'"
    unfolding ch r'(2) by (intro held_chan [OF K]) auto
  moreover have "apart (held pc') H" using ap r'(2) by (simp add: apart_def comp_def)
  ultimately show ?thesis by simp
qed

lemma applier_step_holds:
  assumes ok: "mem_ok (set (held pc) \<union> H) A r" and ap: "apart (held pc) H"
    and step: "applier_step E p stops pc r = Ret r' pc'"
  shows "mem_ok (set (held pc') \<union> H) A r' \<and> apart (held pc') H"
proof -
  have hs: "holds (set (held pc)) {} r" "holds H A r" "node_ok r" using ok by (auto simp: mem_ok_def holds_Un) (simp add: holds_def)
  have "(c, b') \<notin> H" if "(c, b) \<in> set (held pc)" for c b b'
    using ap that unfolding apart_def by (metis disjoint_iff fst_conv image_eqI)
  moreover have "\<not> pending_on r c" if "(c, b) \<in> set (held pc)" for c b
    using hs(1) that by (auto simp: holds_def)
  ultimately have "on_states (intact H A r) (applier_step E p stops pc r)"
    by (rule intact_applier_step [rotated])
  then have ok': "mem_ok H A r'" using hs step by (simp add: intact_def mem_ok_def)
  have "holds (set (held pc')) {} r' \<and> apart (held pc') H"
  proof (cases "applier_micro E p stops pc r")
    case (Panic r1)
    then have "pc' = Stopped" using step by (auto simp: applier_step_def)
    then show ?thesis by (simp add: apart_def)
  next
    case NoReturn
    then show ?thesis using step by (simp add: applier_step_def)
  next
    case (Ret r1 pc1)
    then have m: "applier_micro E p stops pc r = Ret r' pc'" using step by (simp add: applier_step_def)
    have none: ?thesis if "held pc' = []" using that by (simp add: apart_def)
    have wf: "node_wf r" using hs(3) by (simp add: node_ok_def)
    show ?thesis
    proof (cases pc)
      case (Taking ci idx e result)
      show ?thesis by (rule held_taking [OF wf hs(2) m [unfolded Taking]])
    next
      case (Answering ci idx a ws)
      show ?thesis by (rule held_answering [OF hs(1) [unfolded Answering] ap [unfolded Answering] m [unfolded Answering]])
    next
      case (Closing ci idx a c ws)
      show ?thesis by (rule held_closing [OF hs(1) [unfolded Closing] ap [unfolded Closing] m [unfolded Closing]])
    qed (use m none in \<open>auto simp: with_leader_def run_machine_def Let_def split: if_splits option.splits role_obj.splits
      sum.splits prod.splits bool.splits outcome.splits\<close>)
  qed
  then show ?thesis using ok' unfolding mem_ok_def holds_Un by (auto simp: holds_def)
qed

section \<open>Goroutines that recover\<close>

text \<open>What runs under \<^verbatim>\<open>recover\<close> returns if it comes to an end.\<close>

fun halts :: "('r, 'a) outcome \<Rightarrow> bool" where
  "halts NoReturn = False"
| "halts _ = True"

lemma halts_if [simp]: "halts (if b then m else m') = (if b then halts m else halts m')"
  by simp

lemma bindO_halts: "halts m \<Longrightarrow> (\<And>r a. halts (f r a)) \<Longrightarrow> halts (bindO m f)"
  by (cases m) auto

lemma with_halts: "(\<And>l. halts (g l r)) \<Longrightarrow> halts (with_leader p g r)" "(\<And>c. halts (h c r)) \<Longrightarrow> halts (with_candidate p h r)"
  by (auto simp: with_leader_def with_candidate_def split: option.splits role_obj.splits)

lemma drain_halts: "halts (drain_pending p ps r)"
proof (induction ps arbitrary: r)
  case (Cons iw ps)
  have "halts (close_chans ws r)" for ws and r :: "('a, 'b) raft"
    by (induction ws arbitrary: r) (auto simp: close_chan_def intro!: bindO_halts split: option.splits)
  then show ?case using Cons.IH by (auto intro!: bindO_halts)
qed simp

lemma exit_halts: "halts (exit_role r)"
  by (auto simp: exit_role_def OnExit_def stopApplier_def intro!: bindO_halts drain_halts split: option.splits role_obj.splits)

lemma markUnhealthy_halts: "halts (markUnhealthy r)"
  by (simp add: markUnhealthy_def exit_halts)

lemma becomeFollower_halts: "halts (becomeFollower t r)"
  unfolding becomeFollower_def
  by (intro bindO_halts exit_halts)
    (auto simp: NewFollowerRole_def Follower_OnEnter_def markUnhealthy_halts split: option.splits prod.splits)

lemma step_down_halts: "halts (bindO (becomeFollower t r) (\<lambda>r q. Ret r ()))"
  by (rule bindO_halts [OF becomeFollower_halts]) simp

lemma send_halts: "halts (sendAppendEntriesToAllNodes E p r)"
proof -
  have "halts (send_to_each E p ct i ns r)" for ct i ns r
    by (induction ns arbitrary: r) (auto simp: send_to_def Let_def intro!: bindO_halts with_halts)
  then show ?thesis by (simp add: sendAppendEntriesToAllNodes_def Let_def)
qed

lemma advance_halts: "halts (tryToAdvanceCommitIndex E p r)" "halts (retrySendAppendEntriesToNode E p node t r)"
  by (auto simp: tryToAdvanceCommitIndex_def retrySendAppendEntriesToNode_def Let_def intro!: with_halts
      split: option.splits sum.splits)

lemma becomeLeader_halts: "halts (becomeLeader E t r)"
proof -
  have "halts (Leader_OnEnter E p t r)" for p r
    unfolding Leader_OnEnter_def Let_def
    by (auto intro!: step_down_halts bindO_halts send_halts advance_halts split: option.splits prod.splits)
  then show ?thesis unfolding becomeLeader_def by (auto simp: alloc_def intro!: bindO_halts exit_halts)
qed

lemma startElection_halts: "halts (startElection E p r)"
  unfolding startElection_def
  by (auto intro!: with_halts bindO_halts becomeLeader_halts markUnhealthy_halts split: option.splits prod.splits)

lemma recover_vote_returns: "halts m \<Longrightarrow> \<exists>r'. recover_vote m = Ret r' ()"
  by (cases m) (auto simp: recover_vote_def)

lemma recover_send_returns: "halts m \<Longrightarrow> \<exists>r'. recover_send p node m = Ret r' ()"
  by (cases m) (auto simp: recover_send_def)

lemma replies_return:
  "\<exists>r'. PreVote_reply E p t (t', granted) r = Ret r' ()" "\<exists>r'. RequestVote_reply E p t (t', granted) r = Ret r' ()"
  "\<exists>r'. AppendEntries_reply E p n t pi es (t', ok, ci, ct) r = Ret r' ()"
  "\<exists>r'. InstallSnapshot_reply E p n snap t r = Ret r' ()"
  unfolding PreVote_reply_def RequestVote_reply_def AppendEntries_reply_def InstallSnapshot_reply_def prod.case Let_def
  by ((rule recover_vote_returns recover_send_returns,
      auto intro!: step_down_halts startElection_halts with_halts bindO_halts becomeLeader_halts advance_halts)+)

section \<open>Shutting down\<close>

lemma Shutdown_spec:
  assumes "node_ok r"
  obtains r' where "Shutdown r = Ret r' ()" "\<not> enabled r'"
    and "\<And>p l i c. enabled r \<Longrightarrow> role r = Some p \<Longrightarrow> heap r p = Some (Leader l) \<Longrightarrow> c \<in> set (pending_at l i)
           \<Longrightarrow> chans r' c = Some closed_chan"
proof (cases "enabled r")
  case True
  let ?r = "r\<lparr>shutdownClosed := True, enabled := False\<rparr>"
  have "can_exit ?r" using node_ok_can_exit [OF assms True] by (simp add: can_exit_def waiters_open_def)
  then obtain r1 where r1: "exit_role ?r = Ret r1 ()" "retired ?r r1"
    "\<And>p l i c. role ?r = Some p \<Longrightarrow> heap ?r p = Some (Leader l) \<Longrightarrow> c \<in> set (pending_at l i) \<Longrightarrow> chans r1 c = Some closed_chan"
    using exit_role_spec [of ?r] by blast
  have "Shutdown r = Ret (upd_store (SetLeaderId []) r1) ()" using True r1(1) by (simp add: Shutdown_def Let_def)
  then show ?thesis
    by (rule that) (use r1(3) retired_fields(9) [OF r1(2)] in \<open>simp_all add: upd_store_def\<close>)
next
  case False
  then show ?thesis using that [of "r\<lparr>shutdownClosed := True\<rparr>"] by (simp add: Shutdown_def Let_def)
qed

end
