(* ===== verification/Process.thy ===== *)
theory Process
  imports Recovery Progress
begin

text \<open>
  The process of \<^verbatim>\<open>main.go\<close> around a node: the routes of the HTTP server, the two tickers, the
  goroutines of the node, the signal that ends the process, and the shutdown. A panic in a request
  is recovered; a panic anywhere else, or a call that exhausts the stack, ends the process.
\<close>

section \<open>Routes\<close>

datatype route =
    RpcAppendEntries "AppendEntriesRequest option" | RpcPreVote "PreVoteRequest option"
  | RpcRequestVote "RequestVoteRequest option" | RpcPropose "bytes option"
  | RpcInstallSnapshot "InstallSnapshotRequest option" | GetPing | GetDisable | GetEnable
  | PostPropose bytes | PostSnapshot

datatype reply =
    AppendReply "AppendEntriesResponse response" | PreVoteReply "PreVoteResponse response"
  | VoteReply "RequestVoteResponse response" | ProposeReply propose_answer
  | InstallReply "InstallSnapshotResponse response" | MessageReply "unit response"

definition get_ping :: "('l, 's, unit response) step" where
  "get_ping r = Ret r (StatusOK ())"

fun handle :: "('l, 's) env \<Rightarrow> route \<Rightarrow> ('l, 's, reply) step" where
  "handle E (RpcAppendEntries q) r = bindO (post_append_entries E q r) (\<lambda>r a. Ret r (AppendReply a))"
| "handle E (RpcPreVote q) r = bindO (post_pre_vote E q r) (\<lambda>r a. Ret r (PreVoteReply a))"
| "handle E (RpcRequestVote q) r = bindO (post_request_vote E q r) (\<lambda>r a. Ret r (VoteReply a))"
| "handle E (RpcPropose body) r = bindO (post_propose E body r) (\<lambda>r a. Ret r (ProposeReply a))"
| "handle E (RpcInstallSnapshot q) r = bindO (post_install_snapshot E q r) (\<lambda>r a. Ret r (InstallReply a))"
| "handle E GetPing r = bindO (get_ping r) (\<lambda>r a. Ret r (MessageReply a))"
| "handle E GetDisable r = bindO (get_disable r) (\<lambda>r a. Ret r (MessageReply a))"
| "handle E GetEnable r = bindO (get_enable r) (\<lambda>r a. Ret r (MessageReply a))"
| "handle E (PostPropose uuid) r = bindO (post_propose_new E uuid r) (\<lambda>r a. Ret r (ProposeReply a))"
| "handle E PostSnapshot r = bindO (post_snapshot E r) (\<lambda>r a. Ret r (MessageReply a))"

section \<open>The process\<close>

text \<open>
  \<open>Serving\<close>: \<^verbatim>\<open>main\<close> waits for the signal; \<open>Draining\<close>: the node is shut down and the HTTP server
  finishes the requests it has; \<open>Exited\<close>: \<^verbatim>\<open>main\<close> has returned; \<open>Crashed\<close>: the process died.
\<close>

datatype stage = Serving | Draining | Exited | Crashed

text \<open>
  Goroutines that stand between two of their steps: \<open>appliers\<close> are those of the leader objects, at
  their program points; \<open>proposing\<close> are proposals whose first locked section has run, with the role
  and the epoch it found; \<open>saving\<close> and \<open>saved\<close> are snapshots that have been captured, and that have
  been written to the disk. Writing one is a single step here; the store is in another file, so only
  two snapshots that write at once could meet in it.
\<close>

record ('l, 's) process =
  pnode :: "('l, 's) raft"
  ctxDone :: bool
  ticking :: bool
  snapshotting :: bool
  pstage :: stage
  appliers :: "nat \<Rightarrow> applier_pc option"
  proposing :: "(nat \<times> u64 \<times> bytes) list"
  saving :: "Snapshot list"
  saved :: "Snapshot list"

definition started_process :: "('l, 's) raft \<Rightarrow> ('l, 's) process" where
  "started_process r = \<lparr>pnode = r, ctxDone = False, ticking = True, snapshotting = True, pstage = Serving,
     appliers = (\<lambda>_. None), proposing = [], saving = [], saved = []\<rparr>"

definition alive :: "('l, 's) process \<Rightarrow> bool" where
  "alive s \<longleftrightarrow> pstage s = Serving \<or> pstage s = Draining"

fun after :: "('l, 's) process \<Rightarrow> (('l, 's) raft, 'a) outcome \<Rightarrow> ('l, 's) process" where
  "after s (Ret r a) = s\<lparr>pnode := r\<rparr>"
| "after s (Panic r) = s\<lparr>pnode := r, pstage := Crashed\<rparr>"
| "after s NoReturn = s\<lparr>pstage := Crashed\<rparr>"

fun after_applier :: "('l, 's) process \<Rightarrow> nat \<Rightarrow> (('l, 's) raft, applier_pc) outcome \<Rightarrow> ('l, 's) process" where
  "after_applier s p (Ret r pc) = s\<lparr>pnode := r, appliers := (appliers s)(p \<mapsto> pc)\<rparr>"
| "after_applier s p m = after s m"

text \<open>What the goroutines that a node has started, and the calls that wait, do to it.\<close>

inductive goroutine_step :: "('l, 's) env \<Rightarrow> ('l, 's) process \<Rightarrow> ('l, 's) process \<Rightarrow> bool" for E where
  applier_starts: "RunApplier p \<in> set (spawned (pnode s)) \<Longrightarrow> heap (pnode s) p = Some (Leader l) \<Longrightarrow>
     appliers s p = None \<Longrightarrow> goroutine_step E s (s\<lparr>appliers := (appliers s)(p \<mapsto> Selecting)\<rparr>)"
| applier: "appliers s p = Some pc \<Longrightarrow>
     goroutine_step E s (after_applier s p (applier_step E p stops pc (pnode s)))"
| pre_vote: "goroutine_step E s (after s (PreVote_reply E p t reply (pnode s)))"
| request_vote: "goroutine_step E s (after s (RequestVote_reply E p t reply (pnode s)))"
| append: "goroutine_step E s (after s (AppendEntries_reply E p n t pi es areply (pnode s)))"
| load_snapshot: "goroutine_step E s (s\<lparr>pnode := snd (sendInstallSnapshot_load p n (pnode s))\<rparr>)"
| install_snapshot: "goroutine_step E s (after s (InstallSnapshot_reply E p n snap t (pnode s)))"
| receive: "HandlePropose_receive ch (pnode s) = Some (x, r') \<Longrightarrow> goroutine_step E s (s\<lparr>pnode := r'\<rparr>)"
| cancel: "heap (pnode s) p = Some (Leader l) \<Longrightarrow> goroutine_step E s (after s (HandlePropose_cancel p i ch (pnode s)))"
| propose_runs: "(p, epoch, bs) \<in> set (proposing s) \<Longrightarrow>
     goroutine_step E s (after (s\<lparr>proposing := remove1 (p, epoch, bs) (proposing s)\<rparr>)
       (post_propose_run E p epoch bs (pnode s)))"
| snapshot_saved: "snap \<in> set (saving s) \<Longrightarrow> SaveSnapshot (snapshotPath (pnode s)) snap (fdisk (pnode s)) = (e, d) \<Longrightarrow>
     goroutine_step E s (s\<lparr>pnode := (pnode s)\<lparr>fdisk := d\<rparr>, saving := remove1 snap (saving s),
       saved := (if e = None then snap # saved s else saved s)\<rparr>)"
| snapshot_finished: "snap \<in> set (saved s) \<Longrightarrow>
     goroutine_step E s (s\<lparr>pnode := TakeSnapshot_finish E snap (pnode s), saved := remove1 snap (saved s)\<rparr>)"

text \<open>
  A request runs through \<open>handle\<close>; one that proposes or takes a snapshot may also stop after its first
  locked section (\<open>propose\<close>, \<open>capture\<close>) and go on among the goroutines. \<open>capture\<close> is also what the
  second ticker starts, as long as it runs.
\<close>

inductive process_step :: "('l, 's) env \<Rightarrow> ('l, 's) process \<Rightarrow> ('l, 's) process \<Rightarrow> bool" for E where
  request: "alive s \<Longrightarrow> process_step E s (after s (handle E q (pnode s)))"
| propose: "alive s \<Longrightarrow> Propose_capture (pnode s) = Some (p, epoch) \<Longrightarrow>
     process_step E s (s\<lparr>proposing := (p, epoch, bs) # proposing s\<rparr>)"
| capture: "alive s \<Longrightarrow> TakeSnapshot_capture E (pnode s) = Inr (Some snap) \<Longrightarrow>
     process_step E s (s\<lparr>saving := snap # saving s\<rparr>)"
| goroutine: "alive s \<Longrightarrow> goroutine_step E s s' \<Longrightarrow> process_step E s s'"
| tick: "alive s \<Longrightarrow> ticking s \<Longrightarrow> process_step E s (after s (Tick E (pnode s)))"
| tick_ends: "alive s \<Longrightarrow> ticking s \<Longrightarrow> ctxDone s \<Longrightarrow> process_step E s (s\<lparr>ticking := False\<rparr>)"
| snapshot: "alive s \<Longrightarrow> snapshotting s \<Longrightarrow> process_step E s (s\<lparr>pnode := snd (TakeSnapshot E (pnode s))\<rparr>)"
| snapshot_ends: "alive s \<Longrightarrow> snapshotting s \<Longrightarrow> ctxDone s \<Longrightarrow> process_step E s (s\<lparr>snapshotting := False\<rparr>)"
| signal: "alive s \<Longrightarrow> process_step E s (s\<lparr>ctxDone := True\<rparr>)"
| shutdown: "pstage s = Serving \<Longrightarrow> ctxDone s \<Longrightarrow>
     process_step E s (after (s\<lparr>pstage := Draining\<rparr>) (Shutdown (pnode s)))"
| exit: "pstage s = Draining \<Longrightarrow> process_step E s (s\<lparr>pstage := Exited\<rparr>)"

text \<open>A run of the process that \<^verbatim>\<open>main\<close> starts, with the counter as its state machine.\<close>

inductive process_run :: "'l golog \<Rightarrow> gob \<Rightarrow> nat \<Rightarrow> ('l, CounterFSM) process \<Rightarrow> bool" for L G depth where
  started: "main_start L G depth w g d log dir host adv port nodesFlag = Inr (Ret r p) \<Longrightarrow>
     process_run L G depth (started_process r)"
| step: "process_run L G depth s \<Longrightarrow> process_step (counter_env L G depth) s s' \<Longrightarrow> process_run L G depth s'"

section \<open>The node of a process\<close>

lemma states_serve: "on_states P (serve m) \<longleftrightarrow> on_states P m"
  by (cases m) (simp_all add: serve_def)

lemma states_ret: "on_states P (bindO m (\<lambda>r a. Ret r (g a))) \<longleftrightarrow> on_states P m"
  by (cases m) simp_all

lemma intact_propose: "on_states (intact H A r) (post_propose E body r)"
proof -
  have "on_states (intact H A r) (Propose E bs r)" for bs
    by (auto simp: Propose_def ProposeWithSession_def intact.R_refl intro: intact_HandlePropose split: option.splits)
  note dest = on_states_dest [OF this]
  show ?thesis
    by (auto simp: post_propose_def intact.R_refl intro: dest split: option.splits outcome.splits)
qed

lemma intact_endpoints:
  "on_states (intact H A r) (post_append_entries E a r)" "on_states (intact H A r) (post_pre_vote E b r)"
  "on_states (intact H A r) (post_request_vote E c r)" "on_states (intact H A r) (post_install_snapshot E d r)"
  "on_states (intact H A r) (get_disable r)" "on_states (intact H A r) (get_enable r)" "on_states (intact H A r) (post_snapshot E r)"
  unfolding post_append_entries_def post_pre_vote_def post_request_vote_def post_install_snapshot_def get_disable_def
    get_enable_def case_prod_beta'
  using inert_keeps [OF inert_TakeSnapshot, of _ _ r E]
  by (auto simp: states_serve states_ret intact.R_refl intact_HandleAppendEntries intact_HandlePreVote
      intact_HandleRequestVote intact_HandleInstallSnapshot intact_Disable intact_Enable post_snapshot_def
      split: option.splits prod.splits)

lemma intact_handle: "on_states (intact H A r) (handle E q r)"
  by (cases q) (simp_all add: states_ret intact_endpoints intact_propose post_propose_new_def get_ping_def intact.R_refl)

lemma intact_propose_run: "on_states (intact H A r) (post_propose_run E p epoch bs r)"
  using on_states_dest [OF intact_HandlePropose [of H A r E p bs "[]" 0 epoch]]
  by (auto simp: post_propose_run_def split: outcome.splits)

section \<open>What the goroutines hold\<close>

definition all_held :: "('l, 's) process \<Rightarrow> (nat \<times> bool) set" where
  "all_held s = {x. \<exists>q pc. appliers s q = Some pc \<and> x \<in> set (held pc)}"

definition others_held :: "('l, 's) process \<Rightarrow> nat \<Rightarrow> (nat \<times> bool) set" where
  "others_held s p = {x. \<exists>q pc. q \<noteq> p \<and> appliers s q = Some pc \<and> x \<in> set (held pc)}"

text \<open>
  The invariant of a process that has not crashed: the memory of its node is well formed, each
  applier has its leader object, and the channels that appliers have taken are open and belong to
  one of them only.
\<close>

definition settled :: "('l, 's) process \<Rightarrow> bool" where
  "settled s \<longleftrightarrow>
     mem_ok (all_held s) (dom (appliers s)) (pnode s)
     \<and> (\<forall>p pc. appliers s p = Some pc \<longrightarrow> apart (held pc) (others_held s p))"

lemma settled_node: "settled s \<Longrightarrow> node_ok (pnode s)"
  by (simp add: settled_def mem_ok_def)

lemma all_held_at: "appliers s p = Some pc \<Longrightarrow> all_held s = set (held pc) \<union> others_held s p"
proof -
  assume p: "appliers s p = Some pc"
  have "x \<in> others_held s p" if "appliers s q = Some qc" "x \<in> set (held qc)" "x \<notin> set (held pc)" for x q qc
    using that p by (cases "q = p") (auto simp: others_held_def)
  then show ?thesis using p by (auto simp: all_held_def others_held_def)
qed

lemma settled_same:
  assumes "settled s" and "appliers s' = appliers s" and "\<And>H A. intact H A (pnode s) (pnode s')"
  shows "settled s'"
  using assms by (simp add: settled_def all_held_def others_held_def intact_def)

lemma settled_after:
  assumes "settled s" and "appliers s' = appliers s" and "pnode s' = pnode s"
    and "\<And>H A. on_states (intact H A (pnode s)) m"
  shows "pstage (after s' m) \<noteq> Crashed \<longrightarrow> settled (after s' m)"
proof (cases m)
  case (Ret r a)
  then have "\<And>H A. intact H A (pnode s) r" using assms(4) by simp
  then show ?thesis using settled_same [OF assms(1), of "after s' m"] Ret assms(2) by simp
qed simp_all

lemma settled_applier:
  assumes s: "settled s" and p: "appliers s p = Some pc" and step: "applier_step E p stops pc (pnode s) = Ret r' pc'"
  shows "settled (s\<lparr>pnode := r', appliers := (appliers s)(p \<mapsto> pc')\<rparr>)" (is "settled ?s")
proof -
  have "mem_ok (set (held pc) \<union> others_held s p) (dom (appliers s)) (pnode s)" "apart (held pc) (others_held s p)"
    using s p by (auto simp: settled_def all_held_at [OF p])
  note ok = applier_step_holds [OF this step]
  have "others_held ?s p = others_held s p" by (auto simp: others_held_def)
  moreover have "apart (held qc) (others_held ?s q)" if q: "appliers s q = Some qc" "q \<noteq> p" for q qc
  proof -
    have "apart (held qc) (others_held s q)" using s q(1) by (simp add: settled_def)
    moreover have "set (held qc) \<subseteq> others_held s p" using q by (auto simp: others_held_def)
    then have "fst ` set (held qc) \<inter> fst ` set (held pc') = {}" using ok unfolding apart_def by blast
    moreover have "others_held ?s q \<subseteq> others_held s q \<union> set (held pc')" by (auto simp: others_held_def)
    ultimately show ?thesis unfolding apart_def by blast
  qed
  ultimately show ?thesis
    using ok p all_held_at [of ?s p pc'] by (auto simp: settled_def insert_absorb domI)
qed

lemma goroutine_settled: "goroutine_step E s s' \<Longrightarrow> settled s \<Longrightarrow> pstage s' \<noteq> Crashed \<longrightarrow> settled s'"
proof (induction rule: goroutine_step.induct)
  case (applier_starts p s l)
  let ?s = "s\<lparr>appliers := (appliers s)(p \<mapsto> Selecting)\<rparr>"
  have had: "appliers s q = Some pc \<Longrightarrow> appliers ?s q = Some pc" for q pc using applier_starts(3) by auto
  have new: "appliers ?s q = Some pc \<Longrightarrow> x \<in> set (held pc) \<Longrightarrow> appliers s q = Some pc" for q pc x
    by (auto split: if_splits)
  have "all_held ?s = all_held s" unfolding all_held_def using had new by blast
  moreover have "others_held ?s q = others_held s q" for q unfolding others_held_def using had new by blast
  ultimately have "settled ?s"
    using applier_starts by (auto simp: settled_def mem_ok_def holds_def apart_def)
  then show ?case by blast
next
  case (applier s p pc stops)
  then show ?case by (cases "applier_step E p stops pc (pnode s)") (use settled_applier in auto)
next
  case (load_snapshot s p n)
  have "settled (s\<lparr>pnode := snd (sendInstallSnapshot_load p n (pnode s))\<rparr>)"
    by (rule settled_same [OF load_snapshot]) (simp_all add: intact_snapshot_load)
  then show ?case by blast
next
  case (receive ch s x r')
  have "settled (s\<lparr>pnode := r'\<rparr>)"
    by (rule settled_same [OF receive(2)]) (simp_all add: intact_receive [OF receive(1)])
  then show ?case by blast
next
  case (propose_runs p epoch bs s)
  then show ?case by (intro settled_after [OF propose_runs(2)] intact_propose_run) simp_all
next
  case (snapshot_saved snap s e d)
  have "settled (s\<lparr>pnode := (pnode s)\<lparr>fdisk := d\<rparr>, saving := remove1 snap (saving s),
      saved := (if e = None then snap # saved s else saved s)\<rparr>)"
    by (rule settled_same [OF snapshot_saved(3)]) (simp_all add: inert_keeps)
  then show ?case by blast
next
  case (snapshot_finished snap s)
  have "settled (s\<lparr>pnode := TakeSnapshot_finish E snap (pnode s), saved := remove1 snap (saved s)\<rparr>)"
    by (rule settled_same [OF snapshot_finished(2)]) (simp_all add: inert_keeps inert_TakeSnapshot_finish)
  then show ?case by blast
qed (rule settled_after, assumption, rule refl, rule refl, rule intact_PreVote_reply intact_RequestVote_reply
    intact_AppendEntries_reply intact_InstallSnapshot_reply intact_cancel)+

lemma process_step_settled: "process_step E s s' \<Longrightarrow> settled s \<Longrightarrow> pstage s' \<noteq> Crashed \<longrightarrow> settled s'"
proof (induction rule: process_step.induct)
  case (goroutine s s')
  then show ?case using goroutine_settled by blast
next
  case (snapshot s)
  then have "settled (s\<lparr>pnode := snd (TakeSnapshot E (pnode s))\<rparr>)"
    by (intro settled_same [OF snapshot(3)]) (simp_all add: inert_keeps inert_TakeSnapshot)
  then show ?case by blast
next
  case (shutdown s)
  show ?case by (rule settled_after [OF shutdown(3)]) (simp_all add: intact_Shutdown)
next
  case (request s q)
  show ?case by (rule settled_after [OF request(2)]) (simp_all add: intact_handle)
next
  case (tick s)
  show ?case by (rule settled_after [OF tick(3)]) (simp_all add: intact_Tick)
qed (auto intro: settled_same simp: intact.R_refl)

lemma process_step_alive: "process_step E s s' \<Longrightarrow> pstage s \<noteq> Crashed"
  by (induction rule: process_step.induct) (auto simp: alive_def)

lemma process_settled: "process_run L G depth s \<Longrightarrow> pstage s \<noteq> Crashed \<longrightarrow> settled s"
proof (induction rule: process_run.induct)
  case (started w g d log dir host adv port nodesFlag r p)
  then obtain me dd l st where
    "NewRaft (counter_env L G depth) g dd me dir (Split nodesFlag 44) l st (NewFSM w) DefaultConfig = Ret r p"
    by (auto simp: main_start_def split: option.splits prod.splits sum.splits)
  then have "node_ok r" by (rule NewRaft_ok(2)) (rule DefaultConfig_valid)
  then show ?case by (simp add: settled_def started_process_def all_held_def mem_ok_none)
next
  case (step s s')
  then show ?case using process_step_settled [OF step(2)] process_step_alive [OF step(2)] by blast
qed

section \<open>Steps that return\<close>

lemma OnExit_halts: "halts (OnExit p r)"
  by (auto simp: OnExit_def stopApplier_def intro!: bindO_halts drain_halts split: option.splits role_obj.splits)

lemma HandlePropose_halts: "halts (HandlePropose E p bs cid sn ep r)"
  by (auto simp: HandlePropose_def HandlePropose_begin_def make_chan_def Let_def intro!: bindO_halts with_halts send_halts
      split: option.splits role_obj.splits prod.splits)

lemma serve_returns: "halts m \<Longrightarrow> \<exists>r a. serve m = Ret r a"
  by (cases m) (auto simp: serve_def)

lemma post_propose_returns: "\<exists>r' a. post_propose E body r = Ret r' a"
proof -
  have "halts (Propose E bs r)" for bs
    by (auto simp: Propose_def ProposeWithSession_def HandlePropose_halts split: option.splits)
  then show ?thesis by (auto simp: post_propose_def split: option.splits outcome.splits) (metis halts.simps(1))
qed

lemma handle_returns:
  assumes "node_ok r" and "fault_free (fdisk r)" and "returns E ok f" and "ok (fsm r)" and "2 \<le> stackDepth E"
  shows "\<exists>r' a. handle E q r = Ret r' a"
proof -
  have h: "halts (HandleAppendEntries E t w i lt es ci r)" "halts (HandlePreVote E t w i lt r)"
    "halts (HandleRequestVote E t w i lt r)" "halts (HandleInstallSnapshot E t w i lt bs r)" for t w i lt es ci bs
    using handlers_answer [OF assms, of t w i lt es ci w i lt bs] by auto
  have sw: "halts (bindO (Disable r) (\<lambda>r u. Ret r (StatusOK ())))" "halts (bindO (Enable r) (\<lambda>r u. Ret r (StatusOK ())))"
    by (auto simp: Disable_def Enable_def intro!: bindO_halts OnExit_halts becomeFollower_halts split: option.splits)
  have ends: "\<exists>r' x. post_append_entries E a r = Ret r' x" "\<exists>r' x. post_pre_vote E b r = Ret r' x"
    "\<exists>r' x. post_request_vote E c r = Ret r' x" "\<exists>r' x. post_install_snapshot E d r = Ret r' x"
    "\<exists>r' x. get_disable r = Ret r' x" "\<exists>r' x. get_enable r = Ret r' x" "\<exists>r' x. post_snapshot E r = Ret r' x" for a b c d
    using sw
    by (auto simp: post_append_entries_def post_pre_vote_def post_request_vote_def post_install_snapshot_def get_disable_def
        get_enable_def post_snapshot_def case_prod_beta' intro!: serve_returns bindO_halts h split: option.splits prod.splits)
  show ?thesis by (cases q) (use ends post_propose_returns in \<open>simp_all add: get_ping_def post_propose_new_def\<close>)
qed

lemma after_returns: "\<exists>r a. m = Ret r a \<Longrightarrow> pstage (after s m) = pstage s"
  by auto

lemma after_replies:
  "pstage (after s (PreVote_reply E p t reply r)) = pstage s" "pstage (after s (RequestVote_reply E p t reply r)) = pstage s"
  "pstage (after s (AppendEntries_reply E p n t pi es areply r)) = pstage s"
  "pstage (after s (InstallSnapshot_reply E p n snap t r)) = pstage s"
  using replies_return(1) [of E p t "fst reply" "snd reply" r] replies_return(2) [of E p t "fst reply" "snd reply" r]
    replies_return(3) [of E p n t pi es "fst areply" "fst (snd areply)" "fst (snd (snd areply))" "snd (snd (snd areply))" r]
    replies_return(4) [of E p n snap t r]
  by (auto intro!: after_returns)

lemma goroutine_survives:
  assumes "goroutine_step E s s'" and "settled s" and "returns E ok f" and "ok (fsm (pnode s))"
  shows "pstage s' = pstage s"
  using assms(1)
proof cases
  case (applier p pc stops)
  have "holds (set (held pc)) (dom (appliers s)) (pnode s)"
    using assms(2) applier(2) by (auto simp: settled_def mem_ok_def all_held_at [OF applier(2)] holds_Un)
  then obtain r' pc' where "applier_micro E p stops pc (pnode s) = Ret r' pc'"
    using applier_micro_returns [OF assms(3,4)] applier(2) by blast
  then have "applier_step E p stops pc (pnode s) = Ret r' pc'" by (simp add: applier_step_def)
  then show ?thesis using applier(1) by simp
next
  case (propose_runs p epoch bs)
  have "\<exists>r' a. post_propose_run E p epoch bs (pnode s) = Ret r' a"
    using HandlePropose_halts [of E p bs "[]" 0 epoch "pnode s"]
    by (cases "HandlePropose E p bs [] 0 epoch (pnode s)") (auto simp: post_propose_run_def)
  then show ?thesis using propose_runs(1) by auto
next
  case (cancel p l i ch)
  then show ?thesis by (auto simp: HandlePropose_cancel_def with_leader_def Let_def)
qed (auto simp: after_replies)

lemma tick_returns:
  assumes "node_ok r"
  shows "\<exists>r'. Tick E r = Ret r' ()"
proof (cases "enabled r")
  case True
  obtain p where "role r = Some p" "Validate (config r) = None" using assms by (auto simp: node_ok_def node_wf_def)
  then show ?thesis using Tick_returns node_ok_can_exit [OF assms True] by blast
qed (simp add: Tick_def)

section \<open>Properties\<close>

text \<open>
  C5. A process does not crash: after every run of a process that \<^verbatim>\<open>main\<close> has started, with any
  requests, ticks, snapshots, answers of other nodes, disabling, enabling and the shutdown, the
  appliers, the proposals and the snapshots interleaved with them between the locked sections, each
  of which is one step, a further step does not end in a panic outside a request or in an exhausted stack, provided that
  the disk works at that step, that the counter is then well formed (a snapshot of another node
  may hold one that is not), and that the stack has room for two nested calls.
\<close>

theorem process_survives:
  assumes "process_run L G depth s" and "process_step (counter_env L G depth) s s'"
    and "fault_free (fdisk (pnode s))" and "fsm_ok (fsm (pnode s))" and "2 \<le> depth"
  shows "pstage s' \<noteq> Crashed"
proof -
  let ?E = "counter_env L G depth"
  have s: "settled s" using process_settled [OF assms(1)] process_step_alive [OF assms(2)] by blast
  note ok = settled_node [OF s]
  obtain f where f: "returns ?E fsm_ok f" using counter_returns by blast
  have depth: "2 \<le> stackDepth ?E" using assms(5) by (simp add: counter_env_ops)
  from assms(2) show ?thesis
  proof cases
    case (request q)
    then show ?thesis using handle_returns [OF ok assms(3) f assms(4) depth, of q] by (auto simp: alive_def)
  next
    case goroutine
    then show ?thesis using goroutine_survives [OF goroutine(2) s f assms(4)] by (auto simp: alive_def)
  next
    case tick
    then show ?thesis using tick_returns [OF ok, of ?E] by (auto simp: alive_def)
  next
    case shutdown
    then show ?thesis using Shutdown_spec [OF ok] by (metis after.simps(1) process.select_convs(5) process.surjective
          process.update_convs(1,5) stage.distinct)
  qed (auto simp: alive_def)
qed

text \<open>
  C16. The shutdown is orderly: when the signal has arrived, \<^verbatim>\<open>main\<close> can shut the node down, whatever
  the disk does; the node is then disabled, each proposal that waited at an enabled leader receives
  the error that the leader stepped down, and the node neither ticks, nor takes a proposal, nor
  grants a vote, nor accepts entries.
\<close>

theorem shutdown_is_orderly:
  assumes "process_run L G depth s" and "pstage s = Serving" and "ctxDone s"
  shows "\<exists>s'. process_step (counter_env L G depth) s s' \<and> pstage s' = Draining
    \<and> (\<forall>p l i. enabled (pnode s) \<and> role (pnode s) = Some p \<and> heap (pnode s) p = Some (Leader l) \<longrightarrow>
         (\<forall>ch\<in>set (pending_at l i). HandlePropose_receive ch (pnode s') = Some (Failed SteppedDown, pnode s')))
    \<and> Tick (counter_env L G depth) (pnode s') = Ret (pnode s') ()
    \<and> Propose (counter_env L G depth) bs (pnode s') = Ret (pnode s') Unavailable
    \<and> HandleRequestVote (counter_env L G depth) t c i lt (pnode s') = Ret (pnode s') (currentTerm (store (pnode s')), False)
    \<and> HandleAppendEntries (counter_env L G depth) t w i lt es ci (pnode s')
        = Ret (pnode s') (currentTerm (store (pnode s')), False, 0, 0)"
proof -
  have "settled s" using process_settled [OF assms(1)] assms(2) by simp
  then obtain r' where r': "Shutdown (pnode s) = Ret r' ()" "\<not> enabled r'"
    "\<And>p l i c. enabled (pnode s) \<Longrightarrow> role (pnode s) = Some p \<Longrightarrow> heap (pnode s) p = Some (Leader l)
      \<Longrightarrow> c \<in> set (pending_at l i) \<Longrightarrow> chans r' c = Some closed_chan"
    using Shutdown_spec [OF settled_node] by blast
  have "process_step (counter_env L G depth) s (s\<lparr>pstage := Draining, pnode := r'\<rparr>)"
    using process_step.shutdown [OF assms(2,3)] r'(1) by simp
  then show ?thesis
    using r'(2,3)
    by (intro exI [of _ "s\<lparr>pstage := Draining, pnode := r'\<rparr>"])
      (auto simp: HandlePropose_receive_def Tick_def Propose_def ProposeWithSession_def Propose_capture_def
        HandleRequestVote_def HandleAppendEntries_def)
qed

definition sample_gob :: gob where
  "sample_gob = \<lparr>gob_enc = (\<lambda>c. Some []), gob_dec = (\<lambda>bs. None)\<rparr>"

abbreviation sample_counter_env :: "(logview, CounterFSM) env" where
  "sample_counter_env \<equiv> counter_env mem_golog sample_gob 4"

lemma sample_main:
  "\<exists>r p. main_start mem_golog sample_gob 4 (\<lambda>_. (8, 20)) sample_rng empty_disk (Some (0, [])) [100] [104] [] 8081 [97, 44, 98]
       = Inr (Ret r p)
     \<and> fault_free (fdisk r) \<and> fsm r = NewFSM (\<lambda>_. (8, 20))"
  by (simp add: main_start_def node_simps fault_free_def)

theorem process_survives_witness:
  "\<exists>s. process_run mem_golog sample_gob 4 s \<and> pstage (after s (Tick sample_counter_env (pnode s))) \<noteq> Crashed"
proof -
  obtain r p where r: "main_start mem_golog sample_gob 4 (\<lambda>_. (8, 20)) sample_rng empty_disk (Some (0, [])) [100] [104] [] 8081 [97, 44, 98]
      = Inr (Ret r p)" "fault_free (fdisk r)" "fsm r = NewFSM (\<lambda>_. (8, 20))"
    using sample_main by blast
  let ?s = "started_process r"
  have run: "process_run mem_golog sample_gob 4 ?s" by (rule process_run.started [OF r(1)])
  have "process_step sample_counter_env ?s (after ?s (Tick sample_counter_env (pnode ?s)))"
    by (rule process_step.tick) (simp_all add: started_process_def alive_def)
  from process_survives [OF run this] show ?thesis
    using run r(2,3) NewFSM_ok [of "\<lambda>_. (8, 20)"] by (auto simp: started_process_def clock_ok_def)
qed

theorem shutdown_is_orderly_witness:
  "\<exists>s s'. process_run mem_golog sample_gob 4 s \<and> process_step sample_counter_env s s' \<and> pstage s' = Draining
     \<and> Propose sample_counter_env [1] (pnode s') = Ret (pnode s') Unavailable"
proof -
  obtain r p where r: "main_start mem_golog sample_gob 4 (\<lambda>_. (8, 20)) sample_rng empty_disk (Some (0, [])) [100] [104] [] 8081 [97, 44, 98]
      = Inr (Ret r p)"
    using sample_main by blast
  let ?s = "started_process r\<lparr>ctxDone := True\<rparr>"
  have "process_step sample_counter_env (started_process r) ?s"
    by (rule process_step.signal) (simp add: started_process_def alive_def)
  then have run: "process_run mem_golog sample_gob 4 ?s" by (rule process_run.step [OF process_run.started [OF r]])
  from shutdown_is_orderly [OF this, of "[1]"] show ?thesis using run by (fastforce simp: started_process_def)
qed

end
