(* ===== verification/Rpc.thy ===== *)
theory Rpc
  imports Server
begin

text \<open>
  A remote call from end to end: the goroutine of the caller (\<^verbatim>\<open>sendPreVote\<close>, \<^verbatim>\<open>sendRequestVote\<close>,
  \<^verbatim>\<open>sendAppendEntriesToNode\<close>, \<^verbatim>\<open>sendInstallSnapshotToNode\<close>) builds a request, \<^verbatim>\<open>Transport\<close> posts it, the
  endpoint of the callee in \<^verbatim>\<open>main.go\<close> runs the handler, and \<^verbatim>\<open>Transport\<close> reads the response. Each call
  gives the callee afterwards and the values that the caller's goroutine continues with.
\<close>

section \<open>Calls\<close>

text \<open>The status and body that an endpoint writes, as the client sees them.\<close>

fun http_of :: "'a response \<Rightarrow> 'a http_result" where
  "http_of (StatusOK a) = Decoded a"
| "http_of BadRequest = BadStatus 400"
| "http_of ServerError = BadStatus 500"

text \<open>An endpoint that never writes a response leaves the caller with a failed round trip.\<close>

fun exchange :: "('l, 's) raft \<Rightarrow> (('l, 's) raft, 'a response) outcome \<Rightarrow> ('l, 's) raft \<times> 'a http_result" where
  "exchange b (Ret b' a) = (b', http_of a)"
| "exchange b (Panic b') = (b', DoError)"
| "exchange b NoReturn = (b, DoError)"

text \<open>The pre-vote asks for the term after the candidate's own.\<close>

definition sendPreVote_call ::
  "('l, 's) env \<Rightarrow> u64 \<Rightarrow> gostring \<Rightarrow> u64 \<Rightarrow> u64 \<Rightarrow> ('l, 's) raft \<Rightarrow> ('l, 's) raft \<times> vote_reply" where
  "sendPreVote_call E term candidateId lastIndex lastTerm b =
     (case exchange b (post_pre_vote E (Some (PreVote_request (term + 1) candidateId lastIndex lastTerm)) b) of
        (b', x) \<Rightarrow> (b', Transport_PreVote (term + 1) x))"

definition sendRequestVote_call ::
  "('l, 's) env \<Rightarrow> u64 \<Rightarrow> gostring \<Rightarrow> u64 \<Rightarrow> u64 \<Rightarrow> ('l, 's) raft \<Rightarrow> ('l, 's) raft \<times> vote_reply" where
  "sendRequestVote_call E term candidateId lastIndex lastTerm b =
     (case exchange b (post_request_vote E (Some (RequestVote_request term candidateId lastIndex lastTerm)) b) of
        (b', x) \<Rightarrow> (b', Transport_RequestVote term x))"

definition sendAppendEntries_call ::
  "('l, 's) env \<Rightarrow> u64 \<Rightarrow> gostring \<Rightarrow> u64 \<Rightarrow> u64 \<Rightarrow> LogEntry list \<Rightarrow> u64 \<Rightarrow> ('l, 's) raft
     \<Rightarrow> ('l, 's) raft \<times> append_reply" where
  "sendAppendEntries_call E term leader prevIndex prevTerm es commit b =
     (case exchange b (post_append_entries E (Some (AppendEntries_request term leader prevIndex prevTerm es commit)) b) of
        (b', x) \<Rightarrow> (b', Transport_AppendEntries term x))"

definition sendInstallSnapshot_call ::
  "('l, 's) env \<Rightarrow> u64 \<Rightarrow> gostring \<Rightarrow> Snapshot \<Rightarrow> ('l, 's) raft \<Rightarrow> ('l, 's) raft \<times> u64" where
  "sendInstallSnapshot_call E term leader snap b =
     (case exchange b (post_install_snapshot E (Some (InstallSnapshot_request term leader (LastIncludedIndex snap)
                          (LastIncludedTerm snap) (SnapData snap))) b) of
        (b', x) \<Rightarrow> (b', Transport_InstallSnapshot term x))"

lemmas call_defs = sendPreVote_call_def sendRequestVote_call_def sendAppendEntries_call_def sendInstallSnapshot_call_def
  post_pre_vote_def post_request_vote_def post_append_entries_def post_install_snapshot_def
  PreVote_request_def RequestVote_request_def AppendEntries_request_def InstallSnapshot_request_def

section \<open>Answers\<close>

text \<open>
  A remote call carries its arguments and its answer unchanged: when the callee's handler
  returns, each of the four calls leaves the callee as the handler left it and gives the caller
  the handler's own answer; when the handler panics, the caller sees a refusal in the term it sent.
\<close>

lemma calls_return_handler_answer:
  "(\<forall>b' t' ok. HandlePreVote E (t + 1) c i lt b = Ret b' (t', ok) \<longrightarrow> sendPreVote_call E t c i lt b = (b', t', ok))
   \<and> (\<forall>b' t' ok. HandleRequestVote E t c i lt b = Ret b' (t', ok) \<longrightarrow> sendRequestVote_call E t c i lt b = (b', t', ok))
   \<and> (\<forall>b' t' ok ci ct. HandleAppendEntries E t c i lt es k b = Ret b' (t', ok, ci, ct) \<longrightarrow>
        sendAppendEntries_call E t c i lt es k b = (b', t', ok, ci, ct))
   \<and> (\<forall>b' t'. HandleInstallSnapshot E t c (LastIncludedIndex sn) (LastIncludedTerm sn) (SnapData sn) b = Ret b' t' \<longrightarrow>
        sendInstallSnapshot_call E t c sn b = (b', t'))
   \<and> (\<forall>b'. HandleRequestVote E t c i lt b = Panic b' \<longrightarrow> sendRequestVote_call E t c i lt b = (b', t, False))
   \<and> (\<forall>b'. HandleAppendEntries E t c i lt es k b = Panic b' \<longrightarrow> sendAppendEntries_call E t c i lt es k b = (b', t, False, 0, 0))"
  by (intro conjI allI impI) (simp_all add: call_defs serve_def)

end
