(* ===== verification/Spec2Isabelle.thy ===== *)
theory Spec2Isabelle
  imports Election_Safety Cluster_Logs Log_Matching Commitment Recovery Process Rpc
begin

text \<open>
  A verification of the Raft implementation in this repository (the Go module under \<^verbatim>\<open>src/\<close>): a
  replicated log with leader election, snapshots and client sessions, and the state machine it
  replicates, a counter of distinct identifiers over a day.

  \<^bold>\<open>The program.\<close> A process (\<^verbatim>\<open>main.go\<close>) opens a write-ahead log and a store, builds a node
  (\<^verbatim>\<open>internal/raft.go\<close>) and serves its methods over HTTP. A node has one role at a time, a follower, a
  candidate or a leader (\<^verbatim>\<open>internal/follower_role.go\<close>, \<^verbatim>\<open>candidate_role.go\<close>, \<^verbatim>\<open>leader_role.go\<close>); one mutex
  guards the node, goroutines send requests to the other nodes (\<^verbatim>\<open>transport.go\<close>) and handle the
  answers under the mutex, and the leader's applier runs beside them. Term and vote are in the store
  (\<^verbatim>\<open>store.go\<close>), the entries in the log (\<^verbatim>\<open>log.go\<close>, \<^verbatim>\<open>log_entry.go\<close>), the state machine's state in
  snapshots (\<^verbatim>\<open>snapshot.go\<close>), and the answers to repeated commands in the session table (\<^verbatim>\<open>session.go\<close>).

  \<^bold>\<open>Theories and sources.\<close>
  \<^item> \<open>Prelude\<close>: machine integers, byte order, CRC-32 and FNV-1a, and \<open>outcome\<close>, the result of a step:
    \<open>Ret\<close> a state and a value, \<open>Panic\<close> in a state, or \<open>NoReturn\<close> (a loop, a blocked channel, an
    exhausted stack). The locale \<open>codec\<close> is the interface of a wire format.
  \<^item> \<open>Log_Entry\<close>, \<open>Session\<close>, \<open>Config\<close>, \<open>Counter\<close>: \<^verbatim>\<open>log_entry.go\<close>, \<^verbatim>\<open>session.go\<close>, \<^verbatim>\<open>config.go\<close>,
    \<^verbatim>\<open>counter/counter.go\<close> with \<^verbatim>\<open>fsm.go\<close>. Names are those of the source, with a suffix where they clash.
    The session table implements the locale \<open>dedup_table\<close>.
  \<^item> \<open>Disk\<close>: the file system the code relies on, with a fault for any operation and a power loss that
    keeps what was synced and may keep or lose the rest. \<open>Store\<close> and \<open>Snapshot\<close> are \<^verbatim>\<open>store.go\<close> and
    \<^verbatim>\<open>snapshot.go\<close> on that disk; both replace a file by writing a temporary one and renaming it.
  \<^item> \<open>Go_Log\<close>: the interface of the write-ahead log, a module outside the repository, as the record
    \<open>golog\<close> that is an argument of every definition that uses the log; \<open>golog_laws\<close> is what the code
    relies on, \<open>mem_golog\<close> a log that satisfies it. Then \<^verbatim>\<open>log.go\<close>.
  \<^item> \<open>Node\<close>: the state of a node, the record \<open>raft\<close>, with the role objects in a heap because goroutines
    keep pointers to roles that have been replaced; the parts of \<^verbatim>\<open>raft.go\<close> all roles use. The
    record \<open>env\<close> extends \<open>golog\<close> with the interface \<^verbatim>\<open>FSM\<close> and the depth of a goroutine's stack.
  \<^item> \<open>Follower\<close>, \<open>Leader\<close>, \<open>Candidate\<close>: the three roles. \<open>X_HandleY\<close> is the method \<^verbatim>\<open>HandleY\<close> of
    role \<open>X\<close>; a definition that ends in \<open>_reply\<close> is what a goroutine does with an answer. The source
    has the application of an entry three times, and so has the model: \<open>apply_command\<close> (leader),
    \<open>follower_command\<close> and \<open>replay_command\<close> (a node that starts).
  \<^item> \<open>Applier\<close>: the leader's applier at the points where it stands between two operations on shared
    state, and that the passes in \<open>Leader\<close> are its runs without interruption.
  \<^item> \<open>Raft\<close> has the methods of \<^verbatim>\<open>Raft\<close> that dispatch on the role, its construction, proposals, disabling
    and shutting down; the locale \<open>raft_role\<close> is the contract of a role and is interpreted for each of
    the three. \<open>Transport\<close> and \<open>Server\<close> are \<^verbatim>\<open>transport.go\<close> and the start and the endpoints of \<^verbatim>\<open>main.go\<close>
    (\<open>main_start\<close> builds the node on the counter, \<open>counter_env\<close>), and \<open>Rpc\<close> joins a call with the
    endpoint that answers it.
  \<^item> \<open>Process\<close> is the rest of \<^verbatim>\<open>main.go\<close> as a step relation: the routes, the two tickers, the signal and
    the shutdown around a node and its goroutines. The appliers run in the steps of \<open>Applier\<close>, any
    number at once; a proposal, a snapshot and the sending of a snapshot stop between their locked
    sections. The state machine, the session table, the log and channels lock themselves: one
    operation on them is one step.
  \<^item> \<open>Frame\<close>, \<open>Election\<close>, \<open>Cluster\<close>: what the steps of a node keep (the locale \<open>step_preorder\<close>), the
    argument by majorities (the locale \<open>quorum_system\<close>), and a cluster as a step relation in which
    messages are lost, repeated, reordered or made up, disks fail, and processes stop between any two
    steps and start again from their disks.
  \<^item> \<open>Replication\<close>: logs through their views, the follower's append against its specification, the
    leader's requests. \<open>Requests\<close>: for every step of a node, what it does to its log and which append
    requests it may send (the locale \<open>leader_preorder\<close> carries the loops of the leader). \<open>History\<close> is
    the argument of log matching by itself, over logs, leaderships and sent requests; \<open>Network\<close> is a
    cluster whose append requests are those some node sent, delivered any number of times in any
    order, and ties each step to the history. \<open>Well_Formed\<close>: the invariant of a node's memory and
    that every step keeps it, also beside appliers that hold channels they have taken; \<open>Progress\<close>:
    the goroutines of a process return.
  \<^item> \<open>Samples\<close>, \<open>Sample_Run\<close>: concrete parameters, nodes and a run for the witnesses.

  \<^bold>\<open>What is shown.\<close>
  \<^item> \<open>Election_Safety\<close>: at most one leader in a term, in every run of a cluster; a granted vote is on
    disk; terms, commit indices and votes only move forward.
  \<^item> \<open>Cluster_Logs\<close>: in every run of a cluster in which no snapshot takes effect, the logs of all nodes
    match, and a leader only appends.
  \<^item> \<open>Well_Formed\<close>: in every run of a cluster the memory of a node is well formed, and every request is
    answered. \<open>Process\<close>: a process does not crash as long as its disk works and its counter is well
    formed, and shuts down in order.
  \<^item> \<open>Log_Matching\<close>: a leader's request is an exact slice of its log; with a log that writes what it is
    given, a node that answers with success has the log of the specification, and its log still
    matches the leader's.
  \<^item> \<open>Commitment\<close>: the middle of the sorted match indices is the counting rule of the specification.
  \<^item> \<open>Application\<close>: the apply loops refine a specification with sessions, the leader's and the follower's
    agree, one pass that is not interrupted applies a command of a session at most once, and a
    waiting proposal is answered.
  \<^item> \<open>Handlers\<close>: every handler returns, and a leader that steps down releases its waiters.
    \<open>Lease\<close>: a leader without a majority steps down. \<open>Recovery\<close>: a node started from a snapshot has the
    state that was saved, and on top of it the entries its log has behind the snapshot.
  \<^item> \<open>Store\<close>, \<open>Snapshot\<close>, \<open>Log_Entry\<close>, \<open>Session\<close>, \<open>Go_Log\<close>, \<open>Counter\<close>, \<open>Config\<close>: round trips, power
    losses, detection of corruption, the backward search for a term, the counter against its
    specification, and the bounds of the election timer.
  \<^item> Theorems about defects show, on concrete nodes, where the code departs from what its
    documentation says: entries written twice after a lost answer, an entry committed that the leader
    has not confirmed, entries acknowledged that were not written, an entry applied twice when a
    request overtakes the applier, uncommitted entries applied on a restart, a snapshot that blocks replication, sessions lost in a snapshot, unbounded recursion on a
    failing store, a panic on enabling, a proposal that waits at a disabled leader, a vote lost without a sync of the directory, and replicas that
    differ by their clocks.

  \<^bold>\<open>Bounds.\<close> Terms and indices are 64-bit words; \<open>golog_laws\<close> and \<open>view_ok\<close> keep indices below 2^63, and
  election safety supposes that terms stay below the last 64-bit value (\<open>room\<close>). The handlers that call
  themselves take the calls left on the stack as an argument: two are enough on a working disk
  (\<open>Handlers\<close>), and none are on a failing one. All loops are structural recursion on the number of
  iterations the source fixes before the loop. The matching of all logs supposes \<open>golog_laws\<close>, a log
  that loads a prefix of what was written (\<open>loads_prefix\<close>), fewer than 2^63 entries, and
  no snapshot (\<open>unsnapped\<close>): a compacted log does not match, as the theorems on defects show.

  \<^bold>\<open>Not modelled.\<close> The text of JSON and HTTP, sockets and timeouts (the ways an exchange can end are), the
  flag parser, printing, and the scripts and infrastructure files. The modules go-log, gin, uuid and
  encoding/gob are parameters. A locked section of one goroutine is one step: an applier takes its
  steps before and after it, not in the middle. Two snapshots whose writes to the temporary file
  overlap are not modelled either: \<open>SaveSnapshot\<close> is one step, except for a power loss, which may stop
  it anywhere. That committed entries are never lost is not claimed: a follower may commit an entry
  the leader has not confirmed, and may acknowledge entries it could not write.
\<close>

end
